(* ===== verification/Prelude.thy ===== *)
theory Prelude
  imports Main "HOL-Library.Word" "HOL-Library.AList"
begin

text \<open>
  Shared vocabulary of the development: the machine types of the C++ sources, the
  characters and decimal digits of the C locale, and the generic facts on lists, words
  and options that several components use.

  A \<open>uint8_t\<close>, \<open>uint32_t\<close> or \<open>uint64_t\<close> whose arithmetic can wrap is a word of that
  width. \<open>CAmount\<close> (an \<open>int64_t\<close>) is an \<^typ>\<open>int\<close>; where the source mixes it with
  unsigned operands the conversion to and from a 64-bit word is written out. A 256-bit
  hash is a 256-bit word; \<open>uint256::IsNull\<close> is equality with zero.
\<close>

unbundle bit_operations_syntax

section \<open>Types\<close>

type_synonym byte = "8 word"
type_synonym bytes = "8 word list"
type_synonym u16 = "16 word"
type_synonym u32 = "32 word"
type_synonym u64 = "64 word"
type_synonym uint256 = "256 word"
type_synonym CAmount = int

text \<open>The value \<open>std::numeric_limits<uint32_t>::max()\<close>, the source's "no height" marker.\<close>

abbreviation UINT32_MAX :: u32 where
  "UINT32_MAX \<equiv> 0xFFFFFFFF"

named_theorems word_split \<open>splitting machine words into little-endian bytes\<close>
named_theorems charset \<open>character classes of the C locale\<close>

section \<open>Characters and decimal numerals\<close>

definition isdigit :: "char \<Rightarrow> bool" where
  "isdigit c \<longleftrightarrow> 48 \<le> (of_char c :: nat) \<and> (of_char c :: nat) \<le> 57"

definition isspace :: "char \<Rightarrow> bool" where
  "isspace c \<longleftrightarrow> (of_char c :: nat) = 32 \<or> 9 \<le> (of_char c :: nat) \<and> (of_char c :: nat) \<le> 13"

definition digit_char :: "nat \<Rightarrow> char" where
  "digit_char d = char_of (48 + d)"

definition digit_val :: "char \<Rightarrow> nat" where
  "digit_val c = of_char c - 48"

fun dec_digits :: "nat \<Rightarrow> string" where
  "dec_digits n = (if n < 10 then [digit_char n] else dec_digits (n div 10) @ [digit_char (n mod 10)])"

declare dec_digits.simps [simp del]

definition dec_value :: "string \<Rightarrow> nat" where
  "dec_value = foldl (\<lambda>a c. a * 10 + digit_val c) 0"

lemma of_char_digit_char [charset]: "d < 10 \<Longrightarrow> of_char (digit_char d) = 48 + d"
  by (simp add: digit_char_def)

lemma isdigit_digit_char [simp]: "d < 10 \<Longrightarrow> isdigit (digit_char d)"
  by (simp add: isdigit_def charset)

lemma digit_val_digit_char [simp]: "d < 10 \<Longrightarrow> digit_val (digit_char d) = d"
  by (simp add: digit_val_def charset)

lemma digit_val_lt: "isdigit c \<Longrightarrow> digit_val c < 10"
  by (auto simp: isdigit_def digit_val_def)

lemma digit_char_digit_val: "isdigit c \<Longrightarrow> digit_char (digit_val c) = c"
  by (auto simp: isdigit_def digit_val_def digit_char_def)

lemma isdigit_not_isspace: "isdigit c \<Longrightarrow> \<not> isspace c"
  by (auto simp: isdigit_def isspace_def)

lemma dec_digits_isdigit: "c \<in> set (dec_digits n) \<Longrightarrow> isdigit c"
proof (induction n rule: dec_digits.induct)
  case (1 n)
  then show ?case by (cases "n < 10") (auto simp: dec_digits.simps [of n])
qed

lemma dec_digits_not_Nil [simp]: "dec_digits n \<noteq> []"
  by (simp add: dec_digits.simps [of n])

lemma dec_value_snoc: "dec_value (cs @ [c]) = dec_value cs * 10 + digit_val c"
  by (simp add: dec_value_def)

lemma dec_value_Nil [simp]: "dec_value [] = 0"
  by (simp add: dec_value_def)

lemma dec_value_dec_digits [simp]: "dec_value (dec_digits n) = n"
proof (induction n rule: dec_digits.induct)
  case (1 n)
  show ?case
  proof (cases "n < 10")
    case True
    then show ?thesis by (simp add: dec_digits.simps [of n] dec_value_def)
  next
    case False
    with "1" show ?thesis by (simp add: dec_digits.simps [of n] dec_value_snoc)
  qed
qed

lemma length_dec_digits_le: "0 < k \<Longrightarrow> length (dec_digits n) \<le> k \<longleftrightarrow> n < 10 ^ k"
proof (induction n arbitrary: k rule: dec_digits.induct)
  case (1 n)
  show ?case
  proof (cases "n < 10")
    case True
    have "(10::nat) ^ 1 \<le> 10 ^ k"
      using "1.prems" by (intro power_increasing) auto
    with True have "n < 10 ^ k" by simp
    with True "1.prems" show ?thesis by (simp add: dec_digits.simps [of n])
  next
    case False
    obtain j where k: "k = Suc j" using "1.prems" by (cases k) auto
    have eq: "length (dec_digits n) = Suc (length (dec_digits (n div 10)))"
      using False by (simp add: dec_digits.simps [of n])
    show ?thesis
    proof (cases "j = 0")
      case True
      with False k eq show ?thesis by (cases "dec_digits (n div 10)") auto
    next
      case nz: False
      have "length (dec_digits n) \<le> k \<longleftrightarrow> n div 10 < 10 ^ j"
        using "1.IH" [OF False, of j] nz k eq by simp
      also have "\<dots> \<longleftrightarrow> n < 10 ^ k"
        by (simp add: k div_less_iff_less_mult mult.commute)
      finally show ?thesis .
    qed
  qed
qed

section \<open>Words read as signed and unsigned integers\<close>

lemma sint_small_u64: "uint (w :: u64) < 2 ^ 63 \<Longrightarrow> sint w = uint w"
  unfolding sint_uint
  by (intro signed_take_bit_int_eq_self) (simp_all add: order_trans [OF _ uint_ge_0])

lemma uint_mult_small:
  fixes a b :: "'a :: len word"
  shows "uint a * uint b < 2 ^ LENGTH('a) \<Longrightarrow> uint (a * b) = uint a * uint b"
  by (simp add: uint_word_ariths)

lemma of_nat_u32_eq: "h < 2 ^ 32 \<Longrightarrow> (of_nat h :: u32) = w \<longleftrightarrow> h = unat w"
  by (auto simp: unat_of_nat)

lemma of_nat_u32_less: "h < 2 ^ 32 \<Longrightarrow> (of_nat h :: u32) < w \<longleftrightarrow> h < unat w"
  by (simp add: word_less_nat_alt unat_of_nat)

lemma unat_lt2p: "unat (w :: 'a::len word) < 2 ^ LENGTH('a)"
  by (rule unsigned_less)

lemma ucast_ucast_id:
  fixes n :: "'a::len word"
  assumes "unat n < 2 ^ LENGTH('b::len)"
  shows "ucast (ucast n :: 'b word) = n"
  using assms
  by (intro word_unat_eq_iff [THEN iffD2])
    (simp add: unsigned_ucast_eq unsigned_take_bit_eq take_bit_nat_eq_self)

lemma unat_ucast_small:
  "unat (n :: 'a::len word) < 2 ^ LENGTH('b::len) \<Longrightarrow> unat (ucast n :: 'b word) = unat n"
  by (simp add: unsigned_ucast_eq take_bit_nat_eq_self)

lemma unat_ucast_up:
  "LENGTH('a) \<le> LENGTH('b) \<Longrightarrow> unat (ucast (n :: 'a::len word) :: 'b::len word) = unat n"
  by (rule unat_ucast_small) (rule order_less_le_trans [OF unsigned_less], simp)

lemma ucast_up_down:
  "LENGTH('a) \<le> LENGTH('b) \<Longrightarrow> ucast (ucast (n :: 'a::len word) :: 'b::len word) = n"
  by (rule ucast_ucast_id) (rule order_less_le_trans [OF unsigned_less], simp)

lemma unat_drop_bit: "unat (drop_bit k n) = unat (n :: 'a::len word) div 2 ^ k"
  by (simp add: unsigned_drop_bit_eq take_bit_nat_eq_self unat_lt2p drop_bit_eq_div [where 'a = nat])

lemma unat_word_of_int_small:
  "0 \<le> m \<Longrightarrow> m < 2 ^ LENGTH('a) \<Longrightarrow> unat (word_of_int m :: 'a::len word) = nat m"
  by (simp only: unat_eq_nat_uint uint_word_of_int mod_pos_pos_trivial)

section \<open>The sign bit of a byte\<close>

lemma byte_and_0x80: "(b :: byte) AND 0x80 = 0 \<longleftrightarrow> \<not> bit b 7"
  using and_exp_eq_0_iff_not_bit [of b 7] by simp

lemma byte_and_0x7f: "(b :: byte) AND 0x7f = take_bit 7 b"
  by (simp add: take_bit_eq_mask mask_eq_exp_minus_1)

lemma take_bit_7_id: "\<not> bit (b :: byte) 7 \<Longrightarrow> take_bit 7 b = b"
  by (rule bit_word_eqI) (auto simp: bit_simps less_Suc_eq numeral_eq_Suc)

lemma unat_take_bit_7: "unat (take_bit 7 (b :: byte)) < 128"
  using take_bit_nat_less_exp [of 7 "unat b"] by (simp add: unsigned_take_bit_eq)

lemma byte_0x80_bits: "bit (0x80 :: byte) n \<longleftrightarrow> n = 7"
  using bit_exp_iff [of 7 n, where 'a = byte] by auto

lemma byte_or_sign:
  fixes b :: byte
  shows "bit (b OR 0x80) 7"
    and "\<not> bit b 7 \<Longrightarrow> take_bit 7 (b OR 0x80) = b"
    and "bit b 7 \<Longrightarrow> take_bit 7 b OR 0x80 = b"
proof -
  have n: "n < LENGTH(8) \<Longrightarrow> n \<noteq> 7 \<Longrightarrow> n < 7" for n :: nat by simp
  show "bit (b OR 0x80) 7" by (simp only: bit_or_iff byte_0x80_bits) simp
  show "take_bit 7 (b OR 0x80) = b" if "\<not> bit b 7"
    using that n by (intro bit_word_eqI) (simp only: bit_or_iff bit_take_bit_iff byte_0x80_bits, blast)
  show "take_bit 7 b OR 0x80 = b" if "bit b 7"
    using that n by (intro bit_word_eqI) (simp only: bit_or_iff bit_take_bit_iff byte_0x80_bits, blast)
qed

section \<open>Key-value stores\<close>

text \<open>What a client of a store of values under keys relies on.\<close>

locale key_value =
  fixes get :: "'s \<Rightarrow> 'k \<Rightarrow> 'v option" and put :: "'k \<Rightarrow> 'v \<Rightarrow> 's \<Rightarrow> 's" and del :: "'k \<Rightarrow> 's \<Rightarrow> 's"
  assumes get_put: "get (put k v s) k' = (if k' = k then Some v else get s k')"
    and get_del: "get (del k s) k' = (if k' = k then None else get s k')"
begin

lemma get_put_same [simp]: "get (put k v s) k = Some v"
  by (simp add: get_put)

lemma get_put_other: "k' \<noteq> k \<Longrightarrow> get (put k v s) k' = get s k'"
  by (simp add: get_put)

lemma put_del: "get (put k v (del k s)) k' = get (put k v s) k'"
  by (simp add: get_put get_del)

lemma put_commute: "k \<noteq> j \<Longrightarrow> get (put k v (put j w s)) i = get (put j w (put k v s)) i"
  by (simp add: get_put)

end

text \<open>Ordered and unordered maps of the source are association lists where they are iterated over.\<close>

interpretation al: key_value map_of AList.update AList.delete
  by unfold_locales (auto simp: update_conv' delete_conv')

end
