(* ===== verification/Amount.thy ===== *)
theory Amount
  imports Prelude
begin

text \<open>
  Money (\<open>amount.h\<close>, \<open>amount.cpp\<close>, \<open>utilmoneystr.cpp\<close>): the constants of the currency, the
  fee rate class, and printing and parsing of amounts. \<open>FormatMoney\<close> and \<open>ParseMoney\<close> are
  inverse to each other exactly below ten billion coins, which is less than \<open>MAX_MONEY\<close>.
\<close>

section \<open>Constants and range\<close>

definition REWARD :: CAmount where "REWARD = 6250"

definition COIN :: CAmount where "COIN = 100000"

definition CENT :: CAmount where "CENT = 1000"

definition MAX_MONEY :: CAmount where "MAX_MONEY = 21000000000 * COIN"

definition MoneyRange :: "CAmount \<Rightarrow> bool" where
  "MoneyRange nValue \<longleftrightarrow> 0 \<le> nValue \<and> nValue \<le> MAX_MONEY"

definition MAX_BLOCK_SIZE :: nat where "MAX_BLOCK_SIZE = 2000000"

section \<open>Fee rates\<close>

text \<open>
  \<open>nFeePaidPerK * 1000\<close> is signed, the division by the \<open>size_t\<close> converts it to unsigned;
  likewise \<open>m_nPatoshisPerK * nSize\<close> is computed as a \<open>uint64_t\<close>.
\<close>

record CFeeRate =
  m_nPatoshisPerK :: CAmount

definition CFeeRate_default :: CFeeRate where
  "CFeeRate_default = \<lparr>m_nPatoshisPerK = 0\<rparr>"

definition CFeeRate_perK :: "CAmount \<Rightarrow> CFeeRate" where
  "CFeeRate_perK nPatoshisPerK = \<lparr>m_nPatoshisPerK = nPatoshisPerK\<rparr>"

definition CFeeRate_paid :: "CAmount \<Rightarrow> u64 \<Rightarrow> CFeeRate" where
  "CFeeRate_paid nFeePaidPerK nSize =
     (if 0 < nSize
      then \<lparr>m_nPatoshisPerK =
              sint (min ((word_of_int (nFeePaidPerK * 1000) :: u64) div nSize)
                        (- 1 div of_nat MAX_BLOCK_SIZE))\<rparr>
      else \<lparr>m_nPatoshisPerK = 0\<rparr>)"

definition GetFee :: "CFeeRate \<Rightarrow> u64 \<Rightarrow> CAmount" where
  "GetFee r nSize =
     (let nFeeInPat = sint ((word_of_int (m_nPatoshisPerK r) * nSize :: u64) div 1000)
      in if nFeeInPat = 0 \<and> 0 < m_nPatoshisPerK r then m_nPatoshisPerK r else nFeeInPat)"

definition GetFeePerK :: "CFeeRate \<Rightarrow> CAmount" where
  "GetFeePerK r = GetFee r 1000"

definition CFeeRate_less :: "CFeeRate \<Rightarrow> CFeeRate \<Rightarrow> bool" where
  "CFeeRate_less a b \<longleftrightarrow> m_nPatoshisPerK a < m_nPatoshisPerK b"

section \<open>Printing and parsing\<close>

text \<open>
  \<open>pad5\<close> is the conversion \<open>%05d\<close> of a remainder below \<open>COIN\<close>, \<open>trim_zeros\<close> the trimming
  loop of \<open>FormatMoney\<close> on the reversed string: a trailing zero goes while the character two
  positions before it is a digit. The string holds at least seven characters, so the short
  lists are never reached.
\<close>

definition pad5 :: "nat \<Rightarrow> string" where
  "pad5 n = replicate (5 - length (dec_digits n)) (CHR ''0'') @ dec_digits n"

fun trim_zeros :: "string \<Rightarrow> string" where
  "trim_zeros (c # d # e # cs) =
     (if c = CHR ''0'' \<and> isdigit e then trim_zeros (d # e # cs) else c # d # e # cs)"
| "trim_zeros cs = cs"

definition FormatMoney :: "CAmount \<Rightarrow> string" where
  "FormatMoney n =
     (let n_abs = (if 0 < n then n else - n);
          quotient = n_abs div COIN;
          remainder = n_abs mod COIN;
          str = dec_digits (nat quotient) @ ''.'' @ pad5 (nat remainder);
          str = rev (trim_zeros (rev str))
      in if n < 0 then CHR ''-'' # str else str)"

text \<open>
  The parser walks a C string, which ends at its first NUL. \<open>parse_frac\<close> is the loop after the
  decimal point (returning \<open>nUnits\<close> and the rest), \<open>parse_whole\<close> the main loop (returning
  \<open>strWhole\<close>, \<open>nUnits\<close> and the rest, or \<open>None\<close> at a character that is no digit).
\<close>

fun parse_frac :: "CAmount \<Rightarrow> CAmount \<Rightarrow> string \<Rightarrow> CAmount \<times> string" where
  "parse_frac nMult nUnits [] = (nUnits, [])"
| "parse_frac nMult nUnits (c # cs) =
     (if isdigit c \<and> 0 < nMult
      then parse_frac (nMult div 10) (nUnits + nMult * int (digit_val c)) cs
      else (nUnits, c # cs))"

fun parse_whole :: "string \<Rightarrow> string \<Rightarrow> (string \<times> CAmount \<times> string) option" where
  "parse_whole strWhole [] = Some (strWhole, 0, [])"
| "parse_whole strWhole (c # cs) =
     (if c = CHR ''.'' then
        (let (nUnits, rest) = parse_frac (CENT * 10) 0 cs in Some (strWhole, nUnits, rest))
      else if isspace c then Some (strWhole, 0, c # cs)
      else if \<not> isdigit c then None
      else parse_whole (strWhole @ [c]) cs)"

definition ParseMoney :: "string \<Rightarrow> CAmount option" where
  "ParseMoney str =
     (let p = dropWhile isspace (takeWhile (\<lambda>c. c \<noteq> CHR 0x00) str)
      in case parse_whole [] p of
           None \<Rightarrow> None
         | Some (strWhole, nUnits, rest) \<Rightarrow>
             if \<not> list_all isspace rest then None
             else if 10 < length strWhole then None
             else if nUnits < 0 \<or> COIN < nUnits then None
             else Some (int (dec_value strWhole) * COIN + nUnits))"


section \<open>Facts on the number formats\<close>

lemma dec_value_Cons: "dec_value (c # cs) = digit_val c * 10 ^ length cs + dec_value cs"
proof (induction cs rule: rev_induct)
  case Nil
  then show ?case by (simp add: dec_value_def)
next
  case (snoc d ds)
  have "dec_value (c # ds @ [d]) = dec_value (c # ds) * 10 + digit_val d"
    using dec_value_snoc [of "c # ds" d] by simp
  with snoc show ?case by (simp add: dec_value_snoc algebra_simps)
qed

lemma dec_value_zeros [simp]: "dec_value (cs @ replicate j (CHR ''0'')) = dec_value cs * 10 ^ j"
proof (induction j)
  case (Suc j)
  have "dec_value ((cs @ replicate j (CHR ''0'')) @ [CHR ''0'']) = dec_value cs * 10 ^ j * 10"
    using Suc unfolding dec_value_snoc by (simp add: digit_val_def)
  moreover have "replicate (Suc j) (CHR ''0'') = replicate j (CHR ''0'') @ [CHR ''0'']"
    by (metis replicate_append_same replicate_Suc)
  ultimately show ?case by simp
qed simp

lemma dec_value_zeros_append [simp]: "dec_value (replicate j (CHR ''0'') @ cs) = dec_value cs"
  by (induction j) (simp_all add: dec_value_Cons digit_val_def)

lemma length_pad5: "n < 100000 \<Longrightarrow> length (pad5 n) = 5"
  using length_dec_digits_le [of 5 n] by (simp add: pad5_def)

lemma pad5_isdigit: "c \<in> set (pad5 n) \<Longrightarrow> isdigit c"
  by (auto simp: pad5_def dec_digits_isdigit isdigit_def split: if_splits)
     (auto dest: dec_digits_isdigit simp: isdigit_def)

lemma dec_value_pad5 [simp]: "dec_value (pad5 n) = n"
  by (simp add: pad5_def)

lemma trim_zeros_prefix: "\<exists>j. xs = replicate j (CHR ''0'') @ trim_zeros xs"
proof (induction xs rule: trim_zeros.induct)
  case (1 c d e cs)
  show ?case
  proof (cases "c = CHR ''0'' \<and> isdigit e")
    case True
    then obtain j where "d # e # cs = replicate j (CHR ''0'') @ trim_zeros (d # e # cs)"
      using "1" by blast
    then have "c # d # e # cs = replicate (Suc j) (CHR ''0'') @ trim_zeros (c # d # e # cs)"
      using True by simp
    then show ?thesis by blast
  next
    case False
    then have "c # d # e # cs = replicate 0 (CHR ''0'') @ trim_zeros (c # d # e # cs)"
      by auto
    then show ?thesis by blast
  qed
qed (auto intro: exI [where x = 0])

lemma append_zeros_point:
  assumes "A @ CHR ''.'' # ds = B @ replicate j (CHR ''0'')"
  shows "\<exists>ds'. B = A @ CHR ''.'' # ds' \<and> ds = ds' @ replicate j (CHR ''0'')"
  using assms
proof (induction j arbitrary: ds)
  case 0
  then show ?case by auto
next
  case (Suc j)
  have *: "A @ CHR ''.'' # ds = (B @ replicate j (CHR ''0'')) @ [CHR ''0'']"
    using Suc.prems by (metis append_assoc replicate_Suc replicate_append_same)
  then have "ds \<noteq> []" by (cases ds) auto
  then obtain es e where ds: "ds = es @ [e]" by (cases ds rule: rev_cases) auto
  with * have "(A @ CHR ''.'' # es) @ [e] = (B @ replicate j (CHR ''0'')) @ [CHR ''0'']"
    by simp
  then have e: "e = CHR ''0''" and "A @ CHR ''.'' # es = B @ replicate j (CHR ''0'')"
    by (simp_all only: append1_eq_conv)
  from Suc.IH [OF this(2)] obtain ds' where
    "B = A @ CHR ''.'' # ds'" and "es = ds' @ replicate j (CHR ''0'')" by blast
  with ds e show ?case
    by (metis append_assoc replicate_Suc replicate_append_same)
qed

lemma trim_point:
  "\<exists>ds' j. rev (trim_zeros (rev (A @ CHR ''.'' # ds))) = A @ CHR ''.'' # ds'
           \<and> ds = ds' @ replicate j (CHR ''0'')"
proof -
  obtain j where "rev (A @ CHR ''.'' # ds)
      = replicate j (CHR ''0'') @ trim_zeros (rev (A @ CHR ''.'' # ds))"
    using trim_zeros_prefix by blast
  then have "A @ CHR ''.'' # ds
      = rev (trim_zeros (rev (A @ CHR ''.'' # ds))) @ replicate j (CHR ''0'')"
    by (metis rev_append rev_replicate rev_rev_ident)
  from append_zeros_point [OF this] show ?thesis by blast
qed

lemma parse_frac_digits:
  assumes "list_all isdigit ds" and "length ds \<le> m"
  shows "parse_frac (10 ^ m div 10) u ds = (u + int (dec_value ds) * 10 ^ (m - length ds), [])"
  using assms
proof (induction ds arbitrary: m u)
  case Nil
  then show ?case by simp
next
  case (Cons c cs)
  then obtain j where m: "m = Suc j" by (cases m) auto
  have "parse_frac (10 ^ m div 10) u (c # cs)
      = parse_frac (10 ^ j div 10) (u + 10 ^ j * int (digit_val c)) cs"
    using Cons.prems m by simp
  also have "\<dots> = (u + 10 ^ j * int (digit_val c) + int (dec_value cs) * 10 ^ (j - length cs), [])"
    using Cons m by simp
  also have "(10::int) ^ j = 10 ^ (j - length cs) * 10 ^ length cs"
    using Cons.prems m by (simp flip: power_add)
  finally show ?case
    using m by (simp add: dec_value_Cons algebra_simps)
qed

lemma parse_whole_digits:
  assumes "list_all isdigit ds"
  shows "parse_whole w (ds @ CHR ''.'' # cs) =
    (let (nUnits, rest) = parse_frac (CENT * 10) 0 cs in Some (w @ ds, nUnits, rest))"
  using assms
proof (induction ds arbitrary: w)
  case (Cons d ds)
  then have "isdigit d" by simp
  then have "d \<noteq> CHR ''.''" "\<not> isspace d"
    by (auto simp: isdigit_def isspace_def)
  with Cons show ?case by simp
qed simp

lemma dec_value_le_pow: "list_all isdigit ds \<Longrightarrow> dec_value ds \<le> 10 ^ length ds"
proof (induction ds)
  case (Cons d ds)
  then have "digit_val d \<le> 9" using digit_val_lt [of d] by simp
  then have "digit_val d * 10 ^ length ds + dec_value ds \<le> 9 * 10 ^ length ds + 10 ^ length ds"
    using Cons by (intro add_mono mult_le_mono1) simp_all
  then show ?case by (simp add: dec_value_Cons)
qed simp

lemma ParseMoney_point:
  assumes "list_all isdigit w" and "w \<noteq> []" and "list_all isdigit ds" and "length ds \<le> 5"
  shows "ParseMoney (w @ CHR ''.'' # ds) =
    (if length w \<le> 10 then Some (int (dec_value w) * COIN + int (dec_value ds) * 10 ^ (5 - length ds))
     else None)"
proof -
  have nul: "takeWhile (\<lambda>c. c \<noteq> CHR 0x00) (w @ CHR ''.'' # ds) = w @ CHR ''.'' # ds"
    using assms(1,3) by (auto simp: list_all_iff isdigit_def)
  have sp: "dropWhile isspace (w @ CHR ''.'' # ds) = w @ CHR ''.'' # ds"
    using assms(1,2) by (cases w) (auto simp: isdigit_not_isspace)
  have fr: "parse_frac (CENT * 10) 0 ds = (int (dec_value ds) * 10 ^ (5 - length ds), [])"
    using parse_frac_digits [OF assms(3,4), of 0] by (simp add: CENT_def)
  have "int (dec_value ds) * 10 ^ (5 - length ds) \<le> 10 ^ length ds * 10 ^ (5 - length ds)"
  proof (intro mult_right_mono)
    have "dec_value ds \<le> 10 ^ length ds"
      using assms(3) by (rule dec_value_le_pow)
    then show "int (dec_value ds) \<le> 10 ^ length ds"
      by (metis of_nat_le_iff of_nat_numeral of_nat_power)
  qed simp
  also have "\<dots> = COIN"
    using assms(4) by (simp add: COIN_def flip: power_add)
  finally have le: "int (dec_value ds) * 10 ^ (5 - length ds) \<le> COIN" .
  have nn: "\<not> int (dec_value ds) * 10 ^ (5 - length ds) < 0"
    by (simp add: not_less)
  from fr le nn show ?thesis
    by (simp add: ParseMoney_def nul sp parse_whole_digits [OF assms(1)])
qed

lemma FormatMoney_shape:
  assumes "0 \<le> n"
  shows "\<exists>ds. FormatMoney n = dec_digits (nat (n div COIN)) @ CHR ''.'' # ds \<and> list_all isdigit ds
           \<and> length ds \<le> 5 \<and> int (dec_value ds) * 10 ^ (5 - length ds) = n mod COIN"
proof -
  let ?r = "nat (n mod COIN)"
  have r: "?r < 100000" by (simp add: COIN_def nat_less_iff)
  obtain ds j where fm: "rev (trim_zeros (rev (dec_digits (nat (n div COIN)) @ CHR ''.'' # pad5 ?r)))
        = dec_digits (nat (n div COIN)) @ CHR ''.'' # ds"
    and ds: "pad5 ?r = ds @ replicate j (CHR ''0'')"
    using trim_point by blast
  have len: "length ds + j = 5" using length_pad5 [OF r] ds by simp
  have "?r = dec_value ds * 10 ^ j" using dec_value_pad5 [of ?r] ds by simp
  then have "int ?r = int (dec_value ds) * 10 ^ j" by simp
  moreover have "int ?r = n mod COIN" by (simp add: COIN_def)
  moreover have "list_all isdigit ds"
    using pad5_isdigit [of _ ?r] ds by (auto simp: list_all_iff)
  moreover have "FormatMoney n = dec_digits (nat (n div COIN)) @ CHR ''.'' # ds"
    using assms fm by (cases "n = 0") (auto simp: FormatMoney_def)
  ultimately show ?thesis using len by (intro exI [of _ ds]) (auto simp flip: len)
qed

section \<open>Properties\<close>

text \<open>
  C35. Printing an amount and parsing the text gives the amount back exactly when it is
  non-negative and below ten billion coins; every other amount is printed to a text the
  parser rejects. \<open>MAX_MONEY\<close> is twenty-one billion coins, so the range of valid money is
  not covered by the round trip.
\<close>

theorem ParseMoney_FormatMoney:
  "ParseMoney (FormatMoney n) = (if 0 \<le> n \<and> n < 10000000000 * COIN then Some n else None)"
proof (cases "0 \<le> n")
  case True
  then obtain ds where ds: "FormatMoney n = dec_digits (nat (n div COIN)) @ CHR ''.'' # ds"
      "list_all isdigit ds" "length ds \<le> 5"
      "int (dec_value ds) * 10 ^ (5 - length ds) = n mod COIN"
    using FormatMoney_shape by blast
  have "length (dec_digits (nat (n div COIN))) \<le> 10 \<longleftrightarrow> nat (n div COIN) < 10 ^ 10"
    by (rule length_dec_digits_le) simp
  also have "\<dots> \<longleftrightarrow> n < 10000000000 * COIN"
    using True by (auto simp: COIN_def nat_less_iff)
  finally have bound: "length (dec_digits (nat (n div COIN))) \<le> 10 \<longleftrightarrow> n < 10000000000 * COIN" .
  have "list_all isdigit (dec_digits (nat (n div COIN)))"
    by (simp add: list_all_iff dec_digits_isdigit)
  from ParseMoney_point [OF this _ ds(2,3)] show ?thesis
    using ds(1,4) bound True by (simp add: COIN_def pos_imp_zdiv_nonneg_iff)
next
  case False
  then obtain cs where "FormatMoney n = CHR ''-'' # cs"
    by (auto simp: FormatMoney_def Let_def)
  with False show ?thesis
    by (simp add: ParseMoney_def isspace_def isdigit_def)
qed

text \<open>The cap of the constructor keeps a paid rate in the positive half of the 64-bit range.\<close>

lemma CFeeRate_paid_range:
  "0 \<le> m_nPatoshisPerK (CFeeRate_paid f s) \<and> m_nPatoshisPerK (CFeeRate_paid f s) \<le> 9223372036854"
proof (cases "0 < s")
  case True
  let ?m = "min ((word_of_int (f * 1000) :: u64) div s) (- 1 div of_nat MAX_BLOCK_SIZE)"
  have "?m \<le> - 1 div of_nat MAX_BLOCK_SIZE" by simp
  then have "?m \<le> 9223372036854" by (simp add: MAX_BLOCK_SIZE_def)
  then have u: "uint ?m \<le> 9223372036854" by (simp add: word_le_def)
  then have "sint ?m = uint ?m" by (intro sint_small_u64) simp
  with True u show ?thesis by (simp add: CFeeRate_paid_def)
qed (simp add: CFeeRate_paid_def)

text \<open>
  C36. A rate computed from a paid fee is non-negative, and the fee it gives for anything that
  fits in a block is the exact rounded-down product, with no wrap-around in the unsigned
  intermediate, raised to the whole rate where the product rounds to zero.
\<close>

theorem GetFee_paid_exact:
  fixes f :: CAmount and s n :: u64
  assumes "unat n \<le> MAX_BLOCK_SIZE"
  defines "k \<equiv> m_nPatoshisPerK (CFeeRate_paid f s)"
  shows "0 \<le> k \<and> GetFee (CFeeRate_paid f s) n =
           (if k * uint n div 1000 = 0 \<and> 0 < k then k else k * uint n div 1000)"
proof -
  have k: "0 \<le> k" "k \<le> 9223372036854"
    using CFeeRate_paid_range [of f s] by (simp_all add: k_def)
  have "int (unat n) \<le> int MAX_BLOCK_SIZE"
    using assms(1) by (simp only: of_nat_le_iff)
  then have n: "0 \<le> uint n" "uint n \<le> 2000000"
    by (simp_all add: MAX_BLOCK_SIZE_def)
  have uk: "uint (word_of_int k :: u64) = k"
    using k by (simp add: uint_word_of_int)
  have "k * uint n \<le> 9223372036854 * 2000000"
    using k n by (intro mult_mono) simp_all
  then have small: "k * uint n < 2 ^ 64" by simp
  then have prod: "uint (word_of_int k * n :: u64) = k * uint n"
    using uint_mult_small [of "word_of_int k :: u64" n] uk by simp
  have "sint ((word_of_int k * n :: u64) div 1000) = k * uint n div 1000"
    using small prod by (subst sint_small_u64) (simp_all add: uint_div)
  with k show ?thesis by (simp add: GetFee_def k_def Let_def)
qed

theorem GetFee_paid_exact_witness:
  "GetFee (CFeeRate_paid 300 250) 2000 = 2400"
  using GetFee_paid_exact [of 2000 300 250] by (simp add: CFeeRate_paid_def MAX_BLOCK_SIZE_def)

end
