(* ===== verification/Consensus.thy ===== *)
theory Consensus
  imports Amount
begin

text \<open>
  Consensus parameters and network upgrades (\<open>consensus/params.h\<close>, \<open>consensus/upgrades.cpp\<close>,
  the parameter tables of \<open>chainparams.cpp\<close>) and the block subsidy of \<open>main.cpp\<close>.

  The array \<open>vUpgrades\<close>, indexed by the enumeration, is a function on its constructors; the
  loops over the indices run over \<open>upgrade_indices\<close>. Fields that no modelled function reads
  are left out of the record.
\<close>

section \<open>Parameters\<close>

datatype ChainNetwork = MAIN | TESTNET | REGTEST | DEVNET

datatype UpgradeIndex =
    BASE_SPROUT
  | UPGRADE_TESTDUMMY
  | UPGRADE_OVERWINTER
  | UPGRADE_SAPLING
  | UPGRADE_CEZANNE
  | UPGRADE_MONET
  | UPGRADE_VERMEER
  | UPGRADE_MATISSE

primrec to_integral_type :: "UpgradeIndex \<Rightarrow> nat" where
  "to_integral_type BASE_SPROUT = 0"
| "to_integral_type UPGRADE_TESTDUMMY = 1"
| "to_integral_type UPGRADE_OVERWINTER = 2"
| "to_integral_type UPGRADE_SAPLING = 3"
| "to_integral_type UPGRADE_CEZANNE = 4"
| "to_integral_type UPGRADE_MONET = 5"
| "to_integral_type UPGRADE_VERMEER = 6"
| "to_integral_type UPGRADE_MATISSE = 7"

definition upgrade_indices :: "UpgradeIndex list" where
  "upgrade_indices = [BASE_SPROUT, UPGRADE_TESTDUMMY, UPGRADE_OVERWINTER, UPGRADE_SAPLING,
     UPGRADE_CEZANNE, UPGRADE_MONET, UPGRADE_VERMEER, UPGRADE_MATISSE]"

record NetworkUpgrade =
  nProtocolVersion :: int
  nActivationHeight :: u32

definition ALWAYS_ACTIVE :: u32 where "ALWAYS_ACTIVE = 0"

definition NO_ACTIVATION_HEIGHT :: u32 where "NO_ACTIVATION_HEIGHT = UINT32_MAX"

record Params =
  nSubsidyHalvingInterval :: int
  vUpgrades :: "UpgradeIndex \<Rightarrow> NetworkUpgrade"
  powLimit :: uint256
  nPowAllowMinDifficultyBlocksAfterHeight :: "u32 option"
  nPowSetMinDifficultyAfterHeight :: "u32 option"
  nPowAveragingWindow :: int
  nPowMaxAdjustDown :: int
  nPowMaxAdjustUp :: int
  nPowTargetSpacing :: int
  nMaxGovernanceAmount :: CAmount
  network :: ChainNetwork

text \<open>
  Division of \<open>int64_t\<close> truncates towards zero.
\<close>

definition c_div :: "int \<Rightarrow> int \<Rightarrow> int" where
  "c_div a b = sgn a * sgn b * (\<bar>a\<bar> div \<bar>b\<bar>)"

definition AveragingWindowTimespan :: "Params \<Rightarrow> int" where
  "AveragingWindowTimespan p = nPowAveragingWindow p * nPowTargetSpacing p"

definition MinActualTimespan :: "Params \<Rightarrow> int" where
  "MinActualTimespan p = c_div (AveragingWindowTimespan p * (100 - nPowMaxAdjustUp p)) 100"

definition MaxActualTimespan :: "Params \<Rightarrow> int" where
  "MaxActualTimespan p = c_div (AveragingWindowTimespan p * (100 + nPowMaxAdjustDown p)) 100"

definition AddNetworkUpgrade :: "UpgradeIndex \<Rightarrow> int \<Rightarrow> u32 \<Rightarrow> Params \<Rightarrow> Params" where
  "AddNetworkUpgrade idx nVersion nHeight p =
     p\<lparr>vUpgrades := (vUpgrades p)(idx := \<lparr>nProtocolVersion = nVersion, nActivationHeight = nHeight\<rparr>)\<rparr>"

definition UpdateNetworkUpgradeParameters :: "UpgradeIndex \<Rightarrow> u32 \<Rightarrow> Params \<Rightarrow> Params" where
  "UpdateNetworkUpgradeParameters idx nHeight p =
     (if network p = REGTEST
      then p\<lparr>vUpgrades := (vUpgrades p)(idx := (vUpgrades p idx)\<lparr>nActivationHeight := nHeight\<rparr>)\<rparr>
      else p)"

definition GetNetworkUpgradeActivationHeight :: "Params \<Rightarrow> UpgradeIndex \<Rightarrow> u32" where
  "GetNetworkUpgradeActivationHeight p idx = nActivationHeight (vUpgrades p idx)"

definition IsRegTest :: "Params \<Rightarrow> bool" where
  "IsRegTest p \<longleftrightarrow> network p = REGTEST"

section \<open>The parameter tables\<close>

definition no_upgrades :: "UpgradeIndex \<Rightarrow> NetworkUpgrade" where
  "no_upgrades = (\<lambda>_. \<lparr>nProtocolVersion = 0, nActivationHeight = 0\<rparr>)"

definition MainParams :: Params where
  "MainParams =
     (AddNetworkUpgrade UPGRADE_MATISSE 170012 683300 \<circ>
      AddNetworkUpgrade UPGRADE_VERMEER 170011 649000 \<circ>
      AddNetworkUpgrade UPGRADE_MONET 170010 575000 \<circ>
      AddNetworkUpgrade UPGRADE_CEZANNE 170009 337800 \<circ>
      AddNetworkUpgrade UPGRADE_SAPLING 170007 20 \<circ>
      AddNetworkUpgrade UPGRADE_OVERWINTER 170005 10 \<circ>
      AddNetworkUpgrade UPGRADE_TESTDUMMY 170002 NO_ACTIVATION_HEIGHT \<circ>
      AddNetworkUpgrade BASE_SPROUT 170002 ALWAYS_ACTIVE)
     \<lparr>nSubsidyHalvingInterval = 840000,
      vUpgrades = no_upgrades,
      powLimit = 0x0007ffffffffffffffffffffffffffffffffffffffffffffffffffffffffffff,
      nPowAllowMinDifficultyBlocksAfterHeight = None,
      nPowSetMinDifficultyAfterHeight = Some (649000 - 1),
      nPowAveragingWindow = 17,
      nPowMaxAdjustDown = 32,
      nPowMaxAdjustUp = 16,
      nPowTargetSpacing = 150,
      nMaxGovernanceAmount = 100000000 * COIN,
      network = MAIN\<rparr>"

definition TestNetParams :: Params where
  "TestNetParams =
     (AddNetworkUpgrade UPGRADE_MATISSE 170012 427000 \<circ>
      AddNetworkUpgrade UPGRADE_VERMEER 170011 426000 \<circ>
      AddNetworkUpgrade UPGRADE_MONET 170010 370000 \<circ>
      AddNetworkUpgrade UPGRADE_CEZANNE 170009 158530 \<circ>
      AddNetworkUpgrade UPGRADE_SAPLING 170007 20 \<circ>
      AddNetworkUpgrade UPGRADE_OVERWINTER 170005 10 \<circ>
      AddNetworkUpgrade UPGRADE_TESTDUMMY 170002 NO_ACTIVATION_HEIGHT \<circ>
      AddNetworkUpgrade BASE_SPROUT 170002 ALWAYS_ACTIVE)
     \<lparr>nSubsidyHalvingInterval = 840000,
      vUpgrades = no_upgrades,
      powLimit = 0x07ffffffffffffffffffffffffffffffffffffffffffffffffffffffffffffff,
      nPowAllowMinDifficultyBlocksAfterHeight = Some 299187,
      nPowSetMinDifficultyAfterHeight = None,
      nPowAveragingWindow = 17,
      nPowMaxAdjustDown = 32,
      nPowMaxAdjustUp = 16,
      nPowTargetSpacing = 150,
      nMaxGovernanceAmount = 1000000 * COIN,
      network = TESTNET\<rparr>"

definition DevNetParams :: Params where
  "DevNetParams =
     (AddNetworkUpgrade UPGRADE_MATISSE 170012 62000 \<circ>
      AddNetworkUpgrade UPGRADE_VERMEER 170011 28930 \<circ>
      AddNetworkUpgrade UPGRADE_MONET 170010 40 \<circ>
      AddNetworkUpgrade UPGRADE_CEZANNE 170009 30 \<circ>
      AddNetworkUpgrade UPGRADE_SAPLING 170007 20 \<circ>
      AddNetworkUpgrade UPGRADE_OVERWINTER 170005 10 \<circ>
      AddNetworkUpgrade UPGRADE_TESTDUMMY 170002 NO_ACTIVATION_HEIGHT \<circ>
      AddNetworkUpgrade BASE_SPROUT 170002 ALWAYS_ACTIVE)
     \<lparr>nSubsidyHalvingInterval = 840000,
      vUpgrades = no_upgrades,
      powLimit = 0x07ffffffffffffffffffffffffffffffffffffffffffffffffffffffffffffff,
      nPowAllowMinDifficultyBlocksAfterHeight = None,
      nPowSetMinDifficultyAfterHeight = Some (28930 - 1),
      nPowAveragingWindow = 17,
      nPowMaxAdjustDown = 32,
      nPowMaxAdjustUp = 16,
      nPowTargetSpacing = 150,
      nMaxGovernanceAmount = 1000000 * COIN,
      network = DEVNET\<rparr>"

definition RegTestParams :: Params where
  "RegTestParams =
     (AddNetworkUpgrade UPGRADE_MATISSE 170012 NO_ACTIVATION_HEIGHT \<circ>
      AddNetworkUpgrade UPGRADE_VERMEER 170011 NO_ACTIVATION_HEIGHT \<circ>
      AddNetworkUpgrade UPGRADE_MONET 170010 NO_ACTIVATION_HEIGHT \<circ>
      AddNetworkUpgrade UPGRADE_CEZANNE 170009 NO_ACTIVATION_HEIGHT \<circ>
      AddNetworkUpgrade UPGRADE_SAPLING 170008 NO_ACTIVATION_HEIGHT \<circ>
      AddNetworkUpgrade UPGRADE_OVERWINTER 170003 NO_ACTIVATION_HEIGHT \<circ>
      AddNetworkUpgrade UPGRADE_TESTDUMMY 170002 NO_ACTIVATION_HEIGHT \<circ>
      AddNetworkUpgrade BASE_SPROUT 170002 ALWAYS_ACTIVE)
     \<lparr>nSubsidyHalvingInterval = 150,
      vUpgrades = no_upgrades,
      powLimit = 0x0f0f0f0f0f0f0f0f0f0f0f0f0f0f0f0f0f0f0f0f0f0f0f0f0f0f0f0f0f0f0f0f,
      nPowAllowMinDifficultyBlocksAfterHeight = Some 0,
      nPowSetMinDifficultyAfterHeight = None,
      nPowAveragingWindow = 17,
      nPowMaxAdjustDown = 0,
      nPowMaxAdjustUp = 0,
      nPowTargetSpacing = 150,
      nMaxGovernanceAmount = 1000000 * COIN,
      network = REGTEST\<rparr>"

section \<open>Network upgrades\<close>

datatype UpgradeState = UPGRADE_DISABLED | UPGRADE_PENDING | UPGRADE_ACTIVE

text \<open>The table \<open>NetworkUpgradeInfo\<close>: branch id and name of every upgrade.\<close>

primrec NetworkUpgradeInfo :: "UpgradeIndex \<Rightarrow> u32 \<times> string" where
  "NetworkUpgradeInfo BASE_SPROUT = (0, ''Sprout'')"
| "NetworkUpgradeInfo UPGRADE_TESTDUMMY = (0x74736554, ''Test dummy'')"
| "NetworkUpgradeInfo UPGRADE_OVERWINTER = (0x5ba81b19, ''Overwinter'')"
| "NetworkUpgradeInfo UPGRADE_SAPLING = (0x76b809bb, ''Sapling'')"
| "NetworkUpgradeInfo UPGRADE_CEZANNE = (0x26ab2455, ''Cezanne'')"
| "NetworkUpgradeInfo UPGRADE_MONET = (0x017014e2, ''Monet'')"
| "NetworkUpgradeInfo UPGRADE_VERMEER = (0x5EFAAEEF, ''Vermeer'')"
| "NetworkUpgradeInfo UPGRADE_MATISSE = (0x5EFAAEEF, ''Matisse'')"

definition GetUpgradeBranchId :: "UpgradeIndex \<Rightarrow> u32" where
  "GetUpgradeBranchId idx = fst (NetworkUpgradeInfo idx)"

definition SPROUT_BRANCH_ID :: u32 where
  "SPROUT_BRANCH_ID = GetUpgradeBranchId BASE_SPROUT"

definition NetworkUpgradeState :: "u32 \<Rightarrow> Params \<Rightarrow> UpgradeIndex \<Rightarrow> UpgradeState" where
  "NetworkUpgradeState nHeight params idx =
     (let nActivation = nActivationHeight (vUpgrades params idx)
      in if nActivation = NO_ACTIVATION_HEIGHT then UPGRADE_DISABLED
         else if nHeight \<ge> nActivation then UPGRADE_ACTIVE
         else UPGRADE_PENDING)"

definition NetworkUpgradeActive :: "u32 \<Rightarrow> Params \<Rightarrow> UpgradeIndex \<Rightarrow> bool" where
  "NetworkUpgradeActive nHeight params idx \<longleftrightarrow> NetworkUpgradeState nHeight params idx = UPGRADE_ACTIVE"

fun last_active :: "u32 \<Rightarrow> Params \<Rightarrow> UpgradeIndex list \<Rightarrow> UpgradeIndex" where
  "last_active nHeight params [] = BASE_SPROUT"
| "last_active nHeight params (idx # ids) =
     (if NetworkUpgradeActive nHeight params idx then idx else last_active nHeight params ids)"

definition CurrentEpochIndex :: "u32 \<Rightarrow> Params \<Rightarrow> UpgradeIndex" where
  "CurrentEpochIndex nHeight params = last_active nHeight params (rev upgrade_indices)"

definition CurrentEpoch :: "u32 \<Rightarrow> Params \<Rightarrow> nat" where
  "CurrentEpoch nHeight params = to_integral_type (CurrentEpochIndex nHeight params)"

definition CurrentEpochBranchId :: "u32 \<Rightarrow> Params \<Rightarrow> u32" where
  "CurrentEpochBranchId nHeight params = fst (NetworkUpgradeInfo (CurrentEpochIndex nHeight params))"

fun branch_id_in :: "u32 \<Rightarrow> UpgradeIndex list \<Rightarrow> bool" where
  "branch_id_in branchId [] = False"
| "branch_id_in branchId (idx # ids) =
     (if branchId = fst (NetworkUpgradeInfo idx) then True else branch_id_in branchId ids)"

definition IsConsensusBranchId :: "u32 \<Rightarrow> bool" where
  "IsConsensusBranchId branchId = branch_id_in branchId upgrade_indices"

definition IsActivationHeight :: "u32 \<Rightarrow> Params \<Rightarrow> UpgradeIndex \<Rightarrow> bool" where
  "IsActivationHeight nHeight params idx =
     (if idx = BASE_SPROUT then False
      else nHeight \<noteq> NO_ACTIVATION_HEIGHT \<and> nHeight = nActivationHeight (vUpgrades params idx))"

fun activation_in :: "u32 \<Rightarrow> Params \<Rightarrow> UpgradeIndex list \<Rightarrow> bool" where
  "activation_in nHeight params [] = False"
| "activation_in nHeight params (idx # ids) =
     (if nHeight = nActivationHeight (vUpgrades params idx) then True
      else activation_in nHeight params ids)"

definition IsActivationHeightForAnyUpgrade :: "u32 \<Rightarrow> Params \<Rightarrow> bool" where
  "IsActivationHeightForAnyUpgrade nHeight params =
     (if nHeight = NO_ACTIVATION_HEIGHT then False
      else activation_in nHeight params (tl upgrade_indices))"

fun first_pending :: "u32 \<Rightarrow> Params \<Rightarrow> UpgradeIndex list \<Rightarrow> UpgradeIndex option" where
  "first_pending nHeight params [] = None"
| "first_pending nHeight params (idx # ids) =
     (if NetworkUpgradeState nHeight params idx = UPGRADE_PENDING then Some idx
      else first_pending nHeight params ids)"

definition NextEpoch :: "u32 \<Rightarrow> Params \<Rightarrow> UpgradeIndex option" where
  "NextEpoch nHeight params =
     (if nHeight = NO_ACTIVATION_HEIGHT then None
      else first_pending nHeight params (tl upgrade_indices))"

definition NextActivationHeight :: "u32 \<Rightarrow> Params \<Rightarrow> u32 option" where
  "NextActivationHeight nHeight params =
     (case NextEpoch nHeight params of
        Some idx \<Rightarrow> Some (nActivationHeight (vUpgrades params idx))
      | None \<Rightarrow> None)"

section \<open>Block subsidy\<close>

text \<open>
  The comparisons with the ingest heights are unsigned: a negative \<open>int\<close> height would convert
  to a large value. Heights of blocks are never negative.
\<close>

definition INGEST_MINING_BLOCK :: u32 where "INGEST_MINING_BLOCK = 1"

definition TOP_INGEST_BLOCK :: u32 where "TOP_INGEST_BLOCK = INGEST_MINING_BLOCK + 1000"

definition INGEST_WAITING_AMOUNT :: CAmount where "INGEST_WAITING_AMOUNT = 1 * COIN"

definition INGEST_MULTIPLIER :: CAmount where "INGEST_MULTIPLIER = 95"

definition INGEST_MINING_AMOUNT :: CAmount where
  "INGEST_MINING_AMOUNT =
     (9888920 * INGEST_MULTIPLIER + 103271000 * INGEST_MULTIPLIER + 5000 + 12000000) * COIN"

definition GetBlockSubsidy :: "int \<Rightarrow> Params \<Rightarrow> CAmount" where
  "GetBlockSubsidy nHeight params =
     (if \<not> IsRegTest params \<and> word_of_int nHeight = INGEST_MINING_BLOCK then INGEST_MINING_AMOUNT
      else if \<not> IsRegTest params \<and> word_of_int nHeight < TOP_INGEST_BLOCK then INGEST_WAITING_AMOUNT
      else (let nSubsidy = REWARD * COIN;
                halvings = c_div nHeight (nSubsidyHalvingInterval params)
            in if halvings \<ge> 64 then 0 else drop_bit (nat halvings) nSubsidy))"

section \<open>Facts on upgrades\<close>

lemma to_integral_type_inj: "to_integral_type i = to_integral_type j \<Longrightarrow> i = j"
  by (cases i; cases j) simp_all

lemma NetworkUpgradeActive_iff:
  "NetworkUpgradeActive h p i \<longleftrightarrow>
     nActivationHeight (vUpgrades p i) \<noteq> NO_ACTIVATION_HEIGHT \<and> nActivationHeight (vUpgrades p i) \<le> h"
  by (simp add: NetworkUpgradeActive_def NetworkUpgradeState_def Let_def)

lemma NetworkUpgradeState_pending_iff:
  "NetworkUpgradeState h p i = UPGRADE_PENDING \<longleftrightarrow>
     nActivationHeight (vUpgrades p i) \<noteq> NO_ACTIVATION_HEIGHT \<and> h < nActivationHeight (vUpgrades p i)"
  by (auto simp: NetworkUpgradeState_def Let_def not_le)

lemma NetworkUpgradeActive_mono:
  "NetworkUpgradeActive h p i \<Longrightarrow> h \<le> h' \<Longrightarrow> NetworkUpgradeActive h' p i"
  by (auto simp: NetworkUpgradeActive_iff)

lemma last_active_or_base:
  "last_active h p ids = BASE_SPROUT \<or> NetworkUpgradeActive h p (last_active h p ids)"
  by (induction ids) auto

lemma CurrentEpoch_ge: "NetworkUpgradeActive h p i \<Longrightarrow> to_integral_type i \<le> CurrentEpoch h p"
  by (cases i) (auto simp: CurrentEpoch_def CurrentEpochIndex_def upgrade_indices_def)

lemma CurrentEpoch_active:
  "0 < CurrentEpoch h p \<Longrightarrow> NetworkUpgradeActive h p (CurrentEpochIndex h p)"
  using last_active_or_base [of h p "rev upgrade_indices"]
  by (auto simp: CurrentEpoch_def CurrentEpochIndex_def)

lemma first_pending_Some:
  "first_pending h p ids = Some i \<Longrightarrow>
     i \<in> set ids \<and> NetworkUpgradeState h p i = UPGRADE_PENDING"
  by (induction ids) (auto split: if_splits)

lemma NextEpoch_Some:
  assumes "NextEpoch h p = Some i"
  shows "0 < to_integral_type i \<and> NetworkUpgradeState h p i = UPGRADE_PENDING"
proof -
  from assms have "first_pending h p (tl upgrade_indices) = Some i"
    by (simp add: NextEpoch_def split: if_splits)
  from first_pending_Some [OF this] show ?thesis
    by (auto simp: upgrade_indices_def)
qed

lemma NextEpoch_least:
  assumes "NextEpoch h p = Some i" and "NetworkUpgradeState h p j = UPGRADE_PENDING"
    and "0 < to_integral_type j"
  shows "to_integral_type i \<le> to_integral_type j"
  using assms by (cases j) (auto simp: NextEpoch_def upgrade_indices_def split: if_splits)

text \<open>
  \<open>upgrades_ordered\<close> is the rule stated with the enumeration: the order of the indices matches
  the order of the upgrades on-chain (disabled upgrades apart).
\<close>

definition upgrades_ordered :: "Params \<Rightarrow> bool" where
  "upgrades_ordered p \<longleftrightarrow>
     (\<forall>i \<in> set upgrade_indices. \<forall>j \<in> set upgrade_indices.
        to_integral_type i \<le> to_integral_type j \<longrightarrow>
        nActivationHeight (vUpgrades p i) \<noteq> NO_ACTIVATION_HEIGHT \<longrightarrow>
        nActivationHeight (vUpgrades p j) \<noteq> NO_ACTIVATION_HEIGHT \<longrightarrow>
        nActivationHeight (vUpgrades p i) \<le> nActivationHeight (vUpgrades p j))"

lemma in_upgrade_indices [simp]: "i \<in> set upgrade_indices"
  by (cases i) (simp_all add: upgrade_indices_def)

lemma upgrades_orderedD:
  "upgrades_ordered p \<Longrightarrow> to_integral_type i \<le> to_integral_type j \<Longrightarrow>
   nActivationHeight (vUpgrades p i) \<noteq> NO_ACTIVATION_HEIGHT \<Longrightarrow>
   nActivationHeight (vUpgrades p j) \<noteq> NO_ACTIVATION_HEIGHT \<Longrightarrow>
   nActivationHeight (vUpgrades p i) \<le> nActivationHeight (vUpgrades p j)"
  by (simp add: upgrades_ordered_def)

lemmas network_tables = MainParams_def TestNetParams_def DevNetParams_def RegTestParams_def
  AddNetworkUpgrade_def NO_ACTIVATION_HEIGHT_def ALWAYS_ACTIVE_def no_upgrades_def

lemma MainParams_ordered: "upgrades_ordered MainParams"
  by (simp add: upgrades_ordered_def upgrade_indices_def network_tables)

lemma TestNetParams_ordered: "upgrades_ordered TestNetParams"
  by (simp add: upgrades_ordered_def upgrade_indices_def network_tables)

lemma DevNetParams_ordered: "upgrades_ordered DevNetParams"
  by (simp add: upgrades_ordered_def upgrade_indices_def network_tables)

lemma active_until_next:
  assumes "upgrades_ordered p" and "NextEpoch h p = Some i"
    and "h' < nActivationHeight (vUpgrades p i)"
    and "NetworkUpgradeActive h' p j" and "0 < to_integral_type j"
  shows "NetworkUpgradeActive h p j"
proof (rule ccontr)
  assume "\<not> NetworkUpgradeActive h p j"
  with assms(4) have pend: "NetworkUpgradeState h p j = UPGRADE_PENDING"
    by (auto simp: NetworkUpgradeActive_iff NetworkUpgradeState_pending_iff)
  with NextEpoch_least [OF assms(2)] assms(5) have "to_integral_type i \<le> to_integral_type j"
    by blast
  moreover have "NetworkUpgradeState h p i = UPGRADE_PENDING"
    using NextEpoch_Some [OF assms(2)] by blast
  ultimately have "nActivationHeight (vUpgrades p i) \<le> nActivationHeight (vUpgrades p j)"
    using pend assms(1) by (auto simp: NetworkUpgradeState_pending_iff intro: upgrades_orderedD)
  with assms(3,4) show False by (auto simp: NetworkUpgradeActive_iff)
qed

lemma CurrentEpoch_mono_height: "h \<le> h' \<Longrightarrow> CurrentEpoch h p \<le> CurrentEpoch h' p"
proof (cases "0 < CurrentEpoch h p")
  case True
  assume "h \<le> h'"
  with CurrentEpoch_active [OF True] have "NetworkUpgradeActive h' p (CurrentEpochIndex h p)"
    by (rule NetworkUpgradeActive_mono)
  from CurrentEpoch_ge [OF this] show ?thesis by (simp add: CurrentEpoch_def)
qed simp

lemma CurrentEpoch_until_next:
  assumes "upgrades_ordered p" and "NextEpoch h p = Some i"
    and "h \<le> h'" and "h' < nActivationHeight (vUpgrades p i)"
  shows "CurrentEpoch h' p = CurrentEpoch h p"
proof (rule antisym)
  show "CurrentEpoch h' p \<le> CurrentEpoch h p"
  proof (cases "0 < CurrentEpoch h' p")
    case True
    from active_until_next [OF assms(1,2,4) CurrentEpoch_active [OF True]] True
    have "NetworkUpgradeActive h p (CurrentEpochIndex h' p)"
      by (simp add: CurrentEpoch_def)
    from CurrentEpoch_ge [OF this] show ?thesis by (simp add: CurrentEpoch_def)
  qed simp
  show "CurrentEpoch h p \<le> CurrentEpoch h' p"
    using assms(3) by (rule CurrentEpoch_mono_height)
qed

lemma CurrentEpoch_before_next:
  assumes "upgrades_ordered p" and "NextEpoch h p = Some i"
  shows "CurrentEpoch h p < to_integral_type i"
proof (rule ccontr)
  assume neg: "\<not> CurrentEpoch h p < to_integral_type i"
  have i: "0 < to_integral_type i" "NetworkUpgradeState h p i = UPGRADE_PENDING"
    using NextEpoch_Some [OF assms(2)] by auto
  with neg have "NetworkUpgradeActive h p (CurrentEpochIndex h p)"
    by (intro CurrentEpoch_active) simp
  moreover have "to_integral_type i \<le> to_integral_type (CurrentEpochIndex h p)"
    using neg by (simp add: CurrentEpoch_def)
  ultimately have "nActivationHeight (vUpgrades p i) \<le> h"
    using i upgrades_orderedD [OF assms(1), of i "CurrentEpochIndex h p"]
    by (auto simp: NetworkUpgradeActive_iff NetworkUpgradeState_pending_iff)
  with i show False by (auto simp: NetworkUpgradeState_pending_iff)
qed

section \<open>Properties\<close>

text \<open>
  C31. For a chain whose upgrades are listed in activation order, the height returned by
  \<open>NextActivationHeight\<close> is the next epoch boundary: it lies ahead, the epoch does not change
  before it, and at that height a strictly later epoch begins.
\<close>

theorem NextActivationHeight_boundary:
  assumes "upgrades_ordered p" and "NextActivationHeight h p = Some n"
  shows "h < n \<and> CurrentEpoch h p < CurrentEpoch n p \<and>
         (\<forall>h'. h \<le> h' \<and> h' < n \<longrightarrow> CurrentEpoch h' p = CurrentEpoch h p)"
proof -
  from assms(2) obtain i where i: "NextEpoch h p = Some i" "n = nActivationHeight (vUpgrades p i)"
    by (auto simp: NextActivationHeight_def split: option.splits)
  have pend: "n \<noteq> NO_ACTIVATION_HEIGHT" "h < n"
    using NextEpoch_Some [OF i(1)] i(2) by (auto simp: NetworkUpgradeState_pending_iff)
  then have "NetworkUpgradeActive n p i"
    using i(2) by (simp add: NetworkUpgradeActive_iff)
  then have "to_integral_type i \<le> CurrentEpoch n p" by (rule CurrentEpoch_ge)
  with CurrentEpoch_before_next [OF assms(1) i(1)] have "CurrentEpoch h p < CurrentEpoch n p"
    by (rule less_le_trans)
  moreover have "CurrentEpoch h' p = CurrentEpoch h p" if "h \<le> h'" "h' < n" for h'
    using CurrentEpoch_until_next [OF assms(1) i(1) that(1)] that(2) i(2) by blast
  ultimately show ?thesis using pend by blast
qed

theorem NextActivationHeight_boundary_witness:
  "CurrentEpoch 600000 MainParams < CurrentEpoch 649000 MainParams"
proof -
  have "NextActivationHeight 600000 MainParams = Some 649000"
    by (simp add: NextActivationHeight_def NextEpoch_def upgrade_indices_def
        NetworkUpgradeState_def network_tables)
  from NextActivationHeight_boundary [OF MainParams_ordered this] show ?thesis by blast
qed

text \<open>
  C32. The epoch in force at a height is the latest upgrade that is active there: it is active
  itself (or the base epoch), no later upgrade is active, and it never moves backwards as the
  height grows. Sprout, the base epoch, is the only one a chain can be in with no upgrade active.
\<close>

theorem CurrentEpoch_latest:
  "(CurrentEpochIndex h p = BASE_SPROUT \<or> NetworkUpgradeActive h p (CurrentEpochIndex h p)) \<and>
   (\<forall>i. to_integral_type (CurrentEpochIndex h p) < to_integral_type i \<longrightarrow> \<not> NetworkUpgradeActive h p i) \<and>
   (\<forall>h'. h \<le> h' \<longrightarrow> CurrentEpoch h p \<le> CurrentEpoch h' p)"
proof (intro conjI allI impI)
  show "CurrentEpochIndex h p = BASE_SPROUT \<or> NetworkUpgradeActive h p (CurrentEpochIndex h p)"
    unfolding CurrentEpochIndex_def by (rule last_active_or_base)
  show "\<not> NetworkUpgradeActive h p i"
    if "to_integral_type (CurrentEpochIndex h p) < to_integral_type i" for i
    using that CurrentEpoch_ge [of h p i] by (auto simp: CurrentEpoch_def)
  show "CurrentEpoch h p \<le> CurrentEpoch h' p" if "h \<le> h'" for h'
    using that by (rule CurrentEpoch_mono_height)
qed

theorem CurrentEpoch_latest_witness:
  "\<not> NetworkUpgradeActive 640000 MainParams UPGRADE_VERMEER"
proof -
  have "to_integral_type (CurrentEpochIndex 640000 MainParams) < to_integral_type UPGRADE_VERMEER"
    by (simp add: CurrentEpochIndex_def upgrade_indices_def NetworkUpgradeActive_iff network_tables)
  with CurrentEpoch_latest [of 640000 MainParams] show ?thesis by blast
qed

text \<open>
  The consensus branch id identifies the upgrade in force, with one exception: Vermeer
  and Matisse carry the same id, so a signature made under the one is valid under the other.
\<close>

lemma branch_id_collision:
  "GetUpgradeBranchId i = GetUpgradeBranchId j \<longleftrightarrow>
     i = j \<or> {i, j} = {UPGRADE_VERMEER, UPGRADE_MATISSE}"
  by (cases i; cases j) (simp_all add: GetUpgradeBranchId_def doubleton_eq_iff)

section \<open>The subsidy schedule\<close>

lemmas ingest_defs = INGEST_MINING_BLOCK_def TOP_INGEST_BLOCK_def INGEST_WAITING_AMOUNT_def
  INGEST_MULTIPLIER_def INGEST_MINING_AMOUNT_def COIN_def REWARD_def

lemma c_div_nat: "0 < b \<Longrightarrow> c_div (int a) (int b) = int (a div b)"
  by (cases "a = 0") (simp_all add: c_div_def zdiv_int)

lemma GetBlockSubsidy_main:
  assumes "h < 2 ^ 32"
  shows "GetBlockSubsidy (int h) MainParams =
    (if h = 1 then INGEST_MINING_AMOUNT
     else if h < 1001 then COIN
     else if h div 840000 \<ge> 64 then 0 else drop_bit (h div 840000) (REWARD * COIN))"
proof -
  have eq: "(of_nat h :: u32) = 1 \<longleftrightarrow> h = 1" and less: "(of_nat h :: u32) < 1001 \<longleftrightarrow> h < 1001"
    using of_nat_u32_eq [OF assms, of 1] of_nat_u32_less [OF assms, of 1001] by simp_all
  have "c_div (int h) 840000 = int (h div 840000)"
    using c_div_nat [of 840000 h] by simp
  with eq less show ?thesis
    by (simp add: GetBlockSubsidy_def IsRegTest_def MainParams_def AddNetworkUpgrade_def
        INGEST_MINING_BLOCK_def TOP_INGEST_BLOCK_def INGEST_WAITING_AMOUNT_def)
qed

lemma halving_sum:
  fixes k n :: nat and r :: int
  assumes "0 < k"
  shows "(\<Sum>h<n * k. drop_bit (h div k) r) = (\<Sum>e<n. int k * drop_bit e r)"
proof -
  have "(\<Sum>h<n * k. drop_bit (h div k) r) = (\<Sum>e<n. \<Sum>h = e * k..<e * k + k. drop_bit (h div k) r)"
    by (rule sum.nat_group [symmetric])
  also have "\<dots> = (\<Sum>e<n. \<Sum>h = e * k..<e * k + k. drop_bit e r)"
  proof (intro sum.cong refl)
    fix e h assume "h \<in> {e * k..<e * k + k}"
    then have "h div k = e"
      using assms by (intro div_nat_eqI) (auto simp: algebra_simps)
    then show "drop_bit (h div k) r = drop_bit e r" by simp
  qed
  finally show ?thesis by simp
qed

lemma main_epochs_sum:
  "(\<Sum>e<(64::nat). int 840000 * drop_bit e (REWARD * COIN)) = 1049999990760000"
  by (simp add: REWARD_def COIN_def lessThan_nat_numeral lessThan_Suc drop_bit_eq_div)

lemma main_subsidies_sum: "(\<Sum>h<53760000. GetBlockSubsidy (int h) MainParams) = 2125594205760000"
proof -
  let ?s = "\<lambda>h. GetBlockSubsidy (int h) MainParams"
  let ?b = "\<lambda>h::nat. drop_bit (h div 840000) (REWARD * COIN)"
  have split: "(\<Sum>h<53760000. f h) = (\<Sum>h<1001. f h) + (\<Sum>h = 1001..<53760000. f h)"
    for f :: "nat \<Rightarrow> int"
    by (rule sum.atLeastLessThan_concat [of 0 1001 53760000 f, symmetric, unfolded atLeast0LessThan]) simp_all
  have late: "(\<Sum>h = 1001..<53760000. ?s h) = (\<Sum>h = 1001..<53760000. ?b h)"
    by (intro sum.cong refl) (auto simp: GetBlockSubsidy_main div_less_iff_less_mult)
  have "(\<Sum>h<1001. ?s h) = (\<Sum>h\<in>{..<1001} - {1}. ?s h) + ?s 1"
    by (subst sum.remove [of _ 1]) simp_all
  also have "(\<Sum>h\<in>{..<1001} - {1}. ?s h) = (\<Sum>h\<in>{..<1001::nat} - {1}. COIN)"
    by (intro sum.cong refl) (auto simp: GetBlockSubsidy_main)
  also have "\<dots> = 1000 * COIN" by simp
  also have "?s 1 = INGEST_MINING_AMOUNT" using GetBlockSubsidy_main [of 1] by simp
  finally have early: "(\<Sum>h<1001. ?s h) = 1000 * COIN + INGEST_MINING_AMOUNT" .
  have "(\<Sum>h<1001. ?b h) = (\<Sum>h<(1001::nat). REWARD * COIN)"
    by (intro sum.cong refl) simp
  then have b1001: "(\<Sum>h<1001. ?b h) = 1001 * (REWARD * COIN)" by simp
  have "(\<Sum>h<53760000. ?b h) = 1049999990760000"
    using halving_sum [where k = 840000 and n = 64 and r = "REWARD * COIN"] main_epochs_sum by simp
  with split [of ?s] split [of ?b] late early b1001
  show "(\<Sum>h<53760000. ?s h) = 2125594205760000"
    by (simp add: ingest_defs)
qed

lemma main_subsidy_late: "h \<in> {53760000..<2 ^ 32} \<Longrightarrow> GetBlockSubsidy (int h) MainParams = 0"
  using div_le_mono [of 53760000 h 840000] by (auto simp: GetBlockSubsidy_main)

lemma main_subsidies_bound:
  assumes "n < 2 ^ 31"
  shows "(\<Sum>h = 1..n. GetBlockSubsidy (int h) MainParams) \<le> 2125594205760000"
proof -
  let ?s = "\<lambda>h. GetBlockSubsidy (int h) MainParams"
  have "(\<Sum>h = 1..n. ?s h) = (\<Sum>h\<in>{1..n} \<inter> {..<53760000}. ?s h)"
  proof (rule sum.mono_neutral_right)
    show "\<forall>h\<in>{1..n} - {1..n} \<inter> {..<53760000}. ?s h = 0" using assms by (intro ballI main_subsidy_late) auto
  qed auto
  also have "\<dots> \<le> (\<Sum>h<53760000. ?s h)"
    by (intro sum_mono2) (use GetBlockSubsidy_main in \<open>auto simp: ingest_defs drop_bit_eq_div intro!: div_int_pos_iff [THEN iffD2]\<close>)
  finally show ?thesis using main_subsidies_sum by simp
qed

text \<open>
  C33. The main network's subsidies over all heights add up to 21,255,942,057.6 coins, none is
  paid from height 53,760,000 on, and the total is more than \<open>MAX_MONEY\<close>.
\<close>

theorem GetBlockSubsidy_total_supply:
  "(\<Sum>h<53760000. GetBlockSubsidy (int h) MainParams) = 2125594205760000 \<and>
   (\<forall>h \<in> {53760000..<2 ^ 32}. GetBlockSubsidy (int h) MainParams = 0) \<and>
   MAX_MONEY < 2125594205760000"
  using main_subsidies_sum main_subsidy_late by (simp add: MAX_MONEY_def COIN_def)

theorem GetBlockSubsidy_total_supply_witness: "GetBlockSubsidy 60000000 MainParams = 0"
proof -
  have "(60000000::nat) \<in> {53760000..<2 ^ 32}" by simp
  with GetBlockSubsidy_total_supply have "GetBlockSubsidy (int 60000000) MainParams = 0" by blast
  then show ?thesis by simp
qed

end
