(* ===== verification/Serialize.thy ===== *)
theory Serialize
  imports Prelude
begin

text \<open>
  The wire format of \<open>utils/serialize.h\<close> and the byte order helpers of
  \<open>crypto/common.h\<close>: fixed-width little- and big-endian integers, the compact size, the
  base-128 variable-length integer, and strings and vectors built from them.

  A stream is the list of bytes still to be read. A reader returns \<^const>\<open>None\<close> where the
  source throws \<open>std::ios_base::failure\<close> (end of data, non-canonical size, size limit),
  and the value with the rest of the stream otherwise. The interface every serializable
  type offers is the locale \<open>codec\<close>; its lemmas are used through the interpretations on
  the definitions below.
\<close>

section \<open>Byte order\<close>

primrec le_bytes :: "nat \<Rightarrow> 'a::len word \<Rightarrow> bytes" where
  "le_bytes 0 x = []"
| "le_bytes (Suc k) x = ucast x # le_bytes k (drop_bit 8 x)"

primrec le_word :: "bytes \<Rightarrow> 'a::len word" where
  "le_word [] = 0"
| "le_word (b # bs) = ucast b OR push_bit 8 (le_word bs)"

definition WriteLE16 :: "u16 \<Rightarrow> bytes" where "WriteLE16 x = le_bytes 2 x"
definition WriteLE32 :: "u32 \<Rightarrow> bytes" where "WriteLE32 x = le_bytes 4 x"
definition WriteLE64 :: "u64 \<Rightarrow> bytes" where "WriteLE64 x = le_bytes 8 x"
definition ReadLE16 :: "bytes \<Rightarrow> u16" where "ReadLE16 p = le_word (take 2 p)"
definition ReadLE32 :: "bytes \<Rightarrow> u32" where "ReadLE32 p = le_word (take 4 p)"
definition ReadLE64 :: "bytes \<Rightarrow> u64" where "ReadLE64 p = le_word (take 8 p)"
definition WriteBE32 :: "u32 \<Rightarrow> bytes" where "WriteBE32 x = rev (le_bytes 4 x)"
definition WriteBE64 :: "u64 \<Rightarrow> bytes" where "WriteBE64 x = rev (le_bytes 8 x)"
definition ReadBE32 :: "bytes \<Rightarrow> u32" where "ReadBE32 p = le_word (rev (take 4 p))"
definition ReadBE64 :: "bytes \<Rightarrow> u64" where "ReadBE64 p = le_word (rev (take 8 p))"

lemmas byte_order_defs =
  WriteLE16_def WriteLE32_def WriteLE64_def ReadLE16_def ReadLE32_def ReadLE64_def
  WriteBE32_def WriteBE64_def ReadBE32_def ReadBE64_def

lemma length_le_bytes [simp]: "length (le_bytes k x) = k"
  by (induction k arbitrary: x) simp_all

lemma le_word_le_bytes: "le_word (le_bytes k x) = take_bit (8 * k) x"
proof (induction k arbitrary: x)
  case (Suc k)
  show ?case
    by (rule bit_word_eqI) (auto simp: Suc.IH bit_simps le_less_Suc_eq)
qed simp

lemma le_word_le_bytes_full [simp]:
  "LENGTH('a) \<le> 8 * k \<Longrightarrow> le_word (le_bytes k x) = (x :: 'a::len word)"
  by (simp add: le_word_le_bytes take_bit_word_eq_self)

lemma bit_le_word: "bit (le_word bs :: 'a::len word) n \<Longrightarrow> n < 8 * length bs"
proof (induction bs arbitrary: n)
  case (Cons b bs)
  from Cons.prems Cons.IH [of "n - 8"] show ?case
    by (auto simp: bit_simps dest: bit_imp_le_length)
qed simp

lemma le_word_Cons_parts:
  assumes "8 * length (b # bs) \<le> LENGTH('a)"
  shows "ucast (le_word (b # bs) :: 'a::len word) = b"
    and "drop_bit 8 (le_word (b # bs) :: 'a word) = le_word bs"
proof -
  show "ucast (le_word (b # bs) :: 'a word) = b"
    using assms by (intro bit_word_eqI) (auto simp: bit_simps)
  show "drop_bit 8 (le_word (b # bs) :: 'a word) = le_word bs"
    using assms by (intro bit_word_eqI) (auto simp: bit_simps dest: bit_imp_le_length bit_le_word [of bs])
qed

lemma le_bytes_le_word:
  "8 * length bs \<le> LENGTH('a) \<Longrightarrow> le_bytes (length bs) (le_word bs :: 'a::len word) = bs"
proof (induction bs)
  case (Cons b bs)
  then show ?case using le_word_Cons_parts [of b bs, where 'a = 'a]
    by (simp del: le_word.simps)
qed simp

lemma ReadLE_WriteLE [simp]:
  "ReadLE16 (WriteLE16 a @ r) = a" "ReadLE32 (WriteLE32 b @ r) = b" "ReadLE64 (WriteLE64 c @ r) = c"
  by (simp_all add: byte_order_defs)

lemma ReadBE_WriteBE [simp]:
  "ReadBE32 (WriteBE32 b @ r) = b" "ReadBE64 (WriteBE64 c @ r) = c"
  by (simp_all add: byte_order_defs)

lemma length_WriteLE [simp]:
  "length (WriteLE16 a) = 2" "length (WriteLE32 b) = 4" "length (WriteLE64 c) = 8"
  "length (WriteBE32 b) = 4" "length (WriteBE64 c) = 8"
  by (simp_all add: byte_order_defs)

section \<open>Streams\<close>

type_synonym 'a reader = "bytes \<Rightarrow> ('a \<times> bytes) option"

definition stream_read :: "nat \<Rightarrow> bytes reader" where
  "stream_read n s = (if length s < n then None else Some (take n s, drop n s))"

lemma stream_read_append [simp]: "length a = n \<Longrightarrow> stream_read n (a @ r) = Some (a, r)"
  by (simp add: stream_read_def)

definition ser_writedata8 :: "byte \<Rightarrow> bytes" where "ser_writedata8 obj = [obj]"
definition ser_writedata16 :: "u16 \<Rightarrow> bytes" where "ser_writedata16 obj = le_bytes 2 obj"
definition ser_writedata32 :: "u32 \<Rightarrow> bytes" where "ser_writedata32 obj = le_bytes 4 obj"
definition ser_writedata32be :: "u32 \<Rightarrow> bytes" where "ser_writedata32be obj = rev (le_bytes 4 obj)"
definition ser_writedata64 :: "u64 \<Rightarrow> bytes" where "ser_writedata64 obj = le_bytes 8 obj"

definition ser_readdata8 :: "byte reader" where
  "ser_readdata8 s = map_option (\<lambda>(d, r). (hd d, r)) (stream_read 1 s)"
definition ser_readdata16 :: "u16 reader" where
  "ser_readdata16 s = map_option (\<lambda>(d, r). (le_word d, r)) (stream_read 2 s)"
definition ser_readdata32 :: "u32 reader" where
  "ser_readdata32 s = map_option (\<lambda>(d, r). (le_word d, r)) (stream_read 4 s)"
definition ser_readdata32be :: "u32 reader" where
  "ser_readdata32be s = map_option (\<lambda>(d, r). (le_word (rev d), r)) (stream_read 4 s)"
definition ser_readdata64 :: "u64 reader" where
  "ser_readdata64 s = map_option (\<lambda>(d, r). (le_word d, r)) (stream_read 8 s)"

lemmas ser_write_defs = ser_writedata8_def ser_writedata16_def ser_writedata32_def
  ser_writedata32be_def ser_writedata64_def
lemmas ser_read_defs = ser_readdata8_def ser_readdata16_def ser_readdata32_def
  ser_readdata32be_def ser_readdata64_def

lemma ser_readdata8_Cons [simp]: "ser_readdata8 (b # r) = Some (b, r)"
  by (simp add: ser_readdata8_def stream_read_def)

lemma ser_readdata8_Nil [simp]: "ser_readdata8 [] = None"
  by (simp add: ser_readdata8_def stream_read_def)

lemma ser_readdata_writedata [simp]:
  "ser_readdata8 (ser_writedata8 a @ r) = Some (a, r)"
  "ser_readdata16 (ser_writedata16 b @ r) = Some (b, r)"
  "ser_readdata32 (ser_writedata32 c @ r) = Some (c, r)"
  "ser_readdata32be (ser_writedata32be c @ r) = Some (c, r)"
  "ser_readdata64 (ser_writedata64 d @ r) = Some (d, r)"
  by (simp add: ser_write_defs) (simp_all add: ser_write_defs ser_read_defs)

subsection \<open>The interface of a serializable type\<close>

text \<open>Reading one value and then, depending on it, the next.\<close>

definition read_bind :: "'a reader \<Rightarrow> ('a \<Rightarrow> 'b reader) \<Rightarrow> 'b reader" where
  "read_bind u f s = (case u s of None \<Rightarrow> None | Some (x, s) \<Rightarrow> f x s)"

definition read_return :: "'a \<Rightarrow> 'a reader" where
  "read_return x s = Some (x, s)"

definition read_fail :: "'a reader" where
  "read_fail s = None"

locale codec =
  fixes ser :: "'a \<Rightarrow> bytes" and unser :: "'a reader" and valid :: "'a \<Rightarrow> bool"
  assumes unser_ser: "valid x \<Longrightarrow> unser (ser x @ r) = Some (x, r)"
begin

lemma read_bind_ser [simp]: "valid x \<Longrightarrow> read_bind unser f (ser x @ r) = f x r"
  by (simp add: read_bind_def unser_ser)

lemma ser_inj: "valid x \<Longrightarrow> valid y \<Longrightarrow> ser x @ r = ser y @ s \<Longrightarrow> x = y \<and> r = s"
  by (metis Pair_inject option.inject unser_ser)

lemma ser_prefix_free: "valid x \<Longrightarrow> valid y \<Longrightarrow> ser x @ r = ser y \<Longrightarrow> r = []"
  by (metis append_Nil2 ser_inj)

end

interpretation u8: codec ser_writedata8 ser_readdata8 "\<lambda>_. True"
  by unfold_locales simp

interpretation u16le: codec ser_writedata16 ser_readdata16 "\<lambda>_. True"
  by unfold_locales simp

interpretation u32le: codec ser_writedata32 ser_readdata32 "\<lambda>_. True"
  by unfold_locales simp

interpretation u32be: codec ser_writedata32be ser_readdata32be "\<lambda>_. True"
  by unfold_locales simp

interpretation u64le: codec ser_writedata64 ser_readdata64 "\<lambda>_. True"
  by unfold_locales simp

section \<open>Compact sizes\<close>

definition GetSizeOfCompactSize :: "u64 \<Rightarrow> nat" where
  "GetSizeOfCompactSize nSize =
     (if nSize < 253 then 1 else if nSize \<le> 0xFFFF then 3 else if nSize \<le> 0xFFFFFFFF then 5 else 9)"

definition WriteCompactSize :: "u64 \<Rightarrow> bytes" where
  "WriteCompactSize nSize =
     (if nSize < 253 then ser_writedata8 (ucast nSize)
      else if nSize \<le> 0xFFFF then ser_writedata8 253 @ ser_writedata16 (ucast nSize)
      else if nSize \<le> 0xFFFFFFFF then ser_writedata8 254 @ ser_writedata32 (ucast nSize)
      else ser_writedata8 255 @ ser_writedata64 nSize)"

text \<open>The value of \<open>std::numeric_limits<uint64_t>::max()\<close>, the default size limit.\<close>

abbreviation UINT64_MAX :: u64 where
  "UINT64_MAX \<equiv> 0xFFFFFFFFFFFFFFFF"

definition ReadCompactSize :: "u64 \<Rightarrow> u64 reader" where
  "ReadCompactSize max_size s =
     (case ser_readdata8 s of None \<Rightarrow> None
      | Some (chSize, s1) \<Rightarrow>
        (case
           (if chSize < 253 then Some (ucast chSize, s1)
            else if chSize = 253 then
              (case ser_readdata16 s1 of None \<Rightarrow> None
               | Some (n, s2) \<Rightarrow> if ucast n < (253 :: u64) then None else Some (ucast n, s2))
            else if chSize = 254 then
              (case ser_readdata32 s1 of None \<Rightarrow> None
               | Some (n, s2) \<Rightarrow> if ucast n < (0x10000 :: u64) then None else Some (ucast n, s2))
            else
              (case ser_readdata64 s1 of None \<Rightarrow> None
               | Some (n, s2) \<Rightarrow> if n < 0x100000000 then None else Some (n, s2))) of
           None \<Rightarrow> None
         | Some (nSizeRet, s3) \<Rightarrow>
             if max_size < UINT64_MAX \<and> nSizeRet > max_size then None else Some (nSizeRet, s3)))"

lemma length_WriteCompactSize: "length (WriteCompactSize n) = GetSizeOfCompactSize n"
  by (simp add: WriteCompactSize_def GetSizeOfCompactSize_def ser_write_defs)

lemma le_bytes_take:
  "k \<le> length s \<Longrightarrow> 8 * k = LENGTH('a) \<Longrightarrow> le_bytes k (le_word (take k s) :: 'a::len word) = take k s"
  using le_bytes_le_word [of "take k s", where 'a = 'a] by (simp add: min_absorb2)

text \<open>A reader of a fixed-width integer succeeds exactly on the bytes its writer produces.\<close>

lemma ser_readdata_eq_Some:
  "ser_readdata8 s = Some (a, r) \<longleftrightarrow> s = ser_writedata8 a @ r"
  "ser_readdata16 s = Some (b, r) \<longleftrightarrow> s = ser_writedata16 b @ r"
  "ser_readdata32 s = Some (c, r) \<longleftrightarrow> s = ser_writedata32 c @ r"
  "ser_readdata64 s = Some (d, r) \<longleftrightarrow> s = ser_writedata64 d @ r"
proof -
  show "ser_readdata8 s = Some (a, r) \<longleftrightarrow> s = ser_writedata8 a @ r"
    by (cases s) (auto simp: ser_writedata8_def)
  show "ser_readdata16 s = Some (b, r) \<longleftrightarrow> s = ser_writedata16 b @ r"
    using le_bytes_take [of 2 s, where 'a = 16]
    by (auto simp: ser_readdata16_def ser_writedata16_def stream_read_def)
  show "ser_readdata32 s = Some (c, r) \<longleftrightarrow> s = ser_writedata32 c @ r"
    using le_bytes_take [of 4 s, where 'a = 32]
    by (auto simp: ser_readdata32_def ser_writedata32_def stream_read_def)
  show "ser_readdata64 s = Some (d, r) \<longleftrightarrow> s = ser_writedata64 d @ r"
    using le_bytes_take [of 8 s, where 'a = 64]
    by (auto simp: ser_readdata64_def ser_writedata64_def stream_read_def)
qed

lemma ReadCompactSize_WriteCompactSize:
  "max_size < UINT64_MAX \<longrightarrow> n \<le> max_size \<Longrightarrow> ReadCompactSize max_size (WriteCompactSize n @ r) = Some (n, r)"
proof -
  assume max: "max_size < UINT64_MAX \<longrightarrow> n \<le> max_size"
  consider "n < 253" | "\<not> n < 253" "n \<le> 0xFFFF" | "\<not> n < 253" "\<not> n \<le> 0xFFFF" "n \<le> 0xFFFFFFFF"
    | "\<not> n < 253" "\<not> n \<le> 0xFFFF" "\<not> n \<le> 0xFFFFFFFF" by blast
  then show ?thesis
  proof cases
    case 1
    then have "(ucast n :: byte) < 253" "ucast (ucast n :: byte) = n"
      by (auto simp: word_less_nat_alt unat_ucast_small intro!: ucast_ucast_id)
    with 1 max show ?thesis
      by (auto simp: WriteCompactSize_def ReadCompactSize_def ser_writedata8_def)
  next
    case 2
    then have "ucast (ucast n :: u16) = n" by (intro ucast_ucast_id) (simp add: word_le_nat_alt)
    with 2 max show ?thesis by (auto simp: WriteCompactSize_def ReadCompactSize_def ser_writedata8_def)
  next
    case 3
    then have "ucast (ucast n :: u32) = n" "\<not> n < 0x10000"
      by (auto simp: word_le_nat_alt word_less_nat_alt intro!: ucast_ucast_id)
    with 3 max show ?thesis by (auto simp: WriteCompactSize_def ReadCompactSize_def ser_writedata8_def)
  next
    case 4
    then have "\<not> n < 0x100000000" by (simp add: word_le_nat_alt word_less_nat_alt)
    with 4 max show ?thesis by (auto simp: WriteCompactSize_def ReadCompactSize_def ser_writedata8_def)
  qed
qed

lemma ReadCompactSize_canonical:
  assumes "ReadCompactSize max_size s = Some (n, r)"
  shows "s = WriteCompactSize n @ r" and "max_size < UINT64_MAX \<longrightarrow> n \<le> max_size"
proof -
  from assms show "max_size < UINT64_MAX \<longrightarrow> n \<le> max_size"
    by (auto simp: ReadCompactSize_def split: option.splits if_splits)
  from assms obtain c s1 where s: "s = c # s1"
    by (cases s) (auto simp: ReadCompactSize_def)
  consider "c < 253" | "c = 253" | "c = 254" | "\<not> c < 253" "c \<noteq> 253" "c \<noteq> 254" by blast
  then show "s = WriteCompactSize n @ r"
  proof cases
    case 1
    then have "(ucast c :: u64) < 253" "ucast (ucast c :: u64) = c"
      by (auto simp: word_less_nat_alt unat_ucast_up intro!: ucast_ucast_id)
    with 1 assms show ?thesis
      by (auto simp: s ReadCompactSize_def WriteCompactSize_def ser_writedata8_def split: if_splits)
  next
    case 2
    with assms obtain m where m: "s1 = ser_writedata16 m @ r" "n = ucast m" "\<not> n < 253"
      by (auto simp: s ReadCompactSize_def ser_readdata_eq_Some split: option.splits if_splits)
    have "n \<le> 0xFFFF" using unat_lt2p [of m] 
      by (simp add: m(2) word_le_nat_alt unat_ucast_up)
    with m(3) 2 show ?thesis by (simp add: s m(1,2) WriteCompactSize_def ser_writedata8_def ucast_up_down)
  next
    case 3
    with assms obtain m where m: "s1 = ser_writedata32 m @ r" "n = ucast m" "\<not> n < 0x10000"
      by (auto simp: s ReadCompactSize_def ser_readdata_eq_Some split: option.splits if_splits)
    have "n \<le> 0xFFFFFFFF" using unat_lt2p [of m] 
      by (simp add: m(2) word_le_nat_alt unat_ucast_up)
    moreover have "\<not> n < 253" "\<not> n \<le> 0xFFFF" using m(3) by (simp_all add: word_le_nat_alt word_less_nat_alt)
    ultimately show ?thesis using 3 by (simp add: s m(1,2) WriteCompactSize_def ser_writedata8_def ucast_up_down)
  next
    case 4
    then have "c = 255" using unat_lt2p [of c] by (auto simp: word_unat_eq_iff word_less_nat_alt)
    with 4 assms have m: "s1 = ser_writedata64 n @ r" "\<not> n < 0x100000000"
      by (auto simp: s ReadCompactSize_def ser_readdata_eq_Some split: option.splits if_splits)
    then have "\<not> n < 253" "\<not> n \<le> 0xFFFF" "\<not> n \<le> 0xFFFFFFFF"
      by (simp_all add: word_le_nat_alt word_less_nat_alt)
    with m \<open>c = 255\<close> show ?thesis by (simp add: s WriteCompactSize_def ser_writedata8_def)
  qed
qed

text \<open>
  C39. \<open>ReadCompactSize\<close> accepts exactly the canonical encodings within its limit.
\<close>

theorem ReadCompactSize_iff:
  "ReadCompactSize max_size s = Some (n, r) \<longleftrightarrow>
   s = WriteCompactSize n @ r \<and> (max_size < UINT64_MAX \<longrightarrow> n \<le> max_size)"
  using ReadCompactSize_WriteCompactSize ReadCompactSize_canonical by blast

theorem ReadCompactSize_iff_witness:
  "ReadCompactSize 1000 [253, 0x2C, 0x01, 7] = Some (300, [7]) \<and> ReadCompactSize 1000 [253, 0x10, 0x00] = None"
proof -
  have "[253, 0x2C, 0x01, 7] = WriteCompactSize 300 @ [7] \<and> (1000 < UINT64_MAX \<longrightarrow> 300 \<le> (1000 :: u64))" by code_simp
  then have "ReadCompactSize 1000 [253, 0x2C, 0x01, 7] = Some (300, [7])" by (rule ReadCompactSize_iff [THEN iffD2])
  moreover have "ReadCompactSize 1000 [253, 0x10, 0x00] = None" by code_simp
  ultimately show ?thesis ..
qed

section \<open>Variable-length integers\<close>

text \<open>
  \<open>varint_tmp\<close> is the buffer \<open>tmp[0..len]\<close> that \<open>WriteVarInt\<close> fills; the flag is
  \<open>len \<noteq> 0\<close>. The source then writes it from the last element to the first.
\<close>

lemma mod_127: "m < 2 ^ k \<Longrightarrow> m \<le> 127 \<Longrightarrow> m \<le> 127 mod 2 ^ (k :: nat)" for m :: nat
proof (cases "k < 7")
  case True
  then have "k = 0 \<or> k = 1 \<or> k = 2 \<or> k = 3 \<or> k = 4 \<or> k = 5 \<or> k = 6" by linarith
  then show "m < 2 ^ k \<Longrightarrow> m \<le> 127 mod 2 ^ k" by auto
next
  case False
  then have "(2 :: nat) ^ 7 \<le> 2 ^ k" by (intro power_increasing) simp_all
  then show "m \<le> 127 \<Longrightarrow> m \<le> 127 mod 2 ^ k" by simp
qed

lemma unat_le_127: "n \<le> 0x7F \<longleftrightarrow> unat (n :: 'a::len word) \<le> 127"
proof -
  have "unat (0x7F :: 'a word) = 127 mod 2 ^ LENGTH('a)"
    by (metis of_nat_numeral take_bit_eq_mod unat_of_nat)
  then show ?thesis
    using unat_lt2p [of n] mod_127 [of "unat n" "LENGTH('a)"]
    by (auto simp: word_le_nat_alt intro: order_trans [OF _ mod_less_eq_dividend])
qed

lemma varint_step_less:
  fixes n :: "'a::len word"
  assumes "\<not> n \<le> 0x7F"
  shows "unat (drop_bit 7 n - 1) < unat n" and "drop_bit 7 n \<noteq> 0"
proof -
  have big: "unat n > 127" using assms by (simp add: unat_le_127)
  have d: "unat (drop_bit 7 n) = unat n div 128"
    by (simp add: unat_drop_bit)
  show nz: "drop_bit 7 n \<noteq> 0" 
  proof
    assume "drop_bit 7 n = 0"
    then have "unat n div 128 = 0" using d by simp
    with big show False by simp
  qed
  have "unat (drop_bit 7 n - 1) = unat (drop_bit 7 n) - 1" using nz by (simp add: unat_minus_one)
  then show "unat (drop_bit 7 n - 1) < unat n" using d big by simp
qed

function varint_tmp :: "bool \<Rightarrow> 'a::len word \<Rightarrow> bytes" where
  "varint_tmp more n =
     ((ucast n AND 0x7F) OR (if more then 0x80 else 0x00)) #
     (if n \<le> 0x7F then [] else varint_tmp True (drop_bit 7 n - 1))"
  by auto
termination
  by (relation "measure (\<lambda>(_, n). unat n)") (auto simp: varint_step_less)

declare varint_tmp.simps [simp del]

definition WriteVarInt :: "'a::len word \<Rightarrow> bytes" where
  "WriteVarInt n = rev (varint_tmp False n)"

fun read_varint :: "'a::len word \<Rightarrow> 'a word reader" where
  "read_varint n [] = None"
| "read_varint n (chData # s) =
     (let n = push_bit 7 n OR ucast (chData AND 0x7F)
      in if chData AND 0x80 \<noteq> 0 then read_varint (n + 1) s else Some (n, s))"

definition ReadVarInt :: "'a::len word reader" where
  "ReadVarInt s = read_varint 0 s"

function GetSizeOfVarInt :: "'a::len word \<Rightarrow> nat" where
  "GetSizeOfVarInt n = (if n \<le> 0x7F then 1 else 1 + GetSizeOfVarInt (drop_bit 7 n - 1))"
  by auto
termination
  by (relation "measure unat") (auto simp: varint_step_less)

declare GetSizeOfVarInt.simps [simp del]


lemma varint_byte:
  fixes n :: "'a::len word"
  assumes "8 \<le> LENGTH('a)"
  shows "((ucast n AND 0x7F) OR (if more then 0x80 else 0) :: byte) AND 0x80 \<noteq> 0 \<longleftrightarrow> more"
    and "ucast (((ucast n AND 0x7F) OR (if more then 0x80 else 0) :: byte) AND 0x7F) = take_bit 7 n"
proof -
  have "((ucast n AND 0x7F) OR (if more then 0x80 else 0) :: byte) AND 0x80 = (if more then 0x80 else 0)"
    by (simp add: bit.conj_disj_distrib2 and.assoc)
  then show "((ucast n AND 0x7F) OR (if more then 0x80 else 0) :: byte) AND 0x80 \<noteq> 0 \<longleftrightarrow> more" by simp
  have "((ucast n AND 0x7F) OR (if more then 0x80 else 0) :: byte) AND 0x7F = ucast n AND mask 7"
    by (simp add: bit.conj_disj_distrib2 and.assoc mask_eq_exp_minus_1)
  then show "ucast (((ucast n AND 0x7F) OR (if more then 0x80 else 0) :: byte) AND 0x7F) = take_bit 7 n"
    using assms by (auto simp: bit_simps simp flip: take_bit_eq_mask intro!: bit_word_eqI)
qed

lemma read_varint_step:
  fixes n :: "'a::len word"
  assumes "8 \<le> LENGTH('a)"
  shows "read_varint (drop_bit 7 n) (((ucast n AND 0x7F) OR (if more then 0x80 else 0)) # s) =
     (if more then read_varint (n + 1) s else Some (n, s))"
proof -
  have "push_bit 7 (drop_bit 7 n) OR take_bit 7 n = n"
    by (rule bit_word_eqI) (auto simp: bit_simps dest: bit_imp_le_length)
  then show ?thesis using varint_byte [OF assms, of n more] by (simp only: read_varint.simps Let_def)
qed

lemma read_varint_tmp:
  fixes n :: "'a::len word"
  assumes "8 \<le> LENGTH('a)"
  shows "read_varint 0 (rev (varint_tmp more n) @ s) = (if more then read_varint (n + 1) s else Some (n, s))"
proof (induction more n arbitrary: s rule: varint_tmp.induct)
  case (1 more n)
  show ?case
  proof (cases "n \<le> 0x7F")
    case True
    have "unat n \<le> 127" using True by (simp add: unat_le_127)
    then have "drop_bit 7 n = 0"
      by (simp only: word_unat_eq_iff unat_drop_bit) simp
    with True read_varint_step [OF assms, of n more s] show ?thesis by (simp add: varint_tmp.simps [of more n])
  next
    case False
    with 1 [OF False] read_varint_step [OF assms, of n more s] show ?thesis by (simp add: varint_tmp.simps [of more n])
  qed
qed


lemma length_varint_tmp: "length (varint_tmp more n) = GetSizeOfVarInt n"
  by (induction more n rule: varint_tmp.induct)
    (simp add: varint_tmp.simps [of _ n for n] GetSizeOfVarInt.simps [of n for n])

lemma GetSizeOfVarInt_le: "unat n < 2 ^ m \<Longrightarrow> 0 < m \<Longrightarrow> GetSizeOfVarInt n \<le> (m + 6) div 7"
proof (induction n arbitrary: m rule: GetSizeOfVarInt.induct)
  case (1 n)
  show ?case
  proof (cases "n \<le> 0x7F")
    case True
    with 1 show ?thesis by (simp add: GetSizeOfVarInt.simps [of n])
  next
    case False
    have big: "unat n > 127" using False by (simp add: unat_le_127)
    have "7 < m"
    proof (rule ccontr)
      assume "\<not> 7 < m"
      then have "(2 :: nat) ^ m \<le> 2 ^ 7" by (intro power_increasing) simp_all
      with big "1.prems" show False by simp
    qed
    then have "unat n < 2 ^ (m - 7) * 128" using "1.prems" power_add [of "2 :: nat" "m - 7" 7] by simp
    then have "unat (drop_bit 7 n) < 2 ^ (m - 7)"
      by (simp add: unat_drop_bit div_less_iff_less_mult)
    then have "unat (drop_bit 7 n - 1) < 2 ^ (m - 7)"
      using varint_step_less(2) [OF False] by (simp add: unat_minus_one)
    with "1.IH" [OF False, of "m - 7"] \<open>7 < m\<close> have "GetSizeOfVarInt (drop_bit 7 n - 1) \<le> (m - 7 + 6) div 7" by simp
    then show ?thesis using False \<open>7 < m\<close> by (simp add: GetSizeOfVarInt.simps [of n])
  qed
qed

text \<open>
  C40. \<open>WriteVarInt\<close> never writes past its buffer of \<open>(sizeof(n)*8+6)/7\<close> bytes, its length
  is what \<open>GetSizeOfVarInt\<close> announces, and \<open>ReadVarInt\<close> gives the integer back and stops
  at the next byte of the stream, for every unsigned type of at least eight bits.
\<close>

theorem ReadVarInt_WriteVarInt:
  fixes n :: "'a::len word"
  assumes "8 \<le> LENGTH('a)"
  shows "ReadVarInt (WriteVarInt n @ s) = Some (n, s)
    \<and> length (WriteVarInt n) = GetSizeOfVarInt n
    \<and> GetSizeOfVarInt n \<le> (LENGTH('a) + 6) div 7"
  using assms read_varint_tmp [OF assms, of False n s] GetSizeOfVarInt_le [OF unat_lt2p, of n]
  by (simp add: ReadVarInt_def WriteVarInt_def length_varint_tmp)

theorem ReadVarInt_WriteVarInt_witness:
  "WriteVarInt (0xFFFF :: u32) = [0x82, 0xFE, 0x7F] \<and> ReadVarInt [0x82, 0xFE, 0x7F, 9] = Some (0xFFFF :: u32, [9])"
proof -
  have "WriteVarInt (0xFFFF :: u32) = [0x82, 0xFE, 0x7F]" by code_simp
  moreover have "ReadVarInt (WriteVarInt (0xFFFF :: u32) @ [9]) = Some (0xFFFF :: u32, [9])"
    using ReadVarInt_WriteVarInt [of "0xFFFF :: u32" "[9]"] by simp
  ultimately show ?thesis by simp
qed

section \<open>Strings and vectors\<close>

definition Serialize_bytes :: "bytes \<Rightarrow> bytes" where
  "Serialize_bytes v = WriteCompactSize (of_nat (length v)) @ v"

definition Unserialize_string :: "bytes reader" where
  "Unserialize_string s =
     (case ReadCompactSize UINT64_MAX s of None \<Rightarrow> None
      | Some (nSize, s) \<Rightarrow> if nSize \<noteq> 0 then stream_read (unat nSize) s else Some ([], s))"

definition Serialize_Checked :: "nat \<Rightarrow> bytes \<Rightarrow> bytes option" where
  "Serialize_Checked nMaxSize str = (if length str > nMaxSize then None else Some (Serialize_bytes str))"

definition Unserialize_Checked :: "nat \<Rightarrow> bytes reader" where
  "Unserialize_Checked nMaxSize s =
     (case ReadCompactSize UINT64_MAX s of None \<Rightarrow> None
      | Some (nStrSize, s) \<Rightarrow>
          if unat nStrSize > nMaxSize then None
          else if nStrSize \<noteq> 0 then stream_read (unat nStrSize) s else Some ([], s))"

text \<open>A byte vector is read in blocks of five million bytes.\<close>

function read_blocks :: "nat \<Rightarrow> bytes reader" where
  "read_blocks rem s =
     (if rem = 0 then Some ([], s)
      else let blk = min rem 5000000
           in case stream_read blk s of None \<Rightarrow> None
              | Some (d, s) \<Rightarrow> map_option (\<lambda>(e, s). (d @ e, s)) (read_blocks (rem - blk) s))"
  by auto
termination
  by (relation "measure fst") auto

declare read_blocks.simps [simp del]

definition Unserialize_bytes :: "bytes reader" where
  "Unserialize_bytes s =
     (case ReadCompactSize UINT64_MAX s of None \<Rightarrow> None
      | Some (nSize, s) \<Rightarrow> read_blocks (unat nSize) s)"

text \<open>
  A vector of other items is grown and read in chunks of \<open>5000000 / sizeof(T)\<close> items, a
  positive number written as \<open>Suc c\<close>.
\<close>

definition Serialize_vector :: "('a \<Rightarrow> bytes) \<Rightarrow> 'a list \<Rightarrow> bytes" where
  "Serialize_vector ser v = WriteCompactSize (of_nat (length v)) @ concat (map ser v)"

primrec read_items :: "'a reader \<Rightarrow> nat \<Rightarrow> 'a list reader" where
  "read_items unser 0 s = Some ([], s)"
| "read_items unser (Suc k) s =
     (case unser s of None \<Rightarrow> None
      | Some (x, s) \<Rightarrow> map_option (\<lambda>(xs, s). (x # xs, s)) (read_items unser k s))"

function read_chunks :: "'a reader \<Rightarrow> nat \<Rightarrow> nat \<Rightarrow> 'a list reader" where
  "read_chunks unser c rem s =
     (if rem = 0 then Some ([], s)
      else let k = min rem (Suc c)
           in case read_items unser k s of None \<Rightarrow> None
              | Some (xs, s) \<Rightarrow> map_option (\<lambda>(ys, s). (xs @ ys, s)) (read_chunks unser c (rem - k) s))"
  by auto
termination
  by (relation "measure (\<lambda>(_, _, rem, _). rem)") auto

declare read_chunks.simps [simp del]

definition Unserialize_vector :: "'a reader \<Rightarrow> nat \<Rightarrow> 'a list reader" where
  "Unserialize_vector unser c s =
     (case ReadCompactSize UINT64_MAX s of None \<Rightarrow> None
      | Some (nSize, s) \<Rightarrow> read_chunks unser c (unat nSize) s)"

lemma stream_read_add:
  "stream_read (a + b) s =
     (case stream_read a s of None \<Rightarrow> None
      | Some (d, s) \<Rightarrow> map_option (\<lambda>(e, s). (d @ e, s)) (stream_read b s))"
  by (auto simp: stream_read_def take_add add.commute)

lemma read_blocks_eq: "read_blocks n s = stream_read n s"
proof (induction n s rule: read_blocks.induct)
  case (1 n s)
  show ?case
  proof (cases "n = 0")
    case False
    have "read_blocks n s = (case stream_read (min n 5000000) s of None \<Rightarrow> None
        | Some (d, s) \<Rightarrow> map_option (\<lambda>(e, s). (d @ e, s)) (stream_read (n - min n 5000000) s))"
      using False 1 [OF False refl] by (simp add: read_blocks.simps [of n] Let_def split: option.split)
    then show ?thesis using stream_read_add [of "min n 5000000" "n - min n 5000000" s] by simp
  qed (simp add: read_blocks.simps [of 0] stream_read_def)
qed

lemma read_items_add:
  "read_items u (a + b) s =
     (case read_items u a s of None \<Rightarrow> None
      | Some (xs, s) \<Rightarrow> map_option (\<lambda>(ys, s). (xs @ ys, s)) (read_items u b s))"
  by (induction a arbitrary: s)
    (auto simp: map_option_case split: option.splits)

lemma read_chunks_eq: "read_chunks u c n s = read_items u n s"
proof (induction u c n s rule: read_chunks.induct)
  case (1 u c n s)
  show ?case
  proof (cases "n = 0")
    case False
    have "read_chunks u c n s = (case read_items u (min n (Suc c)) s of None \<Rightarrow> None
        | Some (xs, s) \<Rightarrow> map_option (\<lambda>(ys, s). (xs @ ys, s)) (read_items u (n - min n (Suc c)) s))"
      using False 1 [OF False refl] by (simp add: read_chunks.simps [of u c n] Let_def split: option.split)
    then show ?thesis using read_items_add [of u "min n (Suc c)" "n - min n (Suc c)" s] by simp
  qed (simp add: read_chunks.simps [of u c 0])
qed


interpretation compact_size: codec WriteCompactSize "ReadCompactSize UINT64_MAX" "\<lambda>_. True"
  by unfold_locales (simp add: ReadCompactSize_WriteCompactSize)

interpretation varint32: codec "WriteVarInt :: u32 \<Rightarrow> bytes" ReadVarInt "\<lambda>_. True"
  by unfold_locales (simp add: ReadVarInt_def WriteVarInt_def read_varint_tmp)

interpretation varint64: codec "WriteVarInt :: u64 \<Rightarrow> bytes" ReadVarInt "\<lambda>_. True"
  by unfold_locales (simp add: ReadVarInt_def WriteVarInt_def read_varint_tmp)

text \<open>The size limit of a container: its length is a \<open>uint64_t\<close>.\<close>

definition fits_u64 :: "'a list \<Rightarrow> bool" where
  "fits_u64 v \<longleftrightarrow> length v < 2 ^ 64"

lemma fits_u64_Nil [simp]: "fits_u64 []"
  by (simp add: fits_u64_def)

lemma unat_of_nat_length: "fits_u64 v \<Longrightarrow> unat (of_nat (length v) :: u64) = length v"
  by (simp add: fits_u64_def unat_of_nat)

interpretation byte_vector: codec Serialize_bytes Unserialize_bytes fits_u64
  by unfold_locales
    (simp add: Serialize_bytes_def Unserialize_bytes_def compact_size.unser_ser read_blocks_eq unat_of_nat_length)

lemma Unserialize_string_eq: "Unserialize_string s = Unserialize_bytes s"
  by (auto simp: Unserialize_string_def Unserialize_bytes_def read_blocks_eq stream_read_def split: option.split)

interpretation std_string: codec Serialize_bytes Unserialize_string fits_u64
  by unfold_locales (simp add: Unserialize_string_eq byte_vector.unser_ser)

locale vector_codec = codec ser unser valid
  for ser :: "'a \<Rightarrow> bytes" and unser :: "'a reader" and valid :: "'a \<Rightarrow> bool" +
  fixes chunk :: nat
begin

lemma read_items_ser:
  "\<forall>x \<in> set v. valid x \<Longrightarrow> read_items unser (length v) (concat (map ser v) @ r) = Some (v, r)"
  by (induction v) (auto simp: unser_ser)

end

sublocale vector_codec \<subseteq> vec: codec "Serialize_vector ser" "Unserialize_vector unser chunk"
    "\<lambda>v. fits_u64 v \<and> (\<forall>x \<in> set v. valid x)"
  by unfold_locales
    (auto simp: Serialize_vector_def Unserialize_vector_def compact_size.unser_ser read_chunks_eq
      unat_of_nat_length read_items_ser)

interpretation byte_vectors: vector_codec Serialize_bytes Unserialize_bytes fits_u64 "208332"
  by unfold_locales

lemma Unserialize_Checked_roundtrip:
  "Serialize_Checked m v = Some bs \<Longrightarrow> fits_u64 v \<Longrightarrow> Unserialize_Checked m (bs @ r) = Some (v, r)"
  using unat_of_nat_length [of v]
  by (cases v) (auto simp: Serialize_Checked_def Serialize_bytes_def Unserialize_Checked_def
      compact_size.unser_ser stream_read_def split: if_splits)

section \<open>Hashes, signed integers and fixed arrays\<close>

text \<open>
  A \<open>uint256\<close> is written as its 32 bytes in memory order, the least significant first. An
  \<open>int64_t\<close> is written through its unsigned image.
\<close>

definition ser_uint256 :: "uint256 \<Rightarrow> bytes" where
  "ser_uint256 h = le_bytes 32 h"

definition unser_uint256 :: "uint256 reader" where
  "unser_uint256 s = map_option (\<lambda>(d, r). (le_word d, r)) (stream_read 32 s)"

definition ser_int64 :: "int \<Rightarrow> bytes" where
  "ser_int64 a = ser_writedata64 (word_of_int a)"

definition unser_int64 :: "int reader" where
  "unser_int64 s = map_option (\<lambda>(w, r). (sint w, r)) (ser_readdata64 s)"

definition ser_array :: "bytes \<Rightarrow> bytes" where
  "ser_array item = concat (map ser_writedata8 item)"

definition unser_array :: "nat \<Rightarrow> bytes reader" where
  "unser_array n s = read_items ser_readdata8 n s"

definition is_int64 :: "int \<Rightarrow> bool" where
  "is_int64 a \<longleftrightarrow> - (2 ^ 63) \<le> a \<and> a < 2 ^ 63"

lemma sint_word_of_int64: "is_int64 a \<Longrightarrow> sint (word_of_int a :: u64) = a"
  by (simp add: is_int64_def signed_of_int signed_take_bit_int_eq_self)

interpretation hash256: codec ser_uint256 unser_uint256 "\<lambda>_. True"
  by unfold_locales (simp add: ser_uint256_def unser_uint256_def)

interpretation int64: codec ser_int64 unser_int64 is_int64
  by unfold_locales (simp add: ser_int64_def unser_int64_def sint_word_of_int64)

interpretation byte_items: vector_codec ser_writedata8 ser_readdata8 "\<lambda>_. True" "4999999"
  by unfold_locales

interpretation array: codec ser_array "unser_array n" "\<lambda>a. length a = n" for n
  by unfold_locales (auto simp: ser_array_def unser_array_def byte_items.read_items_ser)

lemma length_ser_uint256 [simp]: "length (ser_uint256 h) = 32"
  by (simp add: ser_uint256_def)

end
