(* ===== verification/Script.thy ===== *)
theory Script
  imports Serialize
begin

text \<open>
  Scripts (\<open>script/script.h\<close>, \<open>script/script.cpp\<close>): the numbers of the script language,
  pushing onto a script, reading it instruction by instruction, and the predicates and
  counters that walk over it. A script is its list of bytes and a position in it is the
  list of bytes from there on; an opcode is its byte. An \<open>assert\<close> or a thrown
  \<open>scriptnum_error\<close> is \<^const>\<open>None\<close>.
\<close>

type_synonym CScript = bytes
type_synonym opcodetype = byte

abbreviation OP_0 :: opcodetype where "OP_0 \<equiv> 0x00"
abbreviation OP_PUSHDATA1 :: opcodetype where "OP_PUSHDATA1 \<equiv> 0x4c"
abbreviation OP_PUSHDATA2 :: opcodetype where "OP_PUSHDATA2 \<equiv> 0x4d"
abbreviation OP_PUSHDATA4 :: opcodetype where "OP_PUSHDATA4 \<equiv> 0x4e"
abbreviation OP_1 :: opcodetype where "OP_1 \<equiv> 0x51"
abbreviation OP_16 :: opcodetype where "OP_16 \<equiv> 0x60"
abbreviation OP_RETURN :: opcodetype where "OP_RETURN \<equiv> 0x6a"
abbreviation OP_DUP :: opcodetype where "OP_DUP \<equiv> 0x76"
abbreviation OP_EQUAL :: opcodetype where "OP_EQUAL \<equiv> 0x87"
abbreviation OP_EQUALVERIFY :: opcodetype where "OP_EQUALVERIFY \<equiv> 0x88"
abbreviation OP_HASH160 :: opcodetype where "OP_HASH160 \<equiv> 0xa9"
abbreviation OP_CHECKSIG :: opcodetype where "OP_CHECKSIG \<equiv> 0xac"
abbreviation OP_CHECKSIGVERIFY :: opcodetype where "OP_CHECKSIGVERIFY \<equiv> 0xad"
abbreviation OP_CHECKMULTISIG :: opcodetype where "OP_CHECKMULTISIG \<equiv> 0xae"
abbreviation OP_CHECKMULTISIGVERIFY :: opcodetype where "OP_CHECKMULTISIGVERIFY \<equiv> 0xaf"
abbreviation OP_SMALLDATA :: opcodetype where "OP_SMALLDATA \<equiv> 0xf9"
abbreviation OP_SMALLINTEGER :: opcodetype where "OP_SMALLINTEGER \<equiv> 0xfa"
abbreviation OP_PUBKEYS :: opcodetype where "OP_PUBKEYS \<equiv> 0xfb"
abbreviation OP_PUBKEYHASH :: opcodetype where "OP_PUBKEYHASH \<equiv> 0xfd"
abbreviation OP_PUBKEY :: opcodetype where "OP_PUBKEY \<equiv> 0xfe"
abbreviation OP_INVALIDOPCODE :: opcodetype where "OP_INVALIDOPCODE \<equiv> 0xff"

definition MAX_SCRIPT_ELEMENT_SIZE :: nat where "MAX_SCRIPT_ELEMENT_SIZE = 520"
definition MAX_SCRIPT_SIZE :: nat where "MAX_SCRIPT_SIZE = 10000"

section \<open>Script numbers\<close>

text \<open>
  The value of a \<open>CScriptNum\<close> is an \<open>int64_t\<close>. \<open>absvalue_bytes\<close> is the loop of
  \<open>serialize\<close> over \<open>absvalue\<close>. The shift in \<open>set_vch\<close> is defined for up to eight bytes;
  the constructor is only called with a maximum size of four or five.
\<close>

abbreviation INT64_MIN :: int where "INT64_MIN \<equiv> - (2 ^ 63)"
abbreviation INT64_MAX :: int where "INT64_MAX \<equiv> 2 ^ 63 - 1"
abbreviation INT32_MIN :: int where "INT32_MIN \<equiv> - (2 ^ 31)"
abbreviation INT32_MAX :: int where "INT32_MAX \<equiv> 2 ^ 31 - 1"

lemma drop_bit_8_less: "absvalue \<noteq> 0 \<Longrightarrow> unat (drop_bit 8 absvalue) < unat (absvalue :: u64)"
  by (simp add: unat_drop_bit unsigned_eq_0_iff div_less_dividend unat_gt_0)

function absvalue_bytes :: "u64 \<Rightarrow> bytes" where
  "absvalue_bytes absvalue =
     (if absvalue = 0 then [] else ucast absvalue # absvalue_bytes (drop_bit 8 absvalue))"
  by auto
termination
  by (relation "measure unat") (simp_all add: drop_bit_8_less)

declare absvalue_bytes.simps [simp del]

definition CScriptNum_serialize :: "int \<Rightarrow> bytes" where
  "CScriptNum_serialize v =
     (if v = 0 then []
      else let neg = v < 0;
               result = absvalue_bytes (word_of_int (if neg then - v else v))
           in if last result AND 0x80 \<noteq> 0 then result @ [if neg then 0x80 else 0]
              else if neg then butlast result @ [last result OR 0x80]
              else result)"

definition set_vch :: "bytes \<Rightarrow> int" where
  "set_vch vch =
     (if vch = [] then 0
      else let result = le_word vch :: u64
           in if last vch AND 0x80 \<noteq> 0
              then - sint (result AND NOT (push_bit (8 * (length vch - 1)) 0x80))
              else sint result)"

definition nDefaultMaxNumSize :: nat where "nDefaultMaxNumSize = 4"

definition CScriptNum_vch :: "bytes \<Rightarrow> bool \<Rightarrow> nat \<Rightarrow> int option" where
  "CScriptNum_vch vch fRequireMinimal nMaxNumSize =
     (if length vch > nMaxNumSize then None
      else if fRequireMinimal \<and> length vch > 0 \<and> last vch AND 0x7f = 0 \<and>
              (length vch \<le> 1 \<or> vch ! (length vch - 2) AND 0x80 = 0) then None
      else Some (set_vch vch))"

definition CScriptNum_plus :: "int \<Rightarrow> int \<Rightarrow> int option" where
  "CScriptNum_plus v rhs =
     (if rhs = 0 \<or> (rhs > 0 \<and> v \<le> INT64_MAX - rhs) \<or> (rhs < 0 \<and> v \<ge> INT64_MIN - rhs)
      then Some (v + rhs) else None)"

definition CScriptNum_minus :: "int \<Rightarrow> int \<Rightarrow> int option" where
  "CScriptNum_minus v rhs =
     (if rhs = 0 \<or> (rhs > 0 \<and> v \<ge> INT64_MIN + rhs) \<or> (rhs < 0 \<and> v \<le> INT64_MAX + rhs)
      then Some (v - rhs) else None)"

definition CScriptNum_uminus :: "int \<Rightarrow> int option" where
  "CScriptNum_uminus v = (if v \<noteq> INT64_MIN then Some (- v) else None)"

definition CScriptNum_getint :: "int \<Rightarrow> int" where
  "CScriptNum_getint v = (if v > INT32_MAX then INT32_MAX else if v < INT32_MIN then INT32_MIN else v)"

section \<open>Building scripts\<close>

definition push_opcode :: "CScript \<Rightarrow> opcodetype \<Rightarrow> CScript" where
  "push_opcode script opcode = script @ [opcode]"

definition push_data :: "CScript \<Rightarrow> bytes \<Rightarrow> CScript" where
  "push_data script b =
     script @
     (if length b < unat OP_PUSHDATA1 then [of_nat (length b)]
      else if length b \<le> 0xff then [OP_PUSHDATA1, of_nat (length b)]
      else if length b \<le> 0xffff then OP_PUSHDATA2 # WriteLE16 (of_nat (length b))
      else OP_PUSHDATA4 # WriteLE32 (of_nat (length b))) @ b"

definition push_int64 :: "CScript \<Rightarrow> int \<Rightarrow> CScript" where
  "push_int64 script n =
     (if n = -1 \<or> (n \<ge> 1 \<and> n \<le> 16) then script @ [word_of_int n + (OP_1 - 1)]
      else if n = 0 then script @ [OP_0]
      else push_data script (CScriptNum_serialize n))"

definition DecodeOP_N :: "opcodetype \<Rightarrow> nat option" where
  "DecodeOP_N opcode =
     (if opcode = OP_0 then Some 0
      else if opcode \<ge> OP_1 \<and> opcode \<le> OP_16 then Some (unat opcode - (unat OP_1 - 1))
      else None)"

definition EncodeOP_N :: "int \<Rightarrow> opcodetype option" where
  "EncodeOP_N n =
     (if n \<ge> 0 \<and> n \<le> 16 then Some (if n = 0 then OP_0 else OP_1 + word_of_int n - 1) else None)"

section \<open>Reading scripts\<close>

text \<open>
  \<open>GetOp2\<close> returns the opcode, its data and the position after it, or \<^const>\<open>None\<close> where the
  source returns false (no caller uses the position it leaves in that case).
\<close>

definition GetOp2 :: "CScript \<Rightarrow> (opcodetype \<times> bytes \<times> CScript) option" where
  "GetOp2 pc =
     (case pc of [] \<Rightarrow> None
      | opcode # pc \<Rightarrow>
        if opcode \<le> OP_PUSHDATA4 then
          (case
             (if opcode < OP_PUSHDATA1 then Some (unat opcode, pc)
              else if opcode = OP_PUSHDATA1 then
                if length pc < 1 then None else Some (unat (hd pc), tl pc)
              else if opcode = OP_PUSHDATA2 then
                if length pc < 2 then None else Some (unat (ReadLE16 pc), drop 2 pc)
              else
                if length pc < 4 then None else Some (unat (ReadLE32 pc), drop 4 pc)) of
             None \<Rightarrow> None
           | Some (nSize, pc) \<Rightarrow>
               if length pc < nSize then None else Some (opcode, take nSize pc, drop nSize pc))
        else Some (opcode, [], pc))"

lemma GetOp2_shorter: "GetOp2 pc = Some (opcode, vch, pc') \<Longrightarrow> length pc' < length pc"
  by (auto simp: GetOp2_def split: list.splits if_splits)

lemma GetOp2_Nil [simp]: "GetOp2 [] = None"
  by (simp add: GetOp2_def)

function sig_op_count :: "bool \<Rightarrow> opcodetype \<Rightarrow> nat \<Rightarrow> CScript \<Rightarrow> nat" where
  "sig_op_count fAccurate lastOpcode n pc =
     (case GetOp2 pc of None \<Rightarrow> n
      | Some (opcode, _, pc') \<Rightarrow>
          let n' = (if opcode = OP_CHECKSIG \<or> opcode = OP_CHECKSIGVERIFY then n + 1
                    else if opcode = OP_CHECKMULTISIG \<or> opcode = OP_CHECKMULTISIGVERIFY then
                      (if fAccurate \<and> lastOpcode \<ge> OP_1 \<and> lastOpcode \<le> OP_16
                       then n + the (DecodeOP_N lastOpcode) else n + 20)
                    else n)
          in sig_op_count fAccurate opcode n' pc')"
  by pat_completeness auto
termination
  by (relation "measure (\<lambda>(_, _, _, pc). length pc)") (auto dest: GetOp2_shorter)

declare sig_op_count.simps [simp del]

definition GetSigOpCount :: "CScript \<Rightarrow> bool \<Rightarrow> nat" where
  "GetSigOpCount script fAccurate = sig_op_count fAccurate OP_INVALIDOPCODE 0 script"

definition IsPayToPublicKeyHash :: "CScript \<Rightarrow> bool" where
  "IsPayToPublicKeyHash s \<longleftrightarrow>
     length s = 25 \<and> s ! 0 = OP_DUP \<and> s ! 1 = OP_HASH160 \<and> s ! 2 = 0x14 \<and>
     s ! 23 = OP_EQUALVERIFY \<and> s ! 24 = OP_CHECKSIG"

definition IsPayToScriptHash :: "CScript \<Rightarrow> bool" where
  "IsPayToScriptHash s \<longleftrightarrow>
     length s = 23 \<and> s ! 0 = OP_HASH160 \<and> s ! 1 = 0x14 \<and> s ! 22 = OP_EQUAL"

text \<open>
  The loop of \<open>GetSigOpCount(scriptSig)\<close>: the data of the last push, or \<^const>\<open>None\<close> when an
  instruction is malformed or is not a push.
\<close>

function last_push :: "bytes \<Rightarrow> CScript \<Rightarrow> bytes option" where
  "last_push data pc =
     (if pc = [] then Some data
      else case GetOp2 pc of None \<Rightarrow> None
           | Some (opcode, vch, pc') \<Rightarrow> if opcode > OP_16 then None else last_push vch pc')"
  by pat_completeness auto
termination
  by (relation "measure (\<lambda>(_, pc). length pc)") (auto dest: GetOp2_shorter)

declare last_push.simps [simp del]

definition GetSigOpCount_P2SH :: "CScript \<Rightarrow> CScript \<Rightarrow> nat" where
  "GetSigOpCount_P2SH script scriptSig =
     (if \<not> IsPayToScriptHash script then GetSigOpCount script True
      else case last_push [] scriptSig of None \<Rightarrow> 0
           | Some subscript \<Rightarrow> GetSigOpCount subscript True)"

function IsPushOnly :: "CScript \<Rightarrow> bool" where
  "IsPushOnly pc =
     (if pc = [] then True
      else case GetOp2 pc of None \<Rightarrow> False
           | Some (opcode, _, pc') \<Rightarrow> if opcode > OP_16 then False else IsPushOnly pc')"
  by pat_completeness auto
termination
  by (relation "measure length") (auto dest: GetOp2_shorter)

declare IsPushOnly.simps [simp del]

definition IsUnspendable :: "CScript \<Rightarrow> bool" where
  "IsUnspendable s \<longleftrightarrow> (length s > 0 \<and> hd s = OP_RETURN) \<or> length s > MAX_SCRIPT_SIZE"

datatype ScriptType = UNKNOWN | P2PKH | P2SH

definition GetType :: "CScript \<Rightarrow> ScriptType" where
  "GetType s = (if IsPayToPublicKeyHash s then P2PKH else if IsPayToScriptHash s then P2SH else UNKNOWN)"

definition toScriptType :: "byte \<Rightarrow> ScriptType option" where
  "toScriptType t = (if t = 0 then Some UNKNOWN else if t = 1 then Some P2PKH else if t = 2 then Some P2SH else None)"

text \<open>A \<open>uint160\<close> is its twenty bytes.\<close>

type_synonym uint160 = bytes

definition AddressHash :: "CScript \<Rightarrow> uint160" where
  "AddressHash s =
     (let zeros = replicate 20 0;
          hash = (\<lambda>start. if length s < 20 + start then zeros else take 20 (drop start s))
      in if IsPayToPublicKeyHash s then hash 3
         else if IsPayToScriptHash s then hash 2
         else zeros)"

section \<open>Script numbers are sign and magnitude\<close>

primrec le_nat :: "bytes \<Rightarrow> nat" where
  "le_nat [] = 0"
| "le_nat (b # bs) = unat b + 256 * le_nat bs"

lemma le_nat_append: "le_nat (xs @ ys) = le_nat xs + 256 ^ length xs * le_nat ys"
  by (induction xs) (simp_all add: algebra_simps)

lemma le_nat_less: "le_nat bs < 256 ^ length bs"
proof (induction bs)
  case (Cons b bs)
  then show ?case using unat_lt2p [of b] by simp
qed simp

lemma le_word_append:
  "le_word (xs @ ys) = (le_word xs OR push_bit (8 * length xs) (le_word ys) :: 'a::len word)"
  by (induction xs) (simp_all add: push_bit_or push_bit_push_bit or.assoc)

lemma le_word_of_nat: "le_word bs = (of_nat (le_nat bs) :: 'a::len word)"
proof (induction bs)
  case (Cons b bs)
  have "le_word (b # bs) = (ucast b + push_bit 8 (le_word bs) :: 'a word)"
    unfolding le_word.simps
    by (rule disjunctive_add [symmetric]) (auto simp: bit_simps dest: bit_imp_le_length)
  also have "\<dots> = of_nat (le_nat (b # bs))"
    by (simp add: Cons.IH push_bit_eq_mult mult.commute)
  finally show ?case .
qed simp

lemma unat_le_word: "8 * length bs \<le> LENGTH('a) \<Longrightarrow> unat (le_word bs :: 'a::len word) = le_nat bs"
proof -
  assume "8 * length bs \<le> LENGTH('a)"
  then have "(2 :: nat) ^ (8 * length bs) \<le> 2 ^ LENGTH('a)" by (intro power_increasing) simp_all
  then have "le_nat bs < 2 ^ LENGTH('a)"
    using le_nat_less [of bs] by (simp add: power_mult)
  then show ?thesis by (simp add: le_word_of_nat unat_of_nat)
qed

lemma le_nat_absvalue_bytes: "le_nat (absvalue_bytes x) = unat x"
proof (induction x rule: absvalue_bytes.induct)
  case (1 x)
  have "unat (ucast x :: byte) = unat x mod 256"
    by (simp add: unsigned_ucast_eq take_bit_eq_mod [where 'a = nat])
  with 1 show ?case
    by (simp add: absvalue_bytes.simps [of x] unat_drop_bit)
qed

lemma absvalue_bytes_last: "x \<noteq> 0 \<Longrightarrow> absvalue_bytes x \<noteq> [] \<and> last (absvalue_bytes x) \<noteq> 0"
proof (induction x rule: absvalue_bytes.induct)
  case (1 x)
  show ?case
  proof (cases "drop_bit 8 x = 0")
    case True
    then have "unat x < 256" using unat_drop_bit [of 8 x] by (simp add: div_eq_0_iff)
    then have "unat (ucast x :: byte) = unat x" by (intro unat_ucast_small) simp
    with 1 have "(ucast x :: byte) \<noteq> 0" by (auto simp: unsigned_eq_0_iff)
    with 1 True show ?thesis
      by (simp add: absvalue_bytes.simps [of x] absvalue_bytes.simps [of 0])
  next
    case False
    with 1 show ?thesis by (simp add: absvalue_bytes.simps [of x])
  qed
qed

lemma le_nat_pos: "bs \<noteq> [] \<Longrightarrow> last bs \<noteq> 0 \<Longrightarrow> 0 < le_nat bs"
  by (induction bs) (auto simp: unat_gt_0 split: if_splits)

text \<open>The bytes are the only ones with that value and no leading zero.\<close>

lemma absvalue_bytes_unique:
  "8 * length bs \<le> 64 \<Longrightarrow> bs = [] \<or> last bs \<noteq> 0 \<Longrightarrow> absvalue_bytes (le_word bs) = bs"
proof (induction bs)
  case (Cons b bs)
  have "unat (le_word (b # bs) :: u64) = le_nat (b # bs)"
    using Cons.prems(1) by (intro unat_le_word) simp
  then have "(le_word (b # bs) :: u64) \<noteq> 0"
    using le_nat_pos [of "b # bs"] Cons.prems(2) by (metis list.simps(3) not_gr0 unsigned_0)
  moreover have "bs = [] \<or> last bs \<noteq> 0" using Cons.prems(2) by auto
  ultimately show ?case
    using Cons le_word_Cons_parts [of b bs, where 'a = 64]
    by (simp add: absvalue_bytes.simps [of "le_word (b # bs)"] del: le_word.simps)
qed (simp add: absvalue_bytes.simps)

lemma le_nat_less_sign:
  assumes "length xs < 8"
  shows "le_nat (xs @ [take_bit 7 b]) < 2 ^ 63"
proof -
  have "unat (take_bit 7 b) \<le> 127" using unat_take_bit_7 [of b] by simp
  then have "256 ^ length xs * unat (take_bit 7 b) \<le> 256 ^ length xs * 127" by (rule mult_le_mono2)
  moreover have "le_nat (xs @ [take_bit 7 b]) = le_nat xs + 256 ^ length xs * unat (take_bit 7 b)"
    by (simp add: le_nat_append)
  ultimately have "le_nat (xs @ [take_bit 7 b]) < 256 ^ length xs * 128"
    using le_nat_less [of xs] by linarith
  also have "\<dots> \<le> 256 ^ 7 * 128"
    using assms by (intro mult_le_mono1 power_increasing) simp_all
  finally show ?thesis by simp
qed

lemma clear_sign_bit:
  "le_word (xs @ [b]) AND NOT (push_bit (8 * length xs) 0x80) = (le_word (xs @ [take_bit 7 b]) :: u64)"
proof (rule bit_word_eqI)
  fix n
  let ?L = "8 * length xs"
  assume n: "n < LENGTH(64)"
  have e: "push_bit ?L 0x80 = (2 ^ (?L + 7) :: u64)"
    using push_bit_of_1 [of "?L + 7", where 'a = u64] by (simp add: push_bit_eq_mult power_add)
  have p: "bit (2 ^ (?L + 7) :: u64) n \<longleftrightarrow> n = ?L + 7"
    using n by (simp add: bit_exp_iff)
  have x: "bit (le_word xs :: u64) n \<Longrightarrow> n < ?L" by (rule bit_le_word)
  have b: "bit b k \<Longrightarrow> k < 8" for k using bit_imp_le_length [of b k] by simp
  show "bit (le_word (xs @ [b]) AND NOT (push_bit ?L 0x80) :: u64) n
      \<longleftrightarrow> bit (le_word (xs @ [take_bit 7 b]) :: u64) n"
    using n x b [of "n - ?L"] unfolding e
    by (auto simp: bit_and_iff bit_not_iff p le_word_append bit_or_iff bit_push_bit_iff bit_take_bit_iff bit_ucast_iff)
qed

lemma set_vch_snoc:
  assumes "length xs < 8"
  shows "set_vch (xs @ [b]) = (if bit b 7 then - 1 else 1) * int (le_nat (xs @ [take_bit 7 b]))"
proof -
  let ?w = "le_word (xs @ [take_bit 7 b]) :: u64"
  have "unat ?w = le_nat (xs @ [take_bit 7 b])" using assms by (intro unat_le_word) simp
  then have "uint ?w = int (le_nat (xs @ [take_bit 7 b]))" by (metis uint_nat)
  with le_nat_less_sign [OF assms, of b] have "sint ?w = int (le_nat (xs @ [take_bit 7 b]))"
    by (simp add: sint_small_u64)
  then show ?thesis using take_bit_7_id [of b] clear_sign_bit [of xs b]
    by (cases "bit b 7") (simp_all add: set_vch_def Let_def byte_and_0x80)
qed

lemma absvalue_snoc:
  assumes "v \<noteq> 0" "\<bar>v\<bar> \<le> INT64_MAX"
  obtains xs b where "absvalue_bytes (word_of_int \<bar>v\<bar>) = xs @ [b]" "b \<noteq> 0" "int (le_nat (xs @ [b])) = \<bar>v\<bar>"
proof -
  let ?w = "word_of_int \<bar>v\<bar> :: u64"
  have "int (unat ?w) = \<bar>v\<bar>"
    using assms by (simp add: uint_word_of_int)
  moreover from this assms(1) have "?w \<noteq> 0" by auto
  ultimately show thesis
    using that [of "butlast (absvalue_bytes ?w)" "last (absvalue_bytes ?w)"]
      absvalue_bytes_last [of ?w] le_nat_absvalue_bytes [of ?w] by simp
qed

lemma CScriptNum_serialize_cases:
  assumes "v \<noteq> 0" "absvalue_bytes (word_of_int \<bar>v\<bar>) = xs @ [b]"
  shows "CScriptNum_serialize v =
    (if bit b 7 then xs @ [b, if v < 0 then 0x80 else 0] else xs @ [if v < 0 then b OR 0x80 else b])"
proof -
  have "(if v < 0 then - v else v) = \<bar>v\<bar>" by simp
  with assms show ?thesis
    by (simp only: CScriptNum_serialize_def Let_def byte_and_0x80 if_False) simp
qed

lemma CScriptNum_vch_serialize:
  assumes "n \<le> 8" "\<bar>v\<bar> \<le> INT64_MAX" "length (CScriptNum_serialize v) \<le> n"
  shows "CScriptNum_vch (CScriptNum_serialize v) True n = Some v"
proof (cases "v = 0")
  case False
  obtain xs b where r: "absvalue_bytes (word_of_int \<bar>v\<bar>) = xs @ [b]" "b \<noteq> 0" "int (le_nat (xs @ [b])) = \<bar>v\<bar>"
    using absvalue_snoc [OF False assms(2)] .
  note ser = CScriptNum_serialize_cases [OF False r(1)]
  show ?thesis
  proof (cases "bit b 7")
    case True
    let ?s = "if v < 0 then 0x80 else 0 :: byte"
    have vch: "CScriptNum_serialize v = (xs @ [b]) @ [?s]" using True ser by simp
    have "bit ?s 7 \<longleftrightarrow> v < 0" "take_bit 7 ?s = 0" by (auto simp: byte_0x80_bits simp flip: byte_and_0x7f)
    then have "set_vch ((xs @ [b]) @ [?s]) = v"
      using assms r(3) vch by (subst set_vch_snoc) (auto simp: le_nat_append)
    with vch True assms show ?thesis by (simp add: CScriptNum_vch_def nth_append byte_and_0x80)
  next
    case nb: False
    let ?t = "if v < 0 then b OR 0x80 else b"
    have vch: "CScriptNum_serialize v = xs @ [?t]" using nb ser by simp
    have t: "bit ?t 7 \<longleftrightarrow> v < 0" "take_bit 7 ?t = b" using nb by (auto simp: byte_or_sign take_bit_7_id)
    then have "set_vch (xs @ [?t]) = v"
      using assms r(3) vch by (subst set_vch_snoc) auto
    with vch t r(2) assms show ?thesis by (simp add: CScriptNum_vch_def byte_and_0x7f)
  qed
qed (simp add: CScriptNum_serialize_def CScriptNum_vch_def set_vch_def)

lemma serialize_set_vch:
  assumes "n \<le> 8" "CScriptNum_vch vch True n = Some v"
  shows "CScriptNum_serialize v = vch"
proof (cases vch rule: rev_cases)
  case (snoc xs b)
  have len: "length xs < 8" using assms snoc by (auto simp: CScriptNum_vch_def split: if_splits)
  define ys where "ys = (if take_bit 7 b = 0 then xs else xs @ [take_bit 7 b])"
  have nm: "take_bit 7 b = 0 \<Longrightarrow> xs \<noteq> [] \<and> bit (last xs) 7"
    using assms(2) by (auto simp: snoc CScriptNum_vch_def byte_and_0x7f byte_and_0x80 nth_append last_conv_nth split: if_splits)
  have ys: "ys \<noteq> []" "last ys \<noteq> 0" "length ys \<le> 8" using nm len by (auto simp: ys_def)
  have v: "v = (if bit b 7 then - 1 else 1) * int (le_nat ys)"
    using assms(2) set_vch_snoc [OF len, of b]
    by (auto simp: snoc CScriptNum_vch_def ys_def le_nat_append split: if_splits)
  then have nz: "v \<noteq> 0" and neg: "v < 0 \<longleftrightarrow> bit b 7" and "\<bar>v\<bar> = int (le_nat ys)"
    using le_nat_pos [OF ys(1,2)] by auto
  then have ab: "absvalue_bytes (word_of_int \<bar>v\<bar>) = ys"
    using absvalue_bytes_unique [of ys] ys by (simp add: le_word_of_nat)
  show ?thesis
  proof (cases "take_bit 7 b = 0")
    case True
    then have "absvalue_bytes (word_of_int \<bar>v\<bar>) = butlast xs @ [last xs]" using ab nm by (simp add: ys_def)
    from CScriptNum_serialize_cases [OF nz this] show ?thesis
      using True nm neg byte_or_sign(3) [of b] take_bit_7_id [of b] by (auto simp: snoc append_butlast_last_id [symmetric])
  next
    case False
    then have "absvalue_bytes (word_of_int \<bar>v\<bar>) = xs @ [take_bit 7 b]" using ab by (simp add: ys_def)
    from CScriptNum_serialize_cases [OF nz this] show ?thesis
      using neg byte_or_sign(3) [of b] take_bit_7_id [of b] by (auto simp: snoc bit_take_bit_iff)
  qed
qed (use assms in \<open>simp add: CScriptNum_serialize_def CScriptNum_vch_def set_vch_def\<close>)

text \<open>
  C37. \<open>CScriptNum\<close> with the minimal-encoding rule accepts exactly the bytes that \<open>serialize\<close>
  produces: a script number of at most eight bytes has one encoding, and reading it gives
  the number back.
\<close>

theorem CScriptNum_minimal_iff:
  assumes "n \<le> 8" "\<bar>v\<bar> \<le> INT64_MAX"
  shows "CScriptNum_vch vch True n = Some v \<longleftrightarrow> vch = CScriptNum_serialize v \<and> length vch \<le> n"
proof
  assume *: "CScriptNum_vch vch True n = Some v"
  then have "length vch \<le> n" by (auto simp: CScriptNum_vch_def split: if_splits)
  with serialize_set_vch [OF assms(1) *] show "vch = CScriptNum_serialize v \<and> length vch \<le> n" by simp
next
  assume "vch = CScriptNum_serialize v \<and> length vch \<le> n"
  with CScriptNum_vch_serialize [OF assms] show "CScriptNum_vch vch True n = Some v" by blast
qed

theorem CScriptNum_minimal_iff_witness:
  "CScriptNum_vch [0xFF, 0x80] True 4 = Some (- 255) \<and> CScriptNum_vch [0xFF, 0x00, 0x80] True 4 = None"
proof -
  have "CScriptNum_serialize (- 255) = [0xFF, 0x80]" by code_simp
  then have "CScriptNum_vch [0xFF, 0x80] True 4 = Some (- 255)"
    using CScriptNum_minimal_iff [of 4 "- 255" "[0xFF, 0x80]"] by simp
  moreover have "CScriptNum_vch [0xFF, 0x00, 0x80] True 4 = None" by code_simp
  ultimately show ?thesis ..
qed

lemma bit_7_unat: "bit (b :: byte) 7 \<longleftrightarrow> 128 \<le> unat b"
proof -
  have "bit b 7 \<longleftrightarrow> odd (unat b div 128)"
    using bit_unsigned_iff [of b 7, where 'a = nat] by (simp add: bit_iff_odd)
  moreover have "unat b div 128 < 2" using unat_lt2p [of b] by simp
  then have "odd (unat b div 128) \<longleftrightarrow> unat b div 128 \<noteq> 0"
    by (auto simp: less_2_cases_iff)
  ultimately show ?thesis by (simp add: div_eq_0_iff not_less)
qed

lemma length_CScriptNum_serialize:
  assumes "\<bar>v\<bar> \<le> INT64_MAX"
  shows "length (CScriptNum_serialize v) \<le> 8"
proof (cases "v = 0")
  case False
  obtain xs b where r: "absvalue_bytes (word_of_int \<bar>v\<bar>) = xs @ [b]" "b \<noteq> 0" "int (le_nat (xs @ [b])) = \<bar>v\<bar>"
    using absvalue_snoc [OF False assms] .
  have "int (le_nat (xs @ [b])) < int (2 ^ 63)" using r(3) assms by simp
  then have "le_nat (xs @ [b]) < 2 ^ 63" by (simp only: of_nat_less_iff)
  then have less: "256 ^ length xs * unat b < 2 ^ 63" by (simp add: le_nat_append)
  have len: "length xs < k" if "unat b \<ge> c" "2 ^ 63 \<le> 256 ^ k * c" for k c
  proof (rule ccontr)
    assume "\<not> length xs < k"
    then have "256 ^ k * c \<le> 256 ^ length xs * unat b"
      using that(1) by (intro mult_le_mono power_increasing) simp_all
    with less that(2) show False by linarith
  qed
  have "unat b \<ge> 1" using r(2) by (simp add: unat_gt_0 Suc_le_eq)
  then have "length xs < 8" by (intro len [of 1]) simp_all
  moreover have "length xs < 7" if "bit b 7" using that by (intro len [of 128]) (simp_all add: bit_7_unat)
  ultimately show ?thesis by (cases "bit b 7") (simp_all add: CScriptNum_serialize_cases [OF False r(1)])
qed (simp add: CScriptNum_serialize_def)

section \<open>Reading back what was pushed\<close>

lemma push_data_append: "push_data script b = script @ push_data [] b"
  by (simp add: push_data_def)

definition push_opcode_for :: "nat \<Rightarrow> opcodetype" where
  "push_opcode_for n =
     (if n < 0x4c then of_nat n else if n \<le> 0xff then OP_PUSHDATA1
      else if n \<le> 0xffff then OP_PUSHDATA2 else OP_PUSHDATA4)"

lemma GetOp2_push_data:
  assumes "length d < 2 ^ 32"
  shows "GetOp2 (push_data [] d @ r) = Some (push_opcode_for (length d), d, r)"
proof -
  consider "length d < 0x4c" | "\<not> length d < 0x4c" "length d \<le> 0xff" | "\<not> length d \<le> 0xff" "length d \<le> 0xffff"
    | "\<not> length d \<le> 0xffff" by linarith
  then show ?thesis
  proof cases
    case 1
    then have "unat (of_nat (length d) :: byte) = length d" by (simp add: unat_of_nat)
    with 1 show ?thesis
      by (simp add: GetOp2_def push_data_def push_opcode_for_def word_le_nat_alt word_less_nat_alt)
  next
    case 2
    then show ?thesis by (simp add: GetOp2_def push_data_def push_opcode_for_def unat_of_nat)
  next
    case 3
    then show ?thesis by (simp add: GetOp2_def push_data_def push_opcode_for_def unat_of_nat)
  next
    case 4
    then show ?thesis using assms by (simp add: GetOp2_def push_data_def push_opcode_for_def unat_of_nat)
  qed
qed

lemma GetOp2_opcode: "opcode > OP_PUSHDATA4 \<Longrightarrow> GetOp2 (opcode # r) = Some (opcode, [], r)"
  unfolding not_le [symmetric] by (simp add: GetOp2_def)

lemma GetOp2_OP_0: "GetOp2 (OP_0 # r) = Some (OP_0, [], r)"
  by (simp add: GetOp2_def)

text \<open>The integer an instruction pushes: the small-integer opcodes, or the number in its data.\<close>

definition pushed_number :: "opcodetype \<Rightarrow> bytes \<Rightarrow> int option" where
  "pushed_number opcode vch =
     (if opcode = 0x4f then Some (- 1)
      else case DecodeOP_N opcode of Some k \<Rightarrow> Some (int k) | None \<Rightarrow> CScriptNum_vch vch True 8)"

lemma unat_small_int_opcode:
  assumes "1 \<le> n" "n \<le> 16"
  shows "unat (word_of_int n + (OP_1 - 1) :: byte) = nat n + 0x50"
proof -
  have "word_of_int n + (OP_1 - 1) = (of_nat (nat n + 0x50) :: byte)" using assms by simp
  then show ?thesis using assms by (simp only: unat_of_nat) (simp add: take_bit_eq_mod)
qed

lemma small_int_opcode:
  assumes "1 \<le> n" "n \<le> 16"
  shows "word_of_int n + (OP_1 - 1) > OP_PUSHDATA4" "DecodeOP_N (word_of_int n + (OP_1 - 1)) = Some (nat n)"
    "word_of_int n + (OP_1 - 1) \<noteq> 0x4f"
  using assms unat_small_int_opcode [OF assms]
  by (auto simp: DecodeOP_N_def word_less_nat_alt word_le_nat_alt word_unat_eq_iff)

text \<open>
  Any integer pushed onto a script (\<open>CScript::push_int64\<close>) is read back by \<open>GetOp\<close> as one
  instruction that denotes the same integer, wherever the script continues.
\<close>

lemma push_int64_GetOp2:
  assumes "\<bar>n\<bar> \<le> INT64_MAX"
  shows "\<exists>opcode vch. GetOp2 (push_int64 [] n @ r) = Some (opcode, vch, r)
     \<and> pushed_number opcode vch = Some n"
proof -
  consider "n = -1" | "1 \<le> n" "n \<le> 16" | "n = 0" | "n \<noteq> -1" "n \<noteq> 0" "\<not> (1 \<le> n \<and> n \<le> 16)" by linarith
  then show ?thesis
  proof cases
    case 1
    then show ?thesis by (simp add: push_int64_def GetOp2_opcode pushed_number_def)
  next
    case 2
    with small_int_opcode [OF 2] show ?thesis
      by (simp add: push_int64_def GetOp2_opcode pushed_number_def)
  next
    case 3
    then show ?thesis by (simp add: push_int64_def GetOp2_OP_0 pushed_number_def DecodeOP_N_def)
  next
    case 4
    let ?d = "CScriptNum_serialize n"
    have len: "length ?d \<le> 8" by (rule length_CScriptNum_serialize [OF assms])
    have "?d \<noteq> []" using CScriptNum_vch_serialize [of 8 n] assms len 4(2)
      by (auto simp: CScriptNum_vch_def set_vch_def)
    then have op: "0 < length ?d" "push_opcode_for (length ?d) = of_nat (length ?d)" using len by (auto simp: push_opcode_for_def)
    have u: "unat (of_nat (length ?d) :: byte) = length ?d" using len by (simp add: unat_of_nat)
    have "pushed_number (of_nat (length ?d)) ?d = CScriptNum_vch ?d True 8"
      using op(1) len u by (auto simp: pushed_number_def DecodeOP_N_def word_le_nat_alt word_unat_eq_iff)
    with 4 len op assms GetOp2_push_data [of ?d r] show ?thesis
      by (auto simp: push_int64_def CScriptNum_vch_serialize)
  qed
qed

section \<open>Signature operations\<close>

lemma DecodeOP_N_le: "lastOpcode \<ge> OP_1 \<Longrightarrow> lastOpcode \<le> OP_16 \<Longrightarrow> the (DecodeOP_N lastOpcode) \<le> 16"
  by (auto simp: DecodeOP_N_def word_le_nat_alt)

lemma sig_op_count_le: "sig_op_count a l n pc \<le> n + 20 * length pc"
proof (induction a l n pc rule: sig_op_count.induct)
  case (1 a l n pc)
  show ?case
  proof (cases "GetOp2 pc")
    case (Some t)
    obtain opc v pc' where t: "t = (opc, v, pc')" by (cases t)
    define n' where "n' = (if opc = OP_CHECKSIG \<or> opc = OP_CHECKSIGVERIFY then n + 1
        else if opc = OP_CHECKMULTISIG \<or> opc = OP_CHECKMULTISIGVERIFY then
          (if a \<and> l \<ge> OP_1 \<and> l \<le> OP_16 then n + the (DecodeOP_N l) else n + 20) else n)"
    have "n' \<le> n + 20" using DecodeOP_N_le [of l] by (auto simp: n'_def)
    moreover have "length pc' < length pc" using GetOp2_shorter Some t by blast
    moreover have "sig_op_count a opc n' pc' \<le> n' + 20 * length pc'"
      using 1 [OF Some [unfolded t] refl refl n'_def] .
    moreover have "sig_op_count a l n pc = sig_op_count a opc n' pc'"
      using Some t by (simp add: sig_op_count.simps [of a l n pc] n'_def)
    ultimately show ?thesis by linarith
  qed (simp add: sig_op_count.simps [of a l n pc])
qed

text \<open>
  The count is at most twenty per byte, so the 32-bit counter of the source cannot wrap
  for any script that fits a block.
\<close>

lemma GetSigOpCount_bound: "GetSigOpCount script fAccurate \<le> 20 * length script"
  using sig_op_count_le [of fAccurate OP_INVALIDOPCODE 0 script] by (simp add: GetSigOpCount_def)

end
