(* ===== verification/Standard.thy ===== *)
theory Standard
  imports Script
begin

text \<open>
  Standard scripts (\<open>script/standard.cpp\<close>) and public key bytes (\<open>pubkey.h\<close>): matching a
  script against the templates, the destinations it pays, and the scripts built for a
  destination or a multisignature. \<open>Hash160\<close> and the process-wide settings
  \<open>-datacarrier\<close> and \<open>nMaxDatacarrierBytes\<close> are arguments.
\<close>

datatype txnouttype = TX_NONSTANDARD | TX_PUBKEY | TX_PUBKEYHASH | TX_SCRIPTHASH | TX_MULTISIG | TX_NULL_DATA

definition MAX_OP_RETURN_RELAY :: nat where "MAX_OP_RETURN_RELAY = 80"

text \<open>
  The templates in the order in which the \<open>multimap\<close> iterates over them: by key, and in
  insertion order for equal keys.
\<close>

definition mTemplates :: "bool \<Rightarrow> (txnouttype \<times> CScript) list" where
  "mTemplates datacarrier =
     [(TX_PUBKEY, push_opcode (push_opcode [] OP_PUBKEY) OP_CHECKSIG),
      (TX_PUBKEYHASH, push_opcode (push_opcode (push_opcode (push_opcode (push_opcode []
          OP_DUP) OP_HASH160) OP_PUBKEYHASH) OP_EQUALVERIFY) OP_CHECKSIG),
      (TX_MULTISIG, push_opcode (push_opcode (push_opcode (push_opcode []
          OP_SMALLINTEGER) OP_PUBKEYS) OP_SMALLINTEGER) OP_CHECKMULTISIG)] @
     (if datacarrier then [(TX_NULL_DATA, push_opcode (push_opcode [] OP_RETURN) OP_SMALLDATA)] else []) @
     [(TX_NULL_DATA, push_opcode [] OP_RETURN)]"

text \<open>
  The inner loop for \<open>OP_PUBKEYS\<close>: collects public keys and returns the first instruction
  that is not one. When \<open>GetOp\<close> fails the opcode is \<open>OP_INVALIDOPCODE\<close> with no data.
\<close>

function collect_pubkeys ::
  "opcodetype \<Rightarrow> bytes \<Rightarrow> CScript \<Rightarrow> bytes list \<Rightarrow> opcodetype \<times> bytes \<times> CScript \<times> bytes list" where
  "collect_pubkeys opcode1 vch1 pc1 vSolutions =
     (if length vch1 \<ge> 33 \<and> length vch1 \<le> 65 then
        (case GetOp2 pc1 of
           None \<Rightarrow> (OP_INVALIDOPCODE, [], pc1, vSolutions @ [vch1])
         | Some (opcode1', vch1', pc1') \<Rightarrow> collect_pubkeys opcode1' vch1' pc1' (vSolutions @ [vch1]))
      else (opcode1, vch1, pc1, vSolutions))"
  by pat_completeness auto
termination
  by (relation "measure (\<lambda>(_, _, pc, _). length pc)") (auto dest: GetOp2_shorter)

declare collect_pubkeys.simps [simp del]

text \<open>
  One comparison of an instruction with a template instruction: the new solutions, or
  \<^const>\<open>None\<close> for \<open>break\<close>.
\<close>

definition match_opcode ::
  "nat \<Rightarrow> opcodetype \<Rightarrow> bytes \<Rightarrow> opcodetype \<Rightarrow> bytes \<Rightarrow> bytes list \<Rightarrow> bytes list option" where
  "match_opcode nMaxDatacarrierBytes opcode1 vch1 opcode2 vch2 vSolutions =
     (if opcode2 = OP_PUBKEY then
        if length vch1 < 33 \<or> length vch1 > 65 then None else Some (vSolutions @ [vch1])
      else if opcode2 = OP_PUBKEYHASH then
        if length vch1 \<noteq> 20 then None else Some (vSolutions @ [vch1])
      else if opcode2 = OP_SMALLINTEGER then
        if opcode1 = OP_0 \<or> (opcode1 \<ge> OP_1 \<and> opcode1 \<le> OP_16)
        then Some (vSolutions @ [[of_nat (the (DecodeOP_N opcode1))]]) else None
      else if opcode2 = OP_SMALLDATA then
        if length vch1 > nMaxDatacarrierBytes then None else Some vSolutions
      else if opcode1 \<noteq> opcode2 \<or> vch1 \<noteq> vch2 then None
      else Some vSolutions)"

function match_template :: "nat \<Rightarrow> CScript \<Rightarrow> CScript \<Rightarrow> bytes list \<Rightarrow> bytes list option" where
  "match_template maxdata pc1 pc2 vSolutions =
     (if pc1 = [] \<and> pc2 = [] then Some vSolutions
      else case GetOp2 pc1 of None \<Rightarrow> None
      | Some (opcode1, vch1, pc1') \<Rightarrow>
        (case GetOp2 pc2 of None \<Rightarrow> None
         | Some (opcode2, vch2, pc2') \<Rightarrow>
           if opcode2 = OP_PUBKEYS then
             (case collect_pubkeys opcode1 vch1 pc1' vSolutions of (opcode1, vch1, pc1'', vSolutions) \<Rightarrow>
                case GetOp2 pc2' of None \<Rightarrow> None
                | Some (opcode2, vch2, pc2'') \<Rightarrow>
                    (case match_opcode maxdata opcode1 vch1 opcode2 vch2 vSolutions of None \<Rightarrow> None
                     | Some vSolutions \<Rightarrow> match_template maxdata pc1'' pc2'' vSolutions))
           else
             (case match_opcode maxdata opcode1 vch1 opcode2 vch2 vSolutions of None \<Rightarrow> None
              | Some vSolutions \<Rightarrow> match_template maxdata pc1' pc2' vSolutions)))"
  by pat_completeness auto
termination
  by (relation "measure (\<lambda>(_, _, pc2, _). length pc2)") (auto dest!: GetOp2_shorter)

declare match_template.simps [simp del]

definition multisig_ok :: "bytes list \<Rightarrow> bool" where
  "multisig_ok vSolutions \<longleftrightarrow>
     (let m = hd (hd vSolutions); n = hd (last vSolutions)
      in \<not> (m < 1 \<or> n < 1 \<or> m > n \<or> length vSolutions - 2 \<noteq> unat n))"

primrec scan_templates ::
  "nat \<Rightarrow> CScript \<Rightarrow> (txnouttype \<times> CScript) list \<Rightarrow> bool \<times> txnouttype \<times> bytes list" where
  "scan_templates maxdata script [] = (False, TX_NONSTANDARD, [])"
| "scan_templates maxdata script (t # ts) =
     (case match_template maxdata script (snd t) [] of
        Some vSolutions \<Rightarrow>
          if fst t = TX_MULTISIG \<and> \<not> multisig_ok vSolutions then (False, fst t, vSolutions)
          else (True, fst t, vSolutions)
      | None \<Rightarrow> scan_templates maxdata script ts)"

definition Solver :: "bool \<Rightarrow> nat \<Rightarrow> CScript \<Rightarrow> bool \<times> txnouttype \<times> bytes list" where
  "Solver datacarrier maxdata scriptPubKey =
     (if IsPayToScriptHash scriptPubKey then (True, TX_SCRIPTHASH, [take 20 (drop 2 scriptPubKey)])
      else scan_templates maxdata scriptPubKey (mTemplates datacarrier))"

definition ScriptSigArgsExpected :: "txnouttype \<Rightarrow> bytes list \<Rightarrow> int" where
  "ScriptSigArgsExpected t vSolutions =
     (case t of
        TX_NONSTANDARD \<Rightarrow> - 1
      | TX_NULL_DATA \<Rightarrow> - 1
      | TX_PUBKEY \<Rightarrow> 1
      | TX_PUBKEYHASH \<Rightarrow> 2
      | TX_MULTISIG \<Rightarrow>
          if length vSolutions < 1 \<or> length (vSolutions ! 0) < 1 then - 1
          else int (unat (vSolutions ! 0 ! 0)) + 1
      | TX_SCRIPTHASH \<Rightarrow> 1)"

definition IsStandard :: "bool \<Rightarrow> nat \<Rightarrow> CScript \<Rightarrow> bool \<times> txnouttype" where
  "IsStandard datacarrier maxdata scriptPubKey =
     (case Solver datacarrier maxdata scriptPubKey of (ok, whichType, vSolutions) \<Rightarrow>
        if \<not> ok then (False, whichType)
        else if whichType = TX_MULTISIG \<and>
          (let m = hd (hd vSolutions); n = hd (last vSolutions) in n < 1 \<or> n > 3 \<or> m < 1 \<or> m > n)
        then (False, whichType)
        else (whichType \<noteq> TX_NONSTANDARD, whichType))"

section \<open>Public keys and destinations\<close>

text \<open>
  A \<open>CPubKey\<close> is the list of its bytes; the invalid key is the header byte \<open>0xFF\<close>, whose
  length is zero.
\<close>

type_synonym CPubKey = bytes

definition PUBLIC_KEY_SIZE :: nat where "PUBLIC_KEY_SIZE = 65"
definition COMPRESSED_PUBLIC_KEY_SIZE :: nat where "COMPRESSED_PUBLIC_KEY_SIZE = 33"

definition GetLen :: "byte \<Rightarrow> nat" where
  "GetLen chHeader =
     (if chHeader = 2 \<or> chHeader = 3 then COMPRESSED_PUBLIC_KEY_SIZE
      else if chHeader = 4 \<or> chHeader = 6 \<or> chHeader = 7 then PUBLIC_KEY_SIZE else 0)"

definition CPubKey_invalid :: CPubKey where "CPubKey_invalid = [0xFF]"

definition CPubKey_Set :: "bytes \<Rightarrow> CPubKey" where
  "CPubKey_Set vch =
     (let len = (if vch = [] then 0 else GetLen (hd vch))
      in if len \<noteq> 0 \<and> len = length vch then vch else CPubKey_invalid)"

definition CPubKey_size :: "CPubKey \<Rightarrow> nat" where "CPubKey_size key = GetLen (hd key)"

definition CPubKey_IsValid :: "CPubKey \<Rightarrow> bool" where "CPubKey_IsValid key \<longleftrightarrow> CPubKey_size key > 0"

definition CPubKey_bytes :: "CPubKey \<Rightarrow> bytes" where "CPubKey_bytes key = take (CPubKey_size key) key"

definition CPubKey_GetID :: "(bytes \<Rightarrow> uint160) \<Rightarrow> CPubKey \<Rightarrow> uint160" where
  "CPubKey_GetID Hash160 key = Hash160 (CPubKey_bytes key)"

datatype CTxDestination = CNoDestination | CKeyID uint160 | CScriptID uint160

definition ExtractDestination ::
  "bool \<Rightarrow> nat \<Rightarrow> (bytes \<Rightarrow> uint160) \<Rightarrow> CScript \<Rightarrow> CTxDestination option \<times> txnouttype" where
  "ExtractDestination datacarrier maxdata Hash160 scriptPubKey =
     (case Solver datacarrier maxdata scriptPubKey of (ok, whichType, vSolutions) \<Rightarrow>
        if \<not> ok then (None, whichType)
        else case whichType of
          TX_PUBKEY \<Rightarrow>
            (let pubKey = CPubKey_Set (vSolutions ! 0)
             in (if CPubKey_IsValid pubKey then Some (CKeyID (CPubKey_GetID Hash160 pubKey)) else None, whichType))
        | TX_PUBKEYHASH \<Rightarrow> (Some (CKeyID (vSolutions ! 0)), whichType)
        | TX_SCRIPTHASH \<Rightarrow> (Some (CScriptID (vSolutions ! 0)), whichType)
        | _ \<Rightarrow> (None, whichType))"

definition ExtractDestinations ::
  "bool \<Rightarrow> nat \<Rightarrow> (bytes \<Rightarrow> uint160) \<Rightarrow> CScript \<Rightarrow> (CTxDestination list \<times> nat) option \<times> txnouttype" where
  "ExtractDestinations datacarrier maxdata Hash160 scriptPubKey =
     (case Solver datacarrier maxdata scriptPubKey of (ok, typeRet, vSolutions) \<Rightarrow>
        if \<not> ok then (None, typeRet)
        else if typeRet = TX_NULL_DATA then (None, typeRet)
        else if typeRet = TX_MULTISIG then
          (let nRequired = unat (hd (hd vSolutions));
               keys = filter CPubKey_IsValid (map CPubKey_Set (butlast (tl vSolutions)));
               addressRet = map (\<lambda>k. CKeyID (CPubKey_GetID Hash160 k)) keys
           in (if addressRet = [] then None else Some (addressRet, nRequired), typeRet))
        else
          (case fst (ExtractDestination datacarrier maxdata Hash160 scriptPubKey) of
             None \<Rightarrow> (None, typeRet)
           | Some address \<Rightarrow> (Some ([address], 1), typeRet)))"

fun GetScriptForDestination :: "CTxDestination \<Rightarrow> CScript" where
  "GetScriptForDestination CNoDestination = []"
| "GetScriptForDestination (CKeyID keyID) =
     push_opcode (push_opcode (push_data (push_opcode (push_opcode [] OP_DUP) OP_HASH160) keyID)
       OP_EQUALVERIFY) OP_CHECKSIG"
| "GetScriptForDestination (CScriptID scriptID) =
     push_opcode (push_data (push_opcode [] OP_HASH160) scriptID) OP_EQUAL"

definition GetScriptForMultisig :: "int \<Rightarrow> CPubKey list \<Rightarrow> CScript option" where
  "GetScriptForMultisig nRequired keys =
     (case EncodeOP_N nRequired of None \<Rightarrow> None
      | Some opm \<Rightarrow>
        (case EncodeOP_N (int (length keys)) of None \<Rightarrow> None
         | Some opn \<Rightarrow>
             Some (push_opcode (push_opcode
               (fold (\<lambda>key script. push_data script (CPubKey_bytes key)) keys (push_opcode [] opm)) opn)
               OP_CHECKMULTISIG)))"

fun IsValidDestination :: "CTxDestination \<Rightarrow> bool" where
  "IsValidDestination CNoDestination = False"
| "IsValidDestination _ = True"

fun IsKeyDestination :: "CTxDestination \<Rightarrow> bool" where
  "IsKeyDestination (CKeyID _) = True"
| "IsKeyDestination _ = False"

fun IsScriptDestination :: "CTxDestination \<Rightarrow> bool" where
  "IsScriptDestination (CScriptID _) = True"
| "IsScriptDestination _ = False"

fun GetTxDestinationHash :: "CTxDestination \<Rightarrow> (uint160 \<times> ScriptType) option" where
  "GetTxDestinationHash CNoDestination = None"
| "GetTxDestinationHash (CKeyID x) = Some (x, P2PKH)"
| "GetTxDestinationHash (CScriptID x) = Some (x, P2SH)"

fun DestFromAddressHash :: "ScriptType \<Rightarrow> uint160 \<Rightarrow> CTxDestination" where
  "DestFromAddressHash P2PKH addressHash = CKeyID addressHash"
| "DestFromAddressHash P2SH addressHash = CScriptID addressHash"
| "DestFromAddressHash UNKNOWN addressHash = CNoDestination"

section \<open>Matching symbolic scripts\<close>

lemma push_data_20: "length d = 20 \<Longrightarrow> push_data s d = s @ 20 # d"
  by (simp add: push_data_def)

lemma GetOp2_data:
  "0 < length d \<Longrightarrow> length d < 0x4c \<Longrightarrow> GetOp2 (of_nat (length d) # d @ r) = Some (of_nat (length d), d, r)"
  using GetOp2_push_data [of d r] by (simp add: push_data_def push_opcode_for_def)

lemma GetOp2_opcode': "\<not> opcode \<le> OP_PUSHDATA4 \<Longrightarrow> GetOp2 (opcode # r) = Some (opcode, [], r)"
  by (simp add: GetOp2_opcode not_le)

lemma match_template_step:
  assumes "GetOp2 pc1 = Some (opcode1, vch1, pc1')" "GetOp2 pc2 = Some (opcode2, vch2, pc2')" "opcode2 \<noteq> OP_PUBKEYS"
  shows "match_template maxdata pc1 pc2 sols =
     (case match_opcode maxdata opcode1 vch1 opcode2 vch2 sols of None \<Rightarrow> None
      | Some sols \<Rightarrow> match_template maxdata pc1' pc2' sols)"
proof -
  have "pc1 \<noteq> []" using assms(1) by auto
  with assms show ?thesis by (simp add: match_template.simps [of maxdata pc1])
qed

lemma match_template_Nil: "match_template maxdata [] [] sols = Some sols"
  by (simp add: match_template.simps)

lemmas match_simps = push_opcode_def GetOp2_opcode' match_template_step match_template_Nil match_opcode_def

lemma GetOp2_hash: "length h = 20 \<Longrightarrow> GetOp2 (20 # h @ r) = Some (20, h, r)"
  using GetOp2_data [of h r] by simp

lemma nth_24: "length h = 20 \<Longrightarrow> (h @ xs) ! 20 = xs ! 0 \<and> (h @ xs) ! 21 = xs ! 1"
  by (simp add: nth_append)

text \<open>
  C38. The script paying to a key or script hash is classified as such, yields back the
  destination and the hash, and the address index rebuilds the destination from them.
\<close>

theorem destination_roundtrip:
  assumes "GetTxDestinationHash dest = Some (h, t)" "length h = 20"
  shows "ExtractDestination datacarrier maxdata Hash160 (GetScriptForDestination dest) =
      (Some dest, if t = P2PKH then TX_PUBKEYHASH else TX_SCRIPTHASH)
    \<and> GetType (GetScriptForDestination dest) = t
    \<and> AddressHash (GetScriptForDestination dest) = h
    \<and> DestFromAddressHash t h = dest"
  using assms
  by (cases dest)
    (auto simp: ExtractDestination_def Solver_def IsPayToScriptHash_def IsPayToPublicKeyHash_def GetType_def
      AddressHash_def push_data_20 mTemplates_def match_simps GetOp2_hash nth_append)

theorem destination_roundtrip_witness:
  "ExtractDestination True 80 (\<lambda>_. []) (GetScriptForDestination (CScriptID (replicate 20 7))) =
     (Some (CScriptID (replicate 20 7)), TX_SCRIPTHASH)"
  using destination_roundtrip [of "CScriptID (replicate 20 7)" "replicate 20 7" P2SH True 80 "\<lambda>_. []"] by simp

section \<open>Multisignature scripts\<close>

definition key_push :: "bytes \<Rightarrow> CScript" where
  "key_push key = of_nat (length key) # key"

definition key_sized :: "bytes \<Rightarrow> bool" where
  "key_sized key \<longleftrightarrow> 33 \<le> length key \<and> length key \<le> 65"

lemma GetOp2_key: "key_sized key \<Longrightarrow> GetOp2 (key_push key @ r) = Some (of_nat (length key), key, r)"
  using GetOp2_data [of key r] by (cases "key = []") (simp_all add: key_push_def key_sized_def)

lemma push_data_key: "key_sized key \<Longrightarrow> push_data script key = script @ key_push key"
  by (simp add: push_data_def key_push_def key_sized_def)

lemma fold_push_keys:
  "list_all key_sized keys \<Longrightarrow>
   fold (\<lambda>key script. push_data script key) keys script = script @ concat (map key_push keys)"
  by (induction keys arbitrary: script) (simp_all add: push_data_key)

lemma collect_pubkeys_all:
  assumes "key_sized key" "list_all key_sized keys" "\<not> opn \<le> OP_PUSHDATA4"
  shows "collect_pubkeys opcode key (concat (map key_push keys) @ opn # r) sols = (opn, [], r, sols @ key # keys)"
  using assms
proof (induction keys arbitrary: opcode key sols)
  case Nil
  then show ?case
    by (simp add: collect_pubkeys.simps [of opcode key] collect_pubkeys.simps [of opn "[]"] key_sized_def GetOp2_opcode')
next
  case (Cons k keys)
  then show ?case
    using GetOp2_key [of k "concat (map key_push keys) @ opn # r"]
    by (simp add: collect_pubkeys.simps [of opcode key] key_sized_def)
qed

text \<open>The body of a multisignature script, from its first key to its end.\<close>

lemma match_template_multisig:
  assumes "keys \<noteq> []" "list_all key_sized keys"
    and m: "OP_1 \<le> opm" "opm \<le> OP_16" and n: "OP_1 \<le> opn" "opn \<le> OP_16"
  shows "match_template maxdata (opm # concat (map key_push keys) @ [opn, OP_CHECKMULTISIG])
      [OP_SMALLINTEGER, OP_PUBKEYS, OP_SMALLINTEGER, OP_CHECKMULTISIG] [] =
    Some ([of_nat (the (DecodeOP_N opm))] # keys @ [[of_nat (the (DecodeOP_N opn))]])"
proof -
  obtain key ks where keys: "keys = key # ks" using assms(1) by (cases keys) auto
  have op: "\<not> opm \<le> OP_PUSHDATA4" "\<not> opn \<le> OP_PUSHDATA4" using m n by (auto simp: word_le_nat_alt)
  have g: "GetOp2 (key_push key @ concat (map key_push ks) @ [opn, OP_CHECKMULTISIG]) =
      Some (of_nat (length key), key, concat (map key_push ks) @ [opn, OP_CHECKMULTISIG])"
    using assms(2) by (intro GetOp2_key) (simp add: keys)
  have k: "match_template maxdata (key_push key @ concat (map key_push ks) @ [opn, OP_CHECKMULTISIG])
      [OP_PUBKEYS, OP_SMALLINTEGER, OP_CHECKMULTISIG] sols = Some (sols @ keys @ [[of_nat (the (DecodeOP_N opn))]])" for sols
    using assms(2) n op
    by (subst match_template.simps)
      (simp add: g keys GetOp2_opcode' collect_pubkeys_all match_opcode_def match_template_step match_template_Nil)
  show ?thesis using m op k by (simp add: keys match_simps)
qed

lemma EncodeOP_N_range:
  assumes "1 \<le> n" "n \<le> 16"
  obtains opn where "EncodeOP_N n = Some opn" "OP_1 \<le> opn" "opn \<le> OP_16" "DecodeOP_N opn = Some (nat n)"
proof -
  have "EncodeOP_N n = Some (word_of_int n + (OP_1 - 1))"
    using assms by (simp add: EncodeOP_N_def)
  moreover have "unat (word_of_int n + (OP_1 - 1) :: byte) = nat n + 0x50" by (rule unat_small_int_opcode [OF assms])
  ultimately show thesis
    using assms small_int_opcode(2) [OF assms] that [of "word_of_int n + (OP_1 - 1)"]
    by (simp add: word_le_nat_alt)
qed


lemma fold_push_pubkeys:
  "list_all (\<lambda>k. CPubKey_bytes k = k) keys \<Longrightarrow>
   fold (\<lambda>key script. push_data script (CPubKey_bytes key)) keys script = fold (\<lambda>key script. push_data script key) keys script"
  by (induction keys arbitrary: script) simp_all

lemma Solver_multisig_bytes:
  assumes "keys \<noteq> []" "length keys \<le> 16" "list_all key_sized keys" "1 \<le> m" "m \<le> int (length keys)"
    and opm: "EncodeOP_N m = Some opm" and opn: "EncodeOP_N (int (length keys)) = Some opn"
  shows "Solver datacarrier maxdata (opm # concat (map key_push keys) @ [opn, OP_CHECKMULTISIG]) =
    (True, TX_MULTISIG, [word_of_int m] # keys @ [[of_nat (length keys)]])"
proof -
  have lk: "1 \<le> int (length keys)" "int (length keys) \<le> 16" using assms(1,2) by (cases keys, auto)
  obtain op1 where m: "EncodeOP_N m = Some op1" "OP_1 \<le> op1" "op1 \<le> OP_16" "DecodeOP_N op1 = Some (nat m)"
    using assms(4,5) lk(2) by (elim EncodeOP_N_range [of m]) linarith+
  obtain op2 where n: "EncodeOP_N (int (length keys)) = Some op2" "OP_1 \<le> op2" "op2 \<le> OP_16"
      "DecodeOP_N op2 = Some (length keys)"
    using EncodeOP_N_range [OF lk] by auto
  have eqs: "op1 = opm" "op2 = opn" using m(1) n(1) opm opn by simp_all
  have "unat (of_nat (length keys) :: byte) = length keys" using assms(2) by (simp add: unat_of_nat)
  moreover have "unat (word_of_int m :: byte) = nat m" using assms lk by (intro unat_word_of_int_small) simp_all
  ultimately have ok: "multisig_ok ([word_of_int m] # keys @ [[of_nat (length keys)]])"
    using assms lk by (auto simp: multisig_ok_def word_less_nat_alt)
  have ops: "opm \<noteq> OP_DUP" "opm \<noteq> OP_HASH160" "\<not> opm \<le> OP_PUSHDATA4"
    using m(2,3) eqs by (auto simp: word_le_nat_alt)
  show ?thesis
    using match_template_multisig [OF assms(1,3) m(2,3) n(2,3), of maxdata] m n ok ops assms(4) eqs
    by (simp add: Solver_def IsPayToScriptHash_def mTemplates_def match_simps)
qed

text \<open>
  C34. A script built for \<open>m\<close> of \<open>n\<close> public keys is solved as a multisignature with exactly
  those parameters and keys, asks for one argument more than \<open>m\<close>, and is standard when
  there are at most three keys.
\<close>

theorem Solver_GetScriptForMultisig:
  assumes "keys \<noteq> []" "length keys \<le> 16" "1 \<le> m" "m \<le> int (length keys)" "list_all CPubKey_IsValid keys"
    and "list_all (\<lambda>k. length k = CPubKey_size k) keys"
  shows "\<exists>script. GetScriptForMultisig m keys = Some script
    \<and> Solver datacarrier maxdata script = (True, TX_MULTISIG, [word_of_int m] # keys @ [[of_nat (length keys)]])
    \<and> ScriptSigArgsExpected TX_MULTISIG ([word_of_int m] # keys @ [[of_nat (length keys)]]) = m + 1
    \<and> fst (IsStandard datacarrier maxdata script) = (length keys \<le> 3)"
proof -
  have sized: "list_all key_sized keys" and self: "list_all (\<lambda>k. CPubKey_bytes k = k) keys"
    using assms(5,6)
    by (auto simp: list_all_iff key_sized_def CPubKey_IsValid_def CPubKey_size_def CPubKey_bytes_def GetLen_def
        PUBLIC_KEY_SIZE_def COMPRESSED_PUBLIC_KEY_SIZE_def split: if_splits)
  have lk: "1 \<le> int (length keys)" "int (length keys) \<le> 16" using assms(1,2) by (cases keys, auto)
  obtain opm where opm: "EncodeOP_N m = Some opm"
    using assms by (elim EncodeOP_N_range [of m]) linarith+
  obtain opn where opn: "EncodeOP_N (int (length keys)) = Some opn"
    using EncodeOP_N_range [OF lk] by auto
  let ?s = "opm # concat (map key_push keys) @ [opn, OP_CHECKMULTISIG]"
  have "GetScriptForMultisig m keys = Some ?s"
    using opm opn by (simp add: GetScriptForMultisig_def fold_push_pubkeys [OF self] fold_push_keys [OF sized] push_opcode_def)
  moreover note solved = Solver_multisig_bytes [OF assms(1,2) sized assms(3,4) opm opn, of datacarrier maxdata]
  moreover have "unat (word_of_int m :: byte) = nat m" using assms lk by (intro unat_word_of_int_small) simp_all
  moreover from this lk have "fst (IsStandard datacarrier maxdata ?s) = (length keys \<le> 3)"
    using solved assms by (auto simp: IsStandard_def word_less_nat_alt Let_def unat_of_nat)
  ultimately show ?thesis using assms(3) by (simp add: ScriptSigArgsExpected_def)
qed


theorem Solver_GetScriptForMultisig_witness:
  "\<exists>script. GetScriptForMultisig 1 [2 # replicate 32 1, 3 # replicate 32 2] = Some script
    \<and> Solver True 80 script = (True, TX_MULTISIG, [[1], 2 # replicate 32 1, 3 # replicate 32 2, [2]])
    \<and> fst (IsStandard True 80 script)"
  using Solver_GetScriptForMultisig [of "[2 # replicate 32 1, 3 # replicate 32 2]" 1 True 80]
  by (auto simp: CPubKey_IsValid_def CPubKey_size_def GetLen_def COMPRESSED_PUBLIC_KEY_SIZE_def)

end
