(* ===== verification/Transaction.thy ===== *)
theory Transaction
  imports Amount Script
begin

text \<open>
  Transactions (\<open>primitives/transaction.h\<close>, \<open>primitives/transaction.cpp\<close>): outpoints,
  inputs, outputs, the Sapling descriptions, the versioned wire format, the conversions
  between \<open>CMutableTransaction\<close> and \<open>CTransaction\<close>, and the value sums. The two
  transaction types have the same fields; the cached hash of \<open>CTransaction\<close> is the
  argument \<open>SerializeHash\<close> applied to its serialization. A thrown \<open>runtime_error\<close> is
  \<^const>\<open>None\<close>.
\<close>

section \<open>Outpoints, inputs and outputs\<close>

record COutPoint =
  op_hash :: uint256
  op_n :: u32

definition SetNull :: COutPoint where
  "SetNull = \<lparr>op_hash = 0, op_n = UINT32_MAX\<rparr>"

definition OutPoint_IsNull :: "COutPoint \<Rightarrow> bool" where
  "OutPoint_IsNull p \<longleftrightarrow> op_hash p = 0 \<and> op_n p = UINT32_MAX"

record CTxIn =
  prevout :: COutPoint
  scriptSig :: CScript
  nSequence :: u32

definition CTxIn_make :: "COutPoint \<Rightarrow> CTxIn" where
  "CTxIn_make prevoutIn = \<lparr>prevout = prevoutIn, scriptSig = [], nSequence = UINT32_MAX\<rparr>"

definition CTxIn_IsFinal :: "CTxIn \<Rightarrow> bool" where
  "CTxIn_IsFinal i \<longleftrightarrow> nSequence i = UINT32_MAX"

record CTxOut =
  nValue :: CAmount
  scriptPubKey :: CScript

definition CTxOut_null :: CTxOut where
  "CTxOut_null = \<lparr>nValue = - 1, scriptPubKey = []\<rparr>"

definition CTxOut_IsNull :: "CTxOut \<Rightarrow> bool" where
  "CTxOut_IsNull out \<longleftrightarrow> nValue out = - 1"

definition ser_COutPoint :: "COutPoint \<Rightarrow> bytes" where
  "ser_COutPoint p = ser_uint256 (op_hash p) @ ser_writedata32 (op_n p)"

definition unser_COutPoint :: "COutPoint reader" where
  "unser_COutPoint =
     read_bind unser_uint256 (\<lambda>h. read_bind ser_readdata32 (\<lambda>k.
       read_return \<lparr>op_hash = h, op_n = k\<rparr>))"

definition ser_CTxIn :: "CTxIn \<Rightarrow> bytes" where
  "ser_CTxIn i = ser_COutPoint (prevout i) @ Serialize_bytes (scriptSig i) @ ser_writedata32 (nSequence i)"

definition unser_CTxIn :: "CTxIn reader" where
  "unser_CTxIn =
     read_bind unser_COutPoint (\<lambda>p. read_bind Unserialize_bytes (\<lambda>s. read_bind ser_readdata32 (\<lambda>q.
       read_return \<lparr>prevout = p, scriptSig = s, nSequence = q\<rparr>)))"

definition ser_CTxOut :: "CTxOut \<Rightarrow> bytes" where
  "ser_CTxOut out = ser_int64 (nValue out) @ Serialize_bytes (scriptPubKey out)"

definition unser_CTxOut :: "CTxOut reader" where
  "unser_CTxOut =
     read_bind unser_int64 (\<lambda>v. read_bind Unserialize_bytes (\<lambda>s.
       read_return \<lparr>nValue = v, scriptPubKey = s\<rparr>))"

definition GetDustThreshold :: "CTxOut \<Rightarrow> CFeeRate \<Rightarrow> CAmount" where
  "GetDustThreshold out minRelayTxFee =
     (if IsUnspendable (scriptPubKey out) then 0
      else 3 * GetFee minRelayTxFee (of_nat (length (ser_CTxOut out) + 148)))"

definition IsDust :: "CTxOut \<Rightarrow> CFeeRate \<Rightarrow> bool" where
  "IsDust out minRelayTxFee \<longleftrightarrow> nValue out < GetDustThreshold out minRelayTxFee"

section \<open>Sapling descriptions\<close>

definition GROTH_PROOF_SIZE :: nat where "GROTH_PROOF_SIZE = 48 + 96 + 48"
definition ZC_SAPLING_ENCCIPHERTEXT_SIZE :: nat where
  "ZC_SAPLING_ENCCIPHERTEXT_SIZE = (1 + 11 + 8 + 32 + 512) + 16"
definition ZC_SAPLING_OUTCIPHERTEXT_SIZE :: nat where
  "ZC_SAPLING_OUTCIPHERTEXT_SIZE = (32 + 32) + 16"

record SpendDescription =
  spend_cv :: uint256
  anchor :: uint256
  nullifier :: uint256
  spend_rk :: uint256
  spend_zkproof :: bytes
  spendAuthSig :: bytes

record OutputDescription =
  output_cv :: uint256
  output_cm :: uint256
  ephemeralKey :: uint256
  encCiphertext :: bytes
  outCiphertext :: bytes
  output_zkproof :: bytes

definition ser_SpendDescription :: "SpendDescription \<Rightarrow> bytes" where
  "ser_SpendDescription d =
     ser_uint256 (spend_cv d) @ ser_uint256 (anchor d) @ ser_uint256 (nullifier d) @ ser_uint256 (spend_rk d) @
     ser_array (spend_zkproof d) @ ser_array (spendAuthSig d)"

definition unser_SpendDescription :: "SpendDescription reader" where
  "unser_SpendDescription =
     read_bind unser_uint256 (\<lambda>c. read_bind unser_uint256 (\<lambda>a. read_bind unser_uint256 (\<lambda>k.
     read_bind unser_uint256 (\<lambda>r. read_bind (unser_array GROTH_PROOF_SIZE) (\<lambda>p.
     read_bind (unser_array 64) (\<lambda>s.
       read_return \<lparr>spend_cv = c, anchor = a, nullifier = k, spend_rk = r, spend_zkproof = p, spendAuthSig = s\<rparr>))))))"

definition ser_OutputDescription :: "OutputDescription \<Rightarrow> bytes" where
  "ser_OutputDescription d =
     ser_uint256 (output_cv d) @ ser_uint256 (output_cm d) @ ser_uint256 (ephemeralKey d) @
     ser_array (encCiphertext d) @ ser_array (outCiphertext d) @ ser_array (output_zkproof d)"

definition unser_OutputDescription :: "OutputDescription reader" where
  "unser_OutputDescription =
     read_bind unser_uint256 (\<lambda>c. read_bind unser_uint256 (\<lambda>m. read_bind unser_uint256 (\<lambda>k.
     read_bind (unser_array ZC_SAPLING_ENCCIPHERTEXT_SIZE) (\<lambda>e.
     read_bind (unser_array ZC_SAPLING_OUTCIPHERTEXT_SIZE) (\<lambda>d.
     read_bind (unser_array GROTH_PROOF_SIZE) (\<lambda>p.
       read_return \<lparr>output_cv = c, output_cm = m, ephemeralKey = k, encCiphertext = e, outCiphertext = d,
         output_zkproof = p\<rparr>))))))"


section \<open>Transactions\<close>

record CTransaction =
  fOverwintered :: bool
  nVersion :: int
  nVersionGroupId :: u32
  vin :: "CTxIn list"
  vout :: "CTxOut list"
  nLockTime :: u32
  nExpiryHeight :: u32
  valueBalance :: CAmount
  vShieldedSpend :: "SpendDescription list"
  vShieldedOutput :: "OutputDescription list"
  bindingSig :: bytes

type_synonym CMutableTransaction = CTransaction

definition SPROUT_MIN_CURRENT_VERSION :: int where "SPROUT_MIN_CURRENT_VERSION = 1"
definition OVERWINTER_TX_VERSION :: int where "OVERWINTER_TX_VERSION = 3"
definition SAPLING_TX_VERSION :: int where "SAPLING_TX_VERSION = 4"
definition OVERWINTER_VERSION_GROUP_ID :: u32 where "OVERWINTER_VERSION_GROUP_ID = 0x03C48270"
definition SAPLING_VERSION_GROUP_ID :: u32 where "SAPLING_VERSION_GROUP_ID = 0x892F2085"

lemmas tx_consts = OVERWINTER_TX_VERSION_def SAPLING_TX_VERSION_def
  OVERWINTER_VERSION_GROUP_ID_def SAPLING_VERSION_GROUP_ID_def

definition no_binding_sig :: bytes where "no_binding_sig = replicate 64 0"

definition CMutableTransaction_default :: CMutableTransaction where
  "CMutableTransaction_default =
     \<lparr>fOverwintered = False, nVersion = SPROUT_MIN_CURRENT_VERSION, nVersionGroupId = 0, vin = [], vout = [],
      nLockTime = 0, nExpiryHeight = 0, valueBalance = 0, vShieldedSpend = [], vShieldedOutput = [],
      bindingSig = no_binding_sig\<rparr>"

text \<open>\<open>CTransaction(const CMutableTransaction &tx)\<close> copies every field.\<close>

definition CTransaction_copy :: "CMutableTransaction \<Rightarrow> CTransaction" where
  "CTransaction_copy tx =
     \<lparr>fOverwintered = fOverwintered tx, nVersion = nVersion tx, nVersionGroupId = nVersionGroupId tx,
      vin = vin tx, vout = vout tx, nLockTime = nLockTime tx, nExpiryHeight = nExpiryHeight tx,
      valueBalance = valueBalance tx, vShieldedSpend = vShieldedSpend tx,
      vShieldedOutput = vShieldedOutput tx, bindingSig = bindingSig tx\<rparr>"

text \<open>
  \<open>CTransaction(CMutableTransaction &&tx)\<close> has no initializer for \<open>bindingSig\<close>, which keeps
  its default member value.
\<close>

definition CTransaction_move :: "CMutableTransaction \<Rightarrow> CTransaction" where
  "CTransaction_move tx =
     \<lparr>fOverwintered = fOverwintered tx, nVersion = nVersion tx, nVersionGroupId = nVersionGroupId tx,
      vin = vin tx, vout = vout tx, nLockTime = nLockTime tx, nExpiryHeight = nExpiryHeight tx,
      valueBalance = valueBalance tx, vShieldedSpend = vShieldedSpend tx,
      vShieldedOutput = vShieldedOutput tx, bindingSig = no_binding_sig\<rparr>"

definition GetHeader :: "CTransaction \<Rightarrow> u32" where
  "GetHeader tx =
     (let header = word_of_int (nVersion tx)
      in if fOverwintered tx then header OR push_bit 31 1 else header)"

definition isOverwinterV3 :: "CTransaction \<Rightarrow> bool" where
  "isOverwinterV3 tx \<longleftrightarrow>
     fOverwintered tx \<and> nVersionGroupId tx = OVERWINTER_VERSION_GROUP_ID \<and> nVersion tx = OVERWINTER_TX_VERSION"

definition isSaplingV4 :: "CTransaction \<Rightarrow> bool" where
  "isSaplingV4 tx \<longleftrightarrow>
     fOverwintered tx \<and> nVersionGroupId tx = SAPLING_VERSION_GROUP_ID \<and> nVersion tx = SAPLING_TX_VERSION"

text \<open>
  The write side of \<open>SerializationOp\<close>. Since version 2 an empty \<open>std::vector<int>\<close> is
  written where join-splits used to be.
\<close>

definition Serialize_tx :: "CTransaction \<Rightarrow> bytes option" where
  "Serialize_tx tx =
     (if fOverwintered tx \<and> \<not> (isOverwinterV3 tx \<or> isSaplingV4 tx) then None
      else Some (
        ser_writedata32 (GetHeader tx) @
        (if fOverwintered tx then ser_writedata32 (nVersionGroupId tx) else []) @
        Serialize_vector ser_CTxIn (vin tx) @
        Serialize_vector ser_CTxOut (vout tx) @
        ser_writedata32 (nLockTime tx) @
        (if isOverwinterV3 tx \<or> isSaplingV4 tx then ser_writedata32 (nExpiryHeight tx) else []) @
        (if isSaplingV4 tx
         then ser_int64 (valueBalance tx) @
              Serialize_vector ser_SpendDescription (vShieldedSpend tx) @
              Serialize_vector ser_OutputDescription (vShieldedOutput tx)
         else []) @
        (if nVersion tx \<ge> 2 then Serialize_vector ser_writedata32 [] else []) @
        (if isSaplingV4 tx \<and> \<not> (vShieldedSpend tx = [] \<and> vShieldedOutput tx = [])
         then ser_array (bindingSig tx) else [])))"

text \<open>
  Items of a vector are read in chunks of \<open>5000000 / sizeof(T)\<close>; the sizes below are those
  of the 64-bit build.
\<close>

definition chunk_of :: "nat \<Rightarrow> nat" where "chunk_of itemSize = 5000000 div itemSize - 1"

definition read_if :: "bool \<Rightarrow> 'a reader \<Rightarrow> 'a \<Rightarrow> 'a reader" where
  "read_if c u d = (if c then u else read_return d)"

definition Unserialize_tx :: "CTransaction reader" where
  "Unserialize_tx =
     read_bind ser_readdata32 (\<lambda>header.
     let over = drop_bit 31 header \<noteq> 0; version = uint (header AND 0x7FFFFFFF) in
     read_bind (read_if over ser_readdata32 0) (\<lambda>groupId.
     let v3 = over \<and> groupId = OVERWINTER_VERSION_GROUP_ID \<and> version = OVERWINTER_TX_VERSION;
         v4 = over \<and> groupId = SAPLING_VERSION_GROUP_ID \<and> version = SAPLING_TX_VERSION in
     if over \<and> \<not> (v3 \<or> v4) then read_fail
     else
     read_bind (Unserialize_vector unser_CTxIn (chunk_of 80)) (\<lambda>ins.
     read_bind (Unserialize_vector unser_CTxOut (chunk_of 40)) (\<lambda>outs.
     read_bind ser_readdata32 (\<lambda>lockTime.
     read_bind (read_if (v3 \<or> v4) ser_readdata32 0) (\<lambda>expiry.
     read_bind (read_if v4 unser_int64 0) (\<lambda>balance.
     read_bind (read_if v4 (Unserialize_vector unser_SpendDescription (chunk_of 384)) []) (\<lambda>spends.
     read_bind (read_if v4 (Unserialize_vector unser_OutputDescription (chunk_of 948)) []) (\<lambda>outputs.
     read_bind (read_if (version \<ge> 2) (Unserialize_vector ser_readdata32 (chunk_of 4)) []) (\<lambda>_.
     read_bind (read_if (v4 \<and> \<not> (spends = [] \<and> outputs = [])) (unser_array 64) no_binding_sig) (\<lambda>sig.
       read_return
         \<lparr>fOverwintered = over, nVersion = version, nVersionGroupId = groupId, vin = ins, vout = outs,
          nLockTime = lockTime, nExpiryHeight = expiry, valueBalance = balance, vShieldedSpend = spends,
          vShieldedOutput = outputs, bindingSig = sig\<rparr>)))))))))))"

definition CTransaction_deserialize :: "CTransaction reader" where
  "CTransaction_deserialize =
     read_bind Unserialize_tx (\<lambda>tx. read_return (CTransaction_move tx))"

section \<open>Round trip of the wire format\<close>

definition wf_txin :: "CTxIn \<Rightarrow> bool" where
  "wf_txin i \<longleftrightarrow> fits_u64 (scriptSig i)"

definition wf_txout :: "CTxOut \<Rightarrow> bool" where
  "wf_txout out \<longleftrightarrow> is_int64 (nValue out) \<and> fits_u64 (scriptPubKey out)"

definition wf_spend :: "SpendDescription \<Rightarrow> bool" where
  "wf_spend d \<longleftrightarrow> length (spend_zkproof d) = GROTH_PROOF_SIZE \<and> length (spendAuthSig d) = 64"

definition wf_output :: "OutputDescription \<Rightarrow> bool" where
  "wf_output d \<longleftrightarrow> length (encCiphertext d) = ZC_SAPLING_ENCCIPHERTEXT_SIZE \<and>
     length (outCiphertext d) = ZC_SAPLING_OUTCIPHERTEXT_SIZE \<and> length (output_zkproof d) = GROTH_PROOF_SIZE"

definition wf_tx :: "CTransaction \<Rightarrow> bool" where
  "wf_tx tx \<longleftrightarrow>
     0 \<le> nVersion tx \<and> nVersion tx < 2 ^ 31 \<and>
     fits_u64 (vin tx) \<and> list_all wf_txin (vin tx) \<and> fits_u64 (vout tx) \<and> list_all wf_txout (vout tx) \<and>
     fits_u64 (vShieldedSpend tx) \<and> list_all wf_spend (vShieldedSpend tx) \<and>
     fits_u64 (vShieldedOutput tx) \<and> list_all wf_output (vShieldedOutput tx) \<and>
     is_int64 (valueBalance tx) \<and> length (bindingSig tx) = 64 \<and>
     (if fOverwintered tx then isOverwinterV3 tx \<or> isSaplingV4 tx
      else nVersionGroupId tx = 0 \<and> nExpiryHeight tx = 0) \<and>
     (\<not> isSaplingV4 tx \<longrightarrow> valueBalance tx = 0 \<and> vShieldedSpend tx = [] \<and> vShieldedOutput tx = []) \<and>
     (vShieldedSpend tx = [] \<and> vShieldedOutput tx = [] \<longrightarrow> bindingSig tx = no_binding_sig)"

interpretation outpoint: codec ser_COutPoint unser_COutPoint "\<lambda>_. True"
  by unfold_locales (simp add: ser_COutPoint_def unser_COutPoint_def read_return_def)

interpretation txin: vector_codec ser_CTxIn unser_CTxIn wf_txin "chunk_of 80"
  by unfold_locales (simp add: ser_CTxIn_def unser_CTxIn_def read_return_def wf_txin_def)

interpretation txout: vector_codec ser_CTxOut unser_CTxOut wf_txout "chunk_of 40"
  by unfold_locales (simp add: ser_CTxOut_def unser_CTxOut_def read_return_def wf_txout_def)

interpretation spend: vector_codec ser_SpendDescription unser_SpendDescription wf_spend "chunk_of 384"
  by unfold_locales (simp add: ser_SpendDescription_def unser_SpendDescription_def read_return_def wf_spend_def)

interpretation sapling_output: vector_codec ser_OutputDescription unser_OutputDescription wf_output "chunk_of 948"
  by unfold_locales (simp add: ser_OutputDescription_def unser_OutputDescription_def read_return_def wf_output_def)

interpretation int32: vector_codec ser_writedata32 ser_readdata32 "\<lambda>_. True" "chunk_of 4"
  by unfold_locales

lemma header_parts:
  assumes "0 \<le> v" "v < 2 ^ 31"
  shows "drop_bit 31 (word_of_int v :: u32) = 0"
    and "drop_bit 31 (word_of_int v OR push_bit 31 1 :: u32) \<noteq> 0"
    and "uint ((word_of_int v :: u32) AND 0x7FFFFFFF) = v"
    and "uint ((word_of_int v OR push_bit 31 1 :: u32) AND 0x7FFFFFFF) = v"
proof -
  have u: "uint (word_of_int v :: u32) = v" using assms by (simp add: uint_word_of_int)
  have n: "unat (word_of_int v :: u32) = nat v" using assms by (intro unat_word_of_int_small) simp_all
  show d: "drop_bit 31 (word_of_int v :: u32) = 0"
    using assms by (simp only: word_unat_eq_iff unat_drop_bit n) simp
  show "drop_bit 31 (word_of_int v OR push_bit 31 1 :: u32) \<noteq> 0"
    using d by (simp add: drop_bit_or)
  have m: "w AND 0x7FFFFFFF = take_bit 31 w" for w :: u32
    by (simp add: take_bit_eq_mask mask_eq_exp_minus_1)
  have t: "take_bit 31 (word_of_int v :: u32) = word_of_int v"
    using d by (metis push_bit_of_0 bits_ident add_0)
  show "uint ((word_of_int v :: u32) AND 0x7FFFFFFF) = v" by (simp only: m t u)
  have "take_bit 31 (word_of_int v OR push_bit 31 1 :: u32) = take_bit 31 (word_of_int v)"
    by (simp add: take_bit_or take_bit_push_bit)
  then show "uint ((word_of_int v OR push_bit 31 1 :: u32) AND 0x7FFFFFFF) = v"
    by (simp only: m t u)
qed

lemma header_roundtrip:
  assumes "0 \<le> nVersion tx" "nVersion tx < 2 ^ 31"
  shows "drop_bit 31 (GetHeader tx) \<noteq> 0 \<longleftrightarrow> fOverwintered tx" "uint (GetHeader tx AND 0x7FFFFFFF) = nVersion tx"
  using header_parts [OF assms] by (simp_all add: GetHeader_def Let_def)

lemma read_bind_read_if: "read_bind (read_if c u d) f = (if c then read_bind u f else f d)"
  by (auto simp: read_if_def read_bind_def read_return_def)

lemma Unserialize_Serialize_tx:
  assumes "wf_tx tx" "Serialize_tx tx = Some bs"
  shows "Unserialize_tx (bs @ r) = Some (tx, r)"
proof -
  have v: "0 \<le> nVersion tx" "nVersion tx < 2 ^ 31" using assms(1) by (auto simp: wf_tx_def)
  note w = assms(1) [unfolded wf_tx_def list_all_iff]
  consider "\<not> fOverwintered tx" | "isOverwinterV3 tx" | "isSaplingV4 tx" using w by (auto split: if_splits)
  then show ?thesis
  proof cases
    case 1
    then have "\<not> isOverwinterV3 tx" "\<not> isSaplingV4 tx" by (simp_all add: isOverwinterV3_def isSaplingV4_def)
    with 1 assms(2) w show ?thesis
      by (cases "2 \<le> nVersion tx") (auto simp: Serialize_tx_def Unserialize_tx_def header_roundtrip [OF v] read_bind_read_if read_return_def)
  next
    case 2
    then have "\<not> isSaplingV4 tx" "2 \<le> nVersion tx" by (simp_all add: isOverwinterV3_def isSaplingV4_def tx_consts)
    with 2 assms(2) w show ?thesis
      by (auto simp: isOverwinterV3_def tx_consts Serialize_tx_def Unserialize_tx_def header_roundtrip [OF v] read_bind_read_if read_return_def)
  next
    case 3
    then have "\<not> isOverwinterV3 tx" "2 \<le> nVersion tx" by (simp_all add: isOverwinterV3_def isSaplingV4_def tx_consts)
    with 3 assms(2) w show ?thesis
      by (cases "vShieldedSpend tx = [] \<and> vShieldedOutput tx = []") (auto simp: isSaplingV4_def tx_consts Serialize_tx_def Unserialize_tx_def header_roundtrip [OF v] read_bind_read_if read_return_def)
  qed
qed

lemma Serialize_tx_wf: "wf_tx tx \<Longrightarrow> \<exists>bs. Serialize_tx tx = Some bs"
  by (auto simp: Serialize_tx_def wf_tx_def split: if_splits)

text \<open>
  C27. Every well-formed transaction (Sprout, Overwinter or Sapling) can be serialized, and
  reading the bytes gives the same transaction and leaves the rest of the stream.
\<close>

theorem transaction_roundtrip:
  "wf_tx tx \<Longrightarrow> \<exists>bs. Serialize_tx tx = Some bs \<and> Unserialize_tx (bs @ r) = Some (tx, r)"
  using Serialize_tx_wf Unserialize_Serialize_tx by blast

text \<open>
  C30. The deserializing constructor of \<open>CTransaction\<close> goes through the move constructor and
  therefore returns the transaction without its binding signature: it restores the
  transaction exactly when that signature was all zeros.
\<close>

theorem CTransaction_deserialize_binding_sig:
  assumes "wf_tx tx" "Serialize_tx tx = Some bs"
  shows "CTransaction_deserialize (bs @ r) = Some (tx\<lparr>bindingSig := no_binding_sig\<rparr>, r)
    \<and> (CTransaction_deserialize (bs @ r) = Some (tx, r) \<longleftrightarrow> bindingSig tx = no_binding_sig)"
  using Unserialize_Serialize_tx [OF assms, of r]
  by (cases tx) (auto simp: CTransaction_deserialize_def read_bind_def read_return_def CTransaction_move_def)

definition sample_shielded_tx :: CTransaction where
  "sample_shielded_tx =
     \<lparr>fOverwintered = True, nVersion = 4, nVersionGroupId = 0x892F2085, vin = [], vout = [\<lparr>nValue = 5, scriptPubKey = [OP_RETURN]\<rparr>],
      nLockTime = 0, nExpiryHeight = 7, valueBalance = 6,
      vShieldedSpend = [\<lparr>spend_cv = 1, anchor = 2, nullifier = 3, spend_rk = 4, spend_zkproof = replicate 192 9,
        spendAuthSig = replicate 64 8\<rparr>],
      vShieldedOutput = [], bindingSig = replicate 64 1\<rparr>"

lemma wf_sample_shielded_tx: "wf_tx sample_shielded_tx"
  by (simp add: wf_tx_def sample_shielded_tx_def fits_u64_def wf_txout_def wf_spend_def is_int64_def
      GROTH_PROOF_SIZE_def isSaplingV4_def tx_consts)

theorem transaction_roundtrip_witness:
  "\<exists>bs. Serialize_tx sample_shielded_tx = Some bs \<and> Unserialize_tx (bs @ [1]) = Some (sample_shielded_tx, [1])"
  by (rule transaction_roundtrip) (rule wf_sample_shielded_tx)

theorem CTransaction_deserialize_binding_sig_witness:
  "\<exists>bs. Serialize_tx sample_shielded_tx = Some bs \<and> CTransaction_deserialize (bs @ [1]) \<noteq> Some (sample_shielded_tx, [1])"
proof -
  obtain bs where bs: "Serialize_tx sample_shielded_tx = Some bs"
    using Serialize_tx_wf [OF wf_sample_shielded_tx] by blast
  have "bindingSig sample_shielded_tx \<noteq> no_binding_sig"
    by (simp add: sample_shielded_tx_def no_binding_sig_def replicate_eq_replicate)
  with bs CTransaction_deserialize_binding_sig [OF wf_sample_shielded_tx bs, of "[1]"] show ?thesis by blast
qed

text \<open>
  From version 2 on the reader accepts and discards any vector of 32-bit integers where
  the writer puts an empty one, so a transaction has more than one accepted encoding.
\<close>

lemma Unserialize_tx_discards_ints:
  assumes "wf_tx tx" "\<not> fOverwintered tx" "2 \<le> nVersion tx" "fits_u64 ints"
  shows "\<exists>pre. Serialize_tx tx = Some (pre @ Serialize_vector ser_writedata32 [])
    \<and> Unserialize_tx (pre @ Serialize_vector ser_writedata32 ints @ r) = Some (tx, r)"
proof -
  have v: "0 \<le> nVersion tx" "nVersion tx < 2 ^ 31" using assms(1) by (auto simp: wf_tx_def)
  have n: "\<not> isOverwinterV3 tx" "\<not> isSaplingV4 tx" using assms(2) by (simp_all add: isOverwinterV3_def isSaplingV4_def)
  let ?pre = "ser_writedata32 (GetHeader tx) @ Serialize_vector ser_CTxIn (vin tx) @
    Serialize_vector ser_CTxOut (vout tx) @ ser_writedata32 (nLockTime tx)"
  have "Serialize_tx tx = Some (?pre @ Serialize_vector ser_writedata32 [])"
    using assms n by (simp add: Serialize_tx_def)
  moreover have "Unserialize_tx (?pre @ Serialize_vector ser_writedata32 ints @ r) = Some (tx, r)"
    using assms n by (simp add: wf_tx_def list_all_iff Unserialize_tx_def header_roundtrip [OF v] read_bind_read_if read_return_def)
  ultimately show ?thesis by blast
qed

theorem Unserialize_tx_discards_ints_witness:
  "\<exists>pre. Serialize_tx (CMutableTransaction_default\<lparr>nVersion := 2\<rparr>) = Some (pre @ Serialize_vector ser_writedata32 [])
    \<and> Unserialize_tx (pre @ Serialize_vector ser_writedata32 [7, 8] @ []) = Some (CMutableTransaction_default\<lparr>nVersion := 2\<rparr>, [])"
  by (rule Unserialize_tx_discards_ints)
    (simp_all add: wf_tx_def CMutableTransaction_default_def fits_u64_def no_binding_sig_def is_int64_def isSaplingV4_def)

section \<open>Value sums\<close>

fun sum_outputs :: "CAmount \<Rightarrow> CTxOut list \<Rightarrow> CAmount option" where
  "sum_outputs nValueOut [] = Some nValueOut"
| "sum_outputs nValueOut (txOut # outs) =
     (let nValueOut = nValueOut + nValue txOut
      in if \<not> MoneyRange (nValue txOut) \<or> \<not> MoneyRange nValueOut then None else sum_outputs nValueOut outs)"

definition GetValueOut :: "CTransaction \<Rightarrow> CAmount option" where
  "GetValueOut tx =
     (case sum_outputs 0 (vout tx) of None \<Rightarrow> None
      | Some nValueOut \<Rightarrow>
          if valueBalance tx \<le> 0 then
            (let nValueOut = nValueOut + - valueBalance tx
             in if \<not> MoneyRange (- valueBalance tx) \<or> \<not> MoneyRange nValueOut then None else Some nValueOut)
          else Some nValueOut)"

definition GetShieldedValueIn :: "CTransaction \<Rightarrow> CAmount option" where
  "GetShieldedValueIn tx =
     (if valueBalance tx \<ge> 0 then
        (if \<not> MoneyRange (valueBalance tx) then None else Some (valueBalance tx))
      else Some 0)"

definition IsCoinBase :: "CTransaction \<Rightarrow> bool" where
  "IsCoinBase tx \<longleftrightarrow> length (vin tx) = 1 \<and> OutPoint_IsNull (prevout (vin tx ! 0))"

definition tx_IsNull :: "CTransaction \<Rightarrow> bool" where
  "tx_IsNull tx \<longleftrightarrow> vin tx = [] \<and> vout tx = []"

definition CalculateModifiedSize :: "CTransaction \<Rightarrow> nat \<Rightarrow> nat" where
  "CalculateModifiedSize tx nTxSize =
     fold (\<lambda>txIn size. let offset = 41 + min 110 (length (scriptSig txIn)) in if size > offset then size - offset else size)
       (vin tx) (if nTxSize = 0 then length (the (Serialize_tx tx)) else nTxSize)"

lemma sum_outputs_eq:
  "MoneyRange a \<Longrightarrow> sum_outputs a outs =
     (if (\<forall>out \<in> set outs. MoneyRange (nValue out)) \<and> MoneyRange (a + sum_list (map nValue outs))
      then Some (a + sum_list (map nValue outs)) else None)"
proof (induction outs arbitrary: a)
  case (Cons out outs)
  have nonneg: "\<forall>out \<in> set outs. MoneyRange (nValue out) \<Longrightarrow> 0 \<le> sum_list (map nValue outs)"
    by (intro sum_list_nonneg) (auto simp: MoneyRange_def)
  show ?case
  proof (cases "MoneyRange (nValue out) \<and> MoneyRange (a + nValue out)")
    case True
    then show ?thesis using Cons.IH [of "a + nValue out"] by (simp add: add.assoc)
  next
    case False
    then show ?thesis using Cons.prems nonneg by (auto simp: MoneyRange_def)
  qed
qed simp

text \<open>
  C29. \<open>GetValueOut\<close> returns the exact sum of the outputs plus the amount moved into the
  shielded pool, and throws exactly when one of these amounts or their total leaves the
  money range; no intermediate sum can hide an overflow.
\<close>

theorem GetValueOut_exact:
  "GetValueOut tx =
     (let total = sum_list (map nValue (vout tx)) + max 0 (- valueBalance tx)
      in if list_all (\<lambda>out. MoneyRange (nValue out)) (vout tx) \<and> MoneyRange (max 0 (- valueBalance tx))
            \<and> MoneyRange total
         then Some total else None)"
proof -
  have "MoneyRange 0" by (simp add: MoneyRange_def MAX_MONEY_def COIN_def)
  have nonneg: "\<forall>out \<in> set (vout tx). MoneyRange (nValue out) \<Longrightarrow> 0 \<le> sum_list (map nValue (vout tx))"
    by (intro sum_list_nonneg) (auto simp: MoneyRange_def)
  then show ?thesis
    using \<open>MoneyRange 0\<close>
    by (auto simp: GetValueOut_def sum_outputs_eq Let_def list_all_iff max_def MoneyRange_def)
qed

end
