(* ===== verification/P2FMS.thy ===== *)
theory P2FMS
  imports Transaction Standard
begin

text \<open>
  The encoding of pay-to-fake-multisig transactions, which carry tickets on chain
  (\<open>CreateP2FMSScripts\<close> of \<open>mnode/p2fms-txbuilder.cpp\<close> and the parser in
  \<open>mnode/ticket-processor.cpp\<close>): a data stream is cut into 33-byte fake keys, three per
  1-of-m multisignature output; the parser collects the fake keys again and checks length
  and hash. \<open>Hash\<close> (double SHA-256) is an argument.
\<close>

section \<open>Encoding data as fake multisignature scripts\<close>

definition FAKE_KEY_SIZE :: nat where "FAKE_KEY_SIZE = 33"
definition STREAM_DATA_POS :: nat where "STREAM_DATA_POS = 32 + 8"

definition vInputData :: "(bytes \<Rightarrow> uint256) \<Rightarrow> bytes \<Rightarrow> bytes" where
  "vInputData Hash input_stream =
     (let nDataSizeNotPadded = STREAM_DATA_POS + length input_stream;
          nPadding = FAKE_KEY_SIZE - nDataSizeNotPadded mod FAKE_KEY_SIZE
      in WriteLE64 (of_nat (length input_stream)) @ ser_uint256 (Hash input_stream) @ input_stream @
         replicate nPadding 0)"

text \<open>The inner loop: up to three chunks are pushed onto the script.\<close>

function add_chunks :: "CScript \<Rightarrow> nat \<Rightarrow> bytes \<Rightarrow> CScript \<times> nat \<times> bytes" where
  "add_chunks script m input =
     (if m < 3 \<and> input \<noteq> []
      then add_chunks (push_data script (take FAKE_KEY_SIZE input)) (m + 1) (drop FAKE_KEY_SIZE input)
      else (script, m, input))"
  by auto
termination
  by (relation "measure (\<lambda>(_, m, _). 3 - m)") auto

declare add_chunks.simps [simp del]

lemma add_chunks_shorter:
  "add_chunks script m input = (script', m', rest) \<Longrightarrow> length rest \<le> length input"
proof (induction script m input rule: add_chunks.induct)
  case (1 script m input)
  then show ?case
    by (cases "m < 3 \<and> input \<noteq> []") (auto simp: add_chunks.simps [of script m input] dest: diff_le_self [THEN order_trans, rotated])
qed

lemma add_chunks_step:
  assumes "input \<noteq> []" "add_chunks script 0 input = (script', m', rest)"
  shows "length rest < length input"
proof -
  have "length rest \<le> length (drop FAKE_KEY_SIZE input)"
    using add_chunks_shorter [of "push_data script (take FAKE_KEY_SIZE input)" 1 "drop FAKE_KEY_SIZE input"] assms
    by (simp add: add_chunks.simps [of script 0 input])
  with assms(1) show ?thesis by (cases input) (auto simp: FAKE_KEY_SIZE_def)
qed

function p2fms_scripts :: "bytes \<Rightarrow> CScript list" where
  "p2fms_scripts input =
     (if input = [] then []
      else case add_chunks (push_opcode [] (the (EncodeOP_N 1))) 0 input of
             (script, m, rest) \<Rightarrow>
               push_opcode (push_opcode script (the (EncodeOP_N (int m)))) OP_CHECKMULTISIG # p2fms_scripts rest)"
  by auto
termination
  by (relation "measure length") (simp, metis add_chunks_step in_measure)

declare p2fms_scripts.simps [simp del]

definition CreateP2FMSScripts :: "(bytes \<Rightarrow> uint256) \<Rightarrow> bytes \<Rightarrow> CScript list" where
  "CreateP2FMSScripts Hash input_stream = p2fms_scripts (vInputData Hash input_stream)"

section \<open>Parsing\<close>

datatype p2fms_error =
    NoDataMultisigs | NoDataFound | NoCorrectData | LengthNotMatching | HashNotMatching

definition collect_output ::
  "bool \<Rightarrow> nat \<Rightarrow> CTxOut \<Rightarrow> bytes \<times> nat \<times> CAmount \<Rightarrow> bytes \<times> nat \<times> CAmount" where
  "collect_output datacarrier maxdata out acc =
     (case acc of (output_data, nCount, nFee) \<Rightarrow>
        case Solver datacarrier maxdata (scriptPubKey out) of (ok, typeRet, vSolutions) \<Rightarrow>
          if \<not> ok \<or> typeRet \<noteq> TX_MULTISIG then acc
          else (output_data @ concat (butlast (tl vSolutions)), nCount + 1, nFee + nValue out))"

definition check_p2fms_data :: "(bytes \<Rightarrow> uint256) \<Rightarrow> nat \<Rightarrow> bytes \<Rightarrow> p2fms_error + bytes" where
  "check_p2fms_data Hash nMultiSigOutputsCount output_data =
     (if nMultiSigOutputsCount = 0 then Inl NoDataMultisigs
      else if output_data = [] then Inl NoDataFound
      else if length output_data < STREAM_DATA_POS then Inl NoCorrectData
      else
        let nOutputLength = ReadLE64 output_data;
            input_hash_stored = le_word (take 32 (drop 8 output_data));
            output_data = drop STREAM_DATA_POS output_data
        in if length output_data < unat nOutputLength then Inl LengthNotMatching
           else let output_data = take (unat nOutputLength) output_data
                in if input_hash_stored \<noteq> Hash output_data then Inl HashNotMatching else Inr output_data)"

definition ParseP2FMSTransaction ::
  "bool \<Rightarrow> nat \<Rightarrow> (bytes \<Rightarrow> uint256) \<Rightarrow> CTxOut list \<Rightarrow> (p2fms_error + bytes) \<times> nat \<times> CAmount" where
  "ParseP2FMSTransaction datacarrier maxdata Hash outs =
     (case fold (collect_output datacarrier maxdata) outs ([], 0, 0) of
        (output_data, nCount, nFee) \<Rightarrow> (check_p2fms_data Hash nCount output_data, nCount, nFee))"

section \<open>The parser inverts the encoding\<close>

definition is_multisig :: "bool \<Rightarrow> nat \<Rightarrow> CScript \<Rightarrow> bool" where
  "is_multisig dc maxdata script \<longleftrightarrow>
     (case Solver dc maxdata script of (ok, t, _) \<Rightarrow> ok \<and> t = TX_MULTISIG)"

definition fake_keys :: "bool \<Rightarrow> nat \<Rightarrow> CScript \<Rightarrow> bytes" where
  "fake_keys dc maxdata script = concat (butlast (tl (snd (snd (Solver dc maxdata script)))))"

lemma fold_collect_output:
  "fold (collect_output dc maxdata) outs (d, c, f) =
     (let ms = filter (is_multisig dc maxdata \<circ> scriptPubKey) outs
      in (d @ concat (map (fake_keys dc maxdata \<circ> scriptPubKey) ms), c + length ms, f + sum_list (map nValue ms)))"
proof (induction outs arbitrary: d c f)
  case (Cons out outs)
  then show ?case
    by (cases "Solver dc maxdata (scriptPubKey out)")
      (auto simp: collect_output_def is_multisig_def fake_keys_def Let_def)
qed simp

lemma add_chunks_keys:
  assumes "FAKE_KEY_SIZE dvd length input" "m \<le> 3"
  shows "\<exists>keys rest. add_chunks script m input = (script @ concat (map key_push keys), m + length keys, rest)
    \<and> input = concat keys @ rest \<and> list_all (\<lambda>k. length k = FAKE_KEY_SIZE) keys
    \<and> FAKE_KEY_SIZE dvd length rest \<and> m + length keys \<le> 3 \<and> (m < 3 \<and> input \<noteq> [] \<longrightarrow> keys \<noteq> [])"
  using assms
proof (induction script m input rule: add_chunks.induct)
  case (1 script m input)
  show ?case
  proof (cases "m < 3 \<and> input \<noteq> []")
    case False
    with 1 show ?thesis by (intro exI [of _ "[]"] exI [of _ input]) (auto simp: add_chunks.simps [of script m input])
  next
    case True
    let ?k = "take FAKE_KEY_SIZE input"
    have len: "FAKE_KEY_SIZE \<le> length input" using 1 True by (intro dvd_imp_le) auto
    then have k: "length ?k = FAKE_KEY_SIZE" by simp
    have "FAKE_KEY_SIZE dvd length (drop FAKE_KEY_SIZE input)" using 1 len by (simp add: dvd_diff_nat)
    moreover have "m + 1 \<le> 3" using True by simp
    ultimately obtain keys rest where
      *: "add_chunks (push_data script ?k) (m + 1) (drop FAKE_KEY_SIZE input) =
          (push_data script ?k @ concat (map key_push keys), m + 1 + length keys, rest)"
        "drop FAKE_KEY_SIZE input = concat keys @ rest" "list_all (\<lambda>k. length k = FAKE_KEY_SIZE) keys"
        "FAKE_KEY_SIZE dvd length rest" "m + 1 + length keys \<le> 3"
      using 1(1) [OF True] by blast
    have "push_data script ?k = script @ key_push ?k"
      using k by (intro push_data_key) (simp add: key_sized_def FAKE_KEY_SIZE_def)
    moreover have "input = ?k @ concat keys @ rest" using *(2) by (metis append_take_drop_id)
    ultimately show ?thesis using * True k
      by (intro exI [of _ "?k # keys"] exI [of _ rest]) (auto simp: add_chunks.simps [of script m input])
  qed
qed

lemma EncodeOP_N_1: "EncodeOP_N 1 = Some OP_1"
  by (simp add: EncodeOP_N_def)

lemma Solver_p2fms_script:
  assumes "keys \<noteq> []" "length keys \<le> 3" "list_all (\<lambda>k. length k = FAKE_KEY_SIZE) keys"
  shows "Solver dc maxdata (push_opcode (push_opcode (push_opcode [] (the (EncodeOP_N 1)) @ concat (map key_push keys))
      (the (EncodeOP_N (int (length keys))))) OP_CHECKMULTISIG) =
    (True, TX_MULTISIG, [1] # keys @ [[of_nat (length keys)]])"
proof -
  have "list_all key_sized keys" using assms(3) by (auto simp: list_all_iff key_sized_def FAKE_KEY_SIZE_def)
  moreover have lk: "1 \<le> int (length keys)" "int (length keys) \<le> 16" using assms(1,2) by (cases keys, auto)
  moreover obtain opn where "EncodeOP_N (int (length keys)) = Some opn"
    using EncodeOP_N_range [OF lk] by auto
  ultimately show ?thesis
    using Solver_multisig_bytes [of keys 1 OP_1 opn dc maxdata] assms by (simp add: EncodeOP_N_1 push_opcode_def)
qed

lemma p2fms_scripts_parse:
  assumes "FAKE_KEY_SIZE dvd length input"
  shows "list_all (is_multisig dc maxdata) (p2fms_scripts input)
    \<and> concat (map (fake_keys dc maxdata) (p2fms_scripts input)) = input"
  using assms
proof (induction input rule: p2fms_scripts.induct)
  case (1 input)
  show ?case
  proof (cases "input = []")
    case False
    obtain keys rest where *:
        "add_chunks (push_opcode [] (the (EncodeOP_N 1))) 0 input =
          (push_opcode [] (the (EncodeOP_N 1)) @ concat (map key_push keys), length keys, rest)"
        "input = concat keys @ rest" "list_all (\<lambda>k. length k = FAKE_KEY_SIZE) keys"
        "FAKE_KEY_SIZE dvd length rest" "length keys \<le> 3" "keys \<noteq> []"
      using add_chunks_keys [OF "1.prems", of 0 "push_opcode [] (the (EncodeOP_N 1))"] False by auto
    note IH = "1.IH" [OF False *(1) [symmetric] refl *(4)]
    have "p2fms_scripts input = push_opcode (push_opcode (push_opcode [] (the (EncodeOP_N 1)) @ concat (map key_push keys))
        (the (EncodeOP_N (int (length keys))))) OP_CHECKMULTISIG # p2fms_scripts rest"
      using False *(1) by (simp add: p2fms_scripts.simps [of input])
    then show ?thesis using IH *(2) Solver_p2fms_script [OF *(6,5,3), of dc maxdata]
      by (simp add: is_multisig_def fake_keys_def butlast_append)
  qed (simp add: p2fms_scripts.simps)
qed


lemma p2fms_scripts_nonempty: "input \<noteq> [] \<Longrightarrow> p2fms_scripts input \<noteq> []"
  by (subst p2fms_scripts.simps) (auto split: prod.split)

lemma vInputData_aligned: "FAKE_KEY_SIZE dvd length (vInputData Hash data)"
proof -
  let ?n = "STREAM_DATA_POS + length data"
  have "length (vInputData Hash data) = ?n + (FAKE_KEY_SIZE - ?n mod FAKE_KEY_SIZE)"
    by (simp add: vInputData_def Let_def STREAM_DATA_POS_def)
  also have "\<dots> = FAKE_KEY_SIZE * (?n div FAKE_KEY_SIZE + 1)"
  proof -
    have "?n mod FAKE_KEY_SIZE < FAKE_KEY_SIZE" by (simp add: FAKE_KEY_SIZE_def)
    moreover have "FAKE_KEY_SIZE * (?n div FAKE_KEY_SIZE + 1) = FAKE_KEY_SIZE * (?n div FAKE_KEY_SIZE) + FAKE_KEY_SIZE"
      by simp
    ultimately show ?thesis using mult_div_mod_eq [of FAKE_KEY_SIZE ?n] by linarith
  qed
  finally show ?thesis by simp
qed

lemma vInputData_nonempty: "vInputData Hash data \<noteq> []"
proof
  assume "vInputData Hash data = []"
  then have "length (vInputData Hash data) = 0" by simp
  then show False by (simp add: vInputData_def Let_def)
qed

lemma check_p2fms_data_vInputData:
  "fits_u64 data \<Longrightarrow> nCount \<noteq> 0 \<Longrightarrow> check_p2fms_data Hash nCount (vInputData Hash data) = Inr data"
  using vInputData_nonempty [of Hash data]
  by (simp add: check_p2fms_data_def vInputData_def Let_def STREAM_DATA_POS_def unat_of_nat_length ser_uint256_def)

lemma CreateP2FMSScripts_parse:
  "list_all (is_multisig dc maxdata) (CreateP2FMSScripts Hash data)"
  "concat (map (fake_keys dc maxdata) (CreateP2FMSScripts Hash data)) = vInputData Hash data"
  "CreateP2FMSScripts Hash data \<noteq> []"
  using p2fms_scripts_parse [OF vInputData_aligned, of dc maxdata Hash data]
    p2fms_scripts_nonempty [OF vInputData_nonempty, of Hash data]
  by (simp_all add: CreateP2FMSScripts_def)

text \<open>The parser depends on the multisignature outputs only, wherever they stand.\<close>

lemma ParseP2FMS_filter:
  assumes "filter (is_multisig dc maxdata \<circ> scriptPubKey) vouts = outs"
    and "map scriptPubKey outs = CreateP2FMSScripts Hash data" "fits_u64 data"
  shows "ParseP2FMSTransaction dc maxdata Hash vouts = (Inr data, length outs, sum_list (map nValue outs))"
proof -
  note p = CreateP2FMSScripts_parse(2) [of dc maxdata Hash data, folded assms(2)]
    CreateP2FMSScripts_parse(3) [of Hash data, folded assms(2)]
  have "outs \<noteq> []" using p(2) by auto
  with assms(3) p(1) show ?thesis
    by (simp add: ParseP2FMSTransaction_def fold_collect_output assms(1) Let_def check_p2fms_data_vInputData flip: map_map)
qed

lemma filter_multisig:
  assumes "map scriptPubKey outs = CreateP2FMSScripts Hash data" "list_all (\<lambda>out. \<not> is_multisig dc maxdata (scriptPubKey out)) others"
  shows "filter (is_multisig dc maxdata \<circ> scriptPubKey) outs = outs" "filter (is_multisig dc maxdata \<circ> scriptPubKey) others = []"
  using CreateP2FMSScripts_parse(1) [of dc maxdata Hash data, folded assms(1)] assms(2) by (simp_all add: list_all_iff)

lemma ParseP2FMS_outputs:
  assumes "map scriptPubKey outs = CreateP2FMSScripts Hash data" "fits_u64 data"
    and "list_all (\<lambda>out. \<not> is_multisig dc maxdata (scriptPubKey out)) others"
  shows "ParseP2FMSTransaction dc maxdata Hash (outs @ others) =
    (Inr data, length outs, sum_list (map nValue outs))"
  using filter_multisig [OF assms(1,3)] by (intro ParseP2FMS_filter assms(1,2)) simp

text \<open>
  C11. Data of any length put on chain through fake multisignature outputs is read back
  unchanged, whatever amounts the outputs carry and wherever other outputs that are not
  multisignatures (change, extra payments) stand before, between and after them; the parser
  counts exactly the fake outputs and sums exactly their amounts.
\<close>

theorem ParseP2FMS_CreateP2FMS:
  assumes "map scriptPubKey outs = CreateP2FMSScripts Hash data" "fits_u64 data"
    and "list_all (\<lambda>out. \<not> is_multisig datacarrier maxdata (scriptPubKey out)) others" "vouts \<in> shuffles outs others"
  shows "ParseP2FMSTransaction datacarrier maxdata Hash vouts = (Inr data, length outs, sum_list (map nValue outs))"
proof (rule ParseP2FMS_filter [OF _ assms(1,2)])
  let ?ms = "is_multisig datacarrier maxdata \<circ> scriptPubKey"
  have "filter ?ms vouts \<in> shuffles (filter ?ms outs) (filter ?ms others)" using assms(4) by (metis filter_shuffles imageI)
  then show "filter ?ms vouts = outs" using filter_multisig [OF assms(1,3)] by simp
qed

definition sample_outs :: "CTxOut list" where
  "sample_outs = map (\<lambda>s. \<lparr>nValue = 7, scriptPubKey = s\<rparr>) (CreateP2FMSScripts (\<lambda>_. 5) (replicate 80 1))"

definition sample_other :: CTxOut where
  "sample_other = \<lparr>nValue = 1, scriptPubKey = [OP_RETURN]\<rparr>"

theorem ParseP2FMS_CreateP2FMS_witness:
  "ParseP2FMSTransaction True 80 (\<lambda>_. 5) [sample_other, sample_outs ! 0, sample_other, sample_outs ! 1, sample_other] =
   (Inr (replicate 80 1), 2, 14)"
proof -
  have "map scriptPubKey sample_outs = CreateP2FMSScripts (\<lambda>_. 5) (replicate 80 1)" by (simp add: sample_outs_def comp_def)
  moreover have "list_all (\<lambda>out. \<not> is_multisig True 80 (scriptPubKey out)) (replicate 3 sample_other)" by code_simp
  moreover have "[sample_other, sample_outs ! 0, sample_other, sample_outs ! 1, sample_other] \<in> shuffles sample_outs (replicate 3 sample_other)"
    by code_simp
  moreover have "length sample_outs = 2 \<and> sum_list (map nValue sample_outs) = 14" by code_simp
  ultimately show ?thesis using ParseP2FMS_CreateP2FMS [of sample_outs "\<lambda>_. 5" "replicate 80 1"] by (simp add: fits_u64_def)
qed

end
