(* ===== verification/P2FMSBuilder.thy ===== *)
theory P2FMSBuilder
  imports Consensus P2FMS "HOL-Library.Multiset"
begin

text \<open>
  The transaction builder \<open>CP2FMS_TX_Builder\<close> (\<open>mnode/p2fms-txbuilder.cpp\<close>): it spreads the
  price over the fake multisignature outputs, selects coins, settles the fee in at most four
  passes and puts the change after the fake outputs. The wallet's coins and fee settings,
  the address decoder and \<open>Hash\<close> are arguments; signing is in \<open>TicketSend\<close>.
\<close>

section \<open>Building the transaction\<close>

text \<open>
  A wallet coin is its transaction hash and output index with the output itself. The fee
  settings are the globals \<open>CWallet::GetMinimumFee\<close> reads.
\<close>

record COutput =
  out_txid :: uint256
  out_i :: u32
  out_txout :: CTxOut
  fSpendable :: bool

record WalletFees =
  payTxFee :: CFeeRate
  fPayAtLeastCustomFee :: bool
  estimatedFee :: CFeeRate
  minTxFee :: CFeeRate
  minRelayTxFee :: CFeeRate
  maxTxFee :: CAmount

definition GetMinimumFee :: "WalletFees \<Rightarrow> nat \<Rightarrow> CAmount" where
  "GetMinimumFee w nTxBytes =
     (let bytes = of_nat nTxBytes;
          fee1 = GetFee (payTxFee w) bytes;
          fee2 = (if fPayAtLeastCustomFee w \<and> fee1 > 0 \<and> fee1 < GetFeePerK (payTxFee w) then GetFeePerK (payTxFee w) else fee1);
          fee3 = (if fee2 = 0 then GetFee (estimatedFee w) bytes else fee2);
          fee4 = (if fee3 = 0 then GetFee (minTxFee w) bytes else fee3);
          fee5 = (if fee4 < GetFee (minRelayTxFee w) bytes then GetFee (minRelayTxFee w) bytes else fee4)
      in if fee5 > maxTxFee w then maxTxFee w else fee5)"

definition TX_SIGNATURE_SCRIPT_SIZE :: nat where "TX_SIGNATURE_SCRIPT_SIZE = 139"
definition MAX_TXFEE_PASSES :: nat where "MAX_TXFEE_PASSES = 4"

datatype build_error =
    WalletNotDefined | WalletLocked | InputDataEmpty | NoFakeTransactions | InvalidFundingAddress
  | NoUnspentFound | NotEnoughCoins | NoTxFee | NoSelectedOutputs
  | SignError

text \<open>The members of \<open>CP2FMS_TX_Builder\<close> that \<open>BuildTransaction\<close> reads.\<close>

record p2fms_builder =
  m_nPriceInPSL :: CAmount
  m_vExtraOutputs :: "CTxOut list"
  m_nExtraAmountInPat :: CAmount
  m_fundingAddress :: "CTxDestination option"
  m_vOutScripts :: "CScript list"

text \<open>The local variables of \<open>BuildTransaction\<close>.\<close>

record build_state =
  tx_out :: CMutableTransaction
  vOutputs :: "COutput list"
  m_vSelectedOutputs :: "COutput list"
  nTotalValueInPat :: CAmount
  nAllSpentAmountInPat :: CAmount
  nTxFeeInPat :: CAmount

definition nPriceInPat :: "p2fms_builder \<Rightarrow> CAmount" where
  "nPriceInPat b = m_nPriceInPSL b * COIN"

text \<open>An \<open>int64_t\<close> divided by a \<open>size_t\<close>: both operands are converted to unsigned.\<close>

definition nPerOutputAmountInPat :: "p2fms_builder \<Rightarrow> CAmount" where
  "nPerOutputAmountInPat b =
     sint ((word_of_int (nPriceInPat b) :: u64) div of_nat (length (m_vOutScripts b)))"

definition nLostAmountInPat :: "p2fms_builder \<Rightarrow> CAmount" where
  "nLostAmountInPat b =
     sint ((word_of_int (nPriceInPat b) :: u64) -
           word_of_int (nPerOutputAmountInPat b) * of_nat (length (m_vOutScripts b)))"

definition setChangeOutput :: "p2fms_builder \<Rightarrow> CAmount \<Rightarrow> build_state \<Rightarrow> build_state" where
  "setChangeOutput b nChange st =
     (let nFakeTxCount = length (m_vOutScripts b);
          lastTxOut = last (m_vSelectedOutputs st)
      in st\<lparr>tx_out := (tx_out st)\<lparr>vout :=
           (vout (tx_out st))[nFakeTxCount := \<lparr>nValue = nChange, scriptPubKey = scriptPubKey (out_txout lastTxOut)\<rparr>]\<rparr>\<rparr>)"

text \<open>
  Coin selection: outputs are taken in order until the amount is covered. The result holds
  the inputs and coins added, the new nTotal and the coins after the last one looked at.
\<close>

definition usable_coin :: "bool \<Rightarrow> nat \<Rightarrow> (bytes \<Rightarrow> uint160) \<Rightarrow> CTxDestination option \<Rightarrow> COutput \<Rightarrow> bool" where
  "usable_coin dc maxdata Hash160 fundingAddress out \<longleftrightarrow>
     fSpendable out \<and>
     (case fundingAddress of None \<Rightarrow> True
      | Some addr \<Rightarrow> fst (ExtractDestination dc maxdata Hash160 (scriptPubKey (out_txout out))) = Some addr)"

fun select_coins :: "(COutput \<Rightarrow> bool) \<Rightarrow> CAmount \<Rightarrow> CAmount \<Rightarrow> COutput list \<Rightarrow> COutput list \<times> CAmount \<times> COutput list" where
  "select_coins usable target nTotal [] = ([], nTotal, [])"
| "select_coins usable target nTotal (out # outs) =
     (if \<not> usable out then select_coins usable target nTotal outs
      else let nTotal2 = nTotal + nValue (out_txout out)
           in if nTotal2 \<ge> target then ([out], nTotal2, outs)
              else case select_coins usable target nTotal2 outs of (sel, t, rest) \<Rightarrow> (out # sel, t, rest))"

definition coin_input :: "COutput \<Rightarrow> CTxIn" where
  "coin_input out = CTxIn_make \<lparr>op_hash = out_txid out, op_n = out_i out\<rparr>"

text \<open>The outputs added in the first pass: fake keys, the change placeholder, extra outputs.\<close>

definition first_outputs :: "p2fms_builder \<Rightarrow> CTxOut list" where
  "first_outputs b =
     (let fakes = map (\<lambda>s. \<lparr>nValue = nPerOutputAmountInPat b, scriptPubKey = s\<rparr>) (m_vOutScripts b)
      in (fakes @ [CTxOut_null])[0 := \<lparr>nValue = nPerOutputAmountInPat b + nLostAmountInPat b,
              scriptPubKey = scriptPubKey ((fakes @ [CTxOut_null]) ! 0)\<rparr>] @
         (if m_nExtraAmountInPat b \<noteq> 0 then m_vExtraOutputs b else []))"

definition fund_pass :: "(COutput \<Rightarrow> bool) \<Rightarrow> p2fms_builder \<Rightarrow> nat \<Rightarrow> build_state \<Rightarrow> build_error + build_state" where
  "fund_pass usable b nPass st =
     (case select_coins usable (nAllSpentAmountInPat st) (nTotalValueInPat st) (vOutputs st) of
        (sel, nTotal, rest) \<Rightarrow>
          let st = st\<lparr>tx_out := (tx_out st)\<lparr>vin := vin (tx_out st) @ map coin_input sel\<rparr>,
                      m_vSelectedOutputs := m_vSelectedOutputs st @ sel, nTotalValueInPat := nTotal\<rparr>
          in if nTotalValueInPat st < nAllSpentAmountInPat st
             then Inl (if m_vSelectedOutputs st = [] then NoUnspentFound else NotEnoughCoins)
             else if m_vSelectedOutputs st = [] then Inl NoSelectedOutputs
             else
               let st = st\<lparr>vOutputs := rest\<rparr>;
                   st = (if nPass = 0 then st\<lparr>tx_out := (tx_out st)\<lparr>vout := first_outputs b\<rparr>\<rparr> else st)
               in Inr (setChangeOutput b (nTotalValueInPat st - nAllSpentAmountInPat st) st))"

function build_passes ::
  "WalletFees \<Rightarrow> (COutput \<Rightarrow> bool) \<Rightarrow> p2fms_builder \<Rightarrow> nat \<Rightarrow> build_state \<Rightarrow> build_error + build_state" where
  "build_passes w usable b nPass st =
     (if nPass \<ge> MAX_TXFEE_PASSES then Inl NoTxFee
      else if nPass \<noteq> 0 then
        let nTxSize = length (the (Serialize_tx (tx_out st))) + length (vin (tx_out st)) * TX_SIGNATURE_SCRIPT_SIZE;
            nNewTxFeeInPat = GetMinimumFee w nTxSize;
            bTxFeeApplied = \<bar>nNewTxFeeInPat - nTxFeeInPat st\<bar> < c_div nNewTxFeeInPat 100;
            st = st\<lparr>nAllSpentAmountInPat := nAllSpentAmountInPat st + (nNewTxFeeInPat - nTxFeeInPat st),
                    nTxFeeInPat := nNewTxFeeInPat\<rparr>
        in if nTotalValueInPat st \<ge> nAllSpentAmountInPat st
           then Inr (setChangeOutput b (nTotalValueInPat st - nAllSpentAmountInPat st) st)
           else if bTxFeeApplied then Inr st
           else (case fund_pass usable b nPass st of Inl e \<Rightarrow> Inl e
                 | Inr st' \<Rightarrow> build_passes w usable b (nPass + 1) st')
      else (case fund_pass usable b nPass st of Inl e \<Rightarrow> Inl e
            | Inr st' \<Rightarrow> build_passes w usable b (nPass + 1) st'))"
  by pat_completeness auto
termination
  by (relation "measure (\<lambda>(_, _, _, nPass, _). MAX_TXFEE_PASSES - nPass)") auto

declare build_passes.simps [simp del]

text \<open>
  The coins are sorted by value; coins of equal value keep their order, one of the orders that \<open>std::sort\<close>
  may leave them in. When nothing needs to be selected, the source takes the last of no selected coins,
  which is undefined; here it is the error \<open>NoSelectedOutputs\<close>.
\<close>

definition BuildTransaction ::
  "WalletFees \<Rightarrow> bool \<Rightarrow> nat \<Rightarrow> (bytes \<Rightarrow> uint160) \<Rightarrow> p2fms_builder \<Rightarrow> CMutableTransaction \<Rightarrow> COutput list \<Rightarrow> build_error + build_state" where
  "BuildTransaction w dc maxdata Hash160 b tx0 coins =
     build_passes w (usable_coin dc maxdata Hash160 (m_fundingAddress b)) b 0
       \<lparr>tx_out = tx0, vOutputs = sort_key (\<lambda>out. nValue (out_txout out)) coins, m_vSelectedOutputs = [],
        nTotalValueInPat = 0, nAllSpentAmountInPat = nPriceInPat b + m_nExtraAmountInPat b, nTxFeeInPat = 0\<rparr>"


definition PreprocessAndValidate ::
  "(string \<Rightarrow> CTxDestination) \<Rightarrow> (bytes \<Rightarrow> uint256) \<Rightarrow> bool \<Rightarrow> bool \<Rightarrow> bytes \<Rightarrow> string option \<Rightarrow>
   build_error + (CScript list \<times> CTxDestination option)" where
  "PreprocessAndValidate DecodeDestination Hash wallet locked input_stream sFundingAddress =
     (if \<not> wallet then Inl WalletNotDefined
      else if locked then Inl WalletLocked
      else if input_stream = [] then Inl InputDataEmpty
      else
        let scripts = CreateP2FMSScripts Hash input_stream
        in if scripts = [] then Inl NoFakeTransactions
           else case sFundingAddress of
             Some addr \<Rightarrow>
               if addr = [] then Inr (scripts, None)
               else if \<not> IsValidDestination (DecodeDestination addr) then Inl InvalidFundingAddress
               else Inr (scripts, Some (DecodeDestination addr))
           | None \<Rightarrow> Inr (scripts, None))"

section \<open>What a built transaction pays\<close>

lemma price_split:
  assumes "m_vOutScripts b \<noteq> []" "length (m_vOutScripts b) < 2 ^ 63" "0 \<le> nPriceInPat b" "nPriceInPat b < 2 ^ 63"
  shows "nPerOutputAmountInPat b = nPriceInPat b div int (length (m_vOutScripts b))"
    and "nLostAmountInPat b = nPriceInPat b mod int (length (m_vOutScripts b))"
proof -
  let ?p = "nPriceInPat b" and ?k = "int (length (m_vOutScripts b))"
  have k: "0 < ?k" using assms(1) by simp
  have up: "uint (word_of_int ?p :: u64) = ?p" using assms by (simp add: uint_word_of_int)
  have uk: "uint (of_nat (length (m_vOutScripts b)) :: u64) = ?k"
  proof -
    have "unat (of_nat (length (m_vOutScripts b)) :: u64) = length (m_vOutScripts b)"
      using assms(2) by (simp add: unat_of_nat take_bit_nat_eq_self)
    then show ?thesis by (simp only: uint_nat)
  qed
  have d: "0 \<le> ?p div ?k" "?p div ?k \<le> ?p" using assms(3) k zdiv_mono2 [of ?p 1 ?k] by (simp_all add: pos_imp_zdiv_nonneg_iff Suc_le_eq)
  have ud: "uint ((word_of_int ?p :: u64) div of_nat (length (m_vOutScripts b))) = ?p div ?k"
    by (simp add: uint_div_distrib up uk)
  then show per: "nPerOutputAmountInPat b = ?p div ?k"
    using d assms by (simp add: nPerOutputAmountInPat_def sint_small_u64)
  have "(word_of_int ?p :: u64) - word_of_int (?p div ?k) * of_nat (length (m_vOutScripts b)) = word_of_int (?p - ?p div ?k * ?k)"
    by (simp only: of_int_diff of_int_mult of_int_of_nat_eq)
  also have "?p - ?p div ?k * ?k = ?p mod ?k" by (simp add: minus_div_mult_eq_mod)
  finally have "nLostAmountInPat b = sint (word_of_int (?p mod ?k) :: u64)"
    by (simp add: nLostAmountInPat_def per)
  moreover have "is_int64 (?p mod ?k)"
    using pos_mod_bound [OF k, of ?p] pos_mod_sign [OF k, of ?p] assms(2) by (simp add: is_int64_def)
  ultimately show "nLostAmountInPat b = ?p mod ?k" by (simp add: sint_word_of_int64)
qed

lemma list_update_last_fake: "length xs = k \<Longrightarrow> (xs @ c # ys)[k := d] = xs @ d # ys"
  by (simp add: list_update_append)

text \<open>The fake outputs as they stand in every version of the transaction.\<close>

definition fake_outputs :: "p2fms_builder \<Rightarrow> CTxOut list" where
  "fake_outputs b =
     (case m_vOutScripts b of [] \<Rightarrow> []
      | s # ss \<Rightarrow> \<lparr>nValue = nPerOutputAmountInPat b + nLostAmountInPat b, scriptPubKey = s\<rparr> #
          map (\<lambda>s. \<lparr>nValue = nPerOutputAmountInPat b, scriptPubKey = s\<rparr>) ss)"

definition extra_outputs :: "p2fms_builder \<Rightarrow> CTxOut list" where
  "extra_outputs b = (if m_nExtraAmountInPat b \<noteq> 0 then m_vExtraOutputs b else [])"

lemma first_outputs_split:
  "m_vOutScripts b \<noteq> [] \<Longrightarrow> first_outputs b = fake_outputs b @ CTxOut_null # extra_outputs b"
  by (cases "m_vOutScripts b") (simp_all add: first_outputs_def fake_outputs_def extra_outputs_def Let_def)

lemma fake_outputs_props:
  "length (fake_outputs b) = length (m_vOutScripts b)" "map scriptPubKey (fake_outputs b) = m_vOutScripts b"
  by (cases "m_vOutScripts b"; simp add: fake_outputs_def comp_def)+

lemma fake_outputs_sum:
  assumes "m_vOutScripts b \<noteq> []" "length (m_vOutScripts b) < 2 ^ 63" "0 \<le> nPriceInPat b" "nPriceInPat b < 2 ^ 63"
  shows "sum_list (map nValue (fake_outputs b)) = nPriceInPat b"
proof -
  let ?k = "int (length (m_vOutScripts b))"
  have "sum_list (map nValue (fake_outputs b)) = nPerOutputAmountInPat b * ?k + nLostAmountInPat b"
    using assms(1) by (cases "m_vOutScripts b") (simp_all add: fake_outputs_def comp_def sum_list_triv algebra_simps)
  then show ?thesis by (simp add: price_split [OF assms])
qed

lemma select_coins_props:
  assumes "select_coins usable target t coins = (sel, t', rest)"
  shows "t' = t + sum_list (map (nValue \<circ> out_txout) sel)" "list_all usable sel" "mset sel + mset rest \<subseteq># mset coins"
proof -
  have "t' = t + sum_list (map (nValue \<circ> out_txout) sel) \<and> list_all usable sel \<and> mset sel + mset rest \<subseteq># mset coins"
    using assms
  proof (induction usable target t coins arbitrary: sel t' rest rule: select_coins.induct)
    case (2 usable target t out outs)
    show ?case
    proof (cases "usable out")
      case False
      with 2 show ?thesis by (auto intro: subset_mset.order_trans)
    next
      case True
      obtain sel1 t1 rest1 where r: "select_coins usable target (t + nValue (out_txout out)) outs = (sel1, t1, rest1)"
        by (metis prod_cases3)
      show ?thesis
      proof (cases "target \<le> t + nValue (out_txout out)")
        case False
        with "2.IH"(2) [OF _ refl False r] True r "2.prems" show ?thesis by auto
      qed (use True "2.prems" in auto)
    qed
  qed simp
  then show "t' = t + sum_list (map (nValue \<circ> out_txout) sel)" "list_all usable sel" "mset sel + mset rest \<subseteq># mset coins" by simp_all
qed

text \<open>
  The invariant of the passes after the first: the inputs are the selected coins, no coin is
  taken twice, and the outputs are the fake outputs, the change and the extra outputs, with
  the change being what remains after the price, the extra amount and the current fee.
\<close>

definition funded :: "(COutput \<Rightarrow> bool) \<Rightarrow> p2fms_builder \<Rightarrow> COutput list \<Rightarrow> CAmount \<Rightarrow> build_state \<Rightarrow> bool" where
  "funded usable b coins fee st \<longleftrightarrow>
     vin (tx_out st) = map coin_input (m_vSelectedOutputs st) \<and>
     list_all usable (m_vSelectedOutputs st) \<and>
     mset (m_vSelectedOutputs st) + mset (vOutputs st) \<subseteq># mset coins \<and>
     nTotalValueInPat st = sum_list (map (nValue \<circ> out_txout) (m_vSelectedOutputs st)) \<and>
     nAllSpentAmountInPat st = nPriceInPat b + m_nExtraAmountInPat b + nTxFeeInPat st \<and>
     m_vSelectedOutputs st \<noteq> [] \<and>
     (\<exists>change. vout (tx_out st) = fake_outputs b @ change # extra_outputs b \<and> 0 \<le> nValue change \<and>
        scriptPubKey change \<in> (scriptPubKey \<circ> out_txout) ` set (m_vSelectedOutputs st) \<and>
        nTotalValueInPat st = nPriceInPat b + m_nExtraAmountInPat b + fee + nValue change)"

lemma fund_pass_funded:
  assumes "fund_pass usable b nPass st = Inr st'" "m_vOutScripts b \<noteq> []"
    and "vin (tx_out st) = map coin_input (m_vSelectedOutputs st)" "list_all usable (m_vSelectedOutputs st)"
    and "mset (m_vSelectedOutputs st) + mset (vOutputs st) \<subseteq># mset coins"
    and "nTotalValueInPat st = sum_list (map (nValue \<circ> out_txout) (m_vSelectedOutputs st))"
    and "nAllSpentAmountInPat st = nPriceInPat b + m_nExtraAmountInPat b + nTxFeeInPat st"
    and "nPass = 0 \<or> (\<exists>change. vout (tx_out st) = fake_outputs b @ change # extra_outputs b)"
  shows "funded usable b coins (nTxFeeInPat st') st'"
proof -
  obtain sel t rest where sel: "select_coins usable (nAllSpentAmountInPat st) (nTotalValueInPat st) (vOutputs st) = (sel, t, rest)"
    by (metis prod_cases3)
  note p = select_coins_props [OF sel]
  have "mset (m_vSelectedOutputs st) + mset sel + mset rest \<subseteq># mset coins"
    using p(3) assms(5) by (metis (no_types, lifting) add.assoc mset_subset_eq_mono_add_left_cancel subset_mset.order_trans)
  moreover have "length (fake_outputs b) = length (m_vOutScripts b)" by (rule fake_outputs_props)
  moreover have "m_vSelectedOutputs st @ sel \<noteq> [] \<longrightarrow> scriptPubKey (out_txout (last (m_vSelectedOutputs st @ sel)))
      \<in> (\<lambda>x. scriptPubKey (out_txout x)) ` (set (m_vSelectedOutputs st) \<union> set sel)"
    by (metis imageI last_in_set set_append)
  ultimately show ?thesis
    using assms p sel
    by (auto simp: fund_pass_def funded_def setChangeOutput_def Let_def first_outputs_split list_update_last_fake
        split: if_splits)
qed

text \<open>The fee in the transaction is the fee computed last, or within one percent of it.\<close>

definition fee_settled :: "CAmount \<Rightarrow> build_state \<Rightarrow> bool" where
  "fee_settled fee st \<longleftrightarrow> fee = nTxFeeInPat st \<or> \<bar>nTxFeeInPat st - fee\<bar> < c_div (nTxFeeInPat st) 100"

lemma build_passes_funded:
  assumes "build_passes w usable b nPass st = Inr st'" "m_vOutScripts b \<noteq> []" "0 < nPass"
    and "funded usable b coins (nTxFeeInPat st) st"
  shows "\<exists>fee. funded usable b coins fee st' \<and> fee_settled fee st'"
  using assms
proof (induction w usable b nPass st rule: build_passes.induct)
  case (1 w usable b nPass st)
  define newFee where "newFee = GetMinimumFee w (length (the (Serialize_tx (tx_out st))) + length (vin (tx_out st)) * TX_SIGNATURE_SCRIPT_SIZE)"
  define st1 where "st1 = st\<lparr>nAllSpentAmountInPat := nAllSpentAmountInPat st + (newFee - nTxFeeInPat st), nTxFeeInPat := newFee\<rparr>"
  have lim: "\<not> MAX_TXFEE_PASSES \<le> nPass" and nz: "nPass \<noteq> 0"
    using "1.prems" by (auto simp: build_passes.simps [of w usable b nPass st] split: if_splits)
  have f1: "funded usable b coins (nTxFeeInPat st) st1" using "1.prems"(4) by (auto simp: funded_def st1_def)
  have eq: "build_passes w usable b nPass st =
      (if nTotalValueInPat st1 \<ge> nAllSpentAmountInPat st1
       then Inr (setChangeOutput b (nTotalValueInPat st1 - nAllSpentAmountInPat st1) st1)
       else if \<bar>newFee - nTxFeeInPat st\<bar> < c_div newFee 100 then Inr st1
       else (case fund_pass usable b nPass st1 of Inl e \<Rightarrow> Inl e
             | Inr st' \<Rightarrow> build_passes w usable b (nPass + 1) st'))"
    using lim nz by (simp add: build_passes.simps [of w usable b nPass st] Let_def newFee_def st1_def)
  consider (enough) "nTotalValueInPat st1 \<ge> nAllSpentAmountInPat st1"
    | (close) "\<not> nTotalValueInPat st1 \<ge> nAllSpentAmountInPat st1" "\<bar>newFee - nTxFeeInPat st\<bar> < c_div newFee 100"
    | (more) st2 where "\<not> nTotalValueInPat st1 \<ge> nAllSpentAmountInPat st1" "\<not> \<bar>newFee - nTxFeeInPat st\<bar> < c_div newFee 100"
        "fund_pass usable b nPass st1 = Inr st2" "build_passes w usable b (nPass + 1) st2 = Inr st'"
    using "1.prems"(1) unfolding eq by (auto split: if_splits sum.splits)
  then show ?case
  proof cases
    case enough
    then have "st' = setChangeOutput b (nTotalValueInPat st1 - nAllSpentAmountInPat st1) st1"
      using "1.prems"(1) unfolding eq by simp
    then have "funded usable b coins newFee st'" "nTxFeeInPat st' = newFee"
      using f1 enough fake_outputs_props(1) [of b]
      by (auto simp: funded_def setChangeOutput_def Let_def list_update_last_fake st1_def)
    then show ?thesis by (auto simp: fee_settled_def)
  next
    case close
    then have "st' = st1" using "1.prems"(1) unfolding eq by simp
    then show ?thesis using f1 close(2) by (auto simp: fee_settled_def st1_def)
  next
    case more
    have "funded usable b coins (nTxFeeInPat st2) st2"
      using f1 by (intro fund_pass_funded [OF more(3) "1.prems"(2)]) (auto simp: funded_def)
    then show ?thesis
      using "1.IH"(1) [OF lim nz refl newFee_def refl st1_def more(1,2,3,4) "1.prems"(2)] by simp
  qed
qed

lemma BuildTransaction_funded:
  assumes "BuildTransaction w dc maxdata Hash160 b tx0 coins = Inr st" "vin tx0 = []" "m_vOutScripts b \<noteq> []"
  shows "\<exists>fee. funded (usable_coin dc maxdata Hash160 (m_fundingAddress b)) b coins fee st \<and> fee_settled fee st"
proof -
  let ?usable = "usable_coin dc maxdata Hash160 (m_fundingAddress b)"
  let ?s0 = "\<lparr>tx_out = tx0, vOutputs = sort_key (\<lambda>out. nValue (out_txout out)) coins, m_vSelectedOutputs = [],
        nTotalValueInPat = 0, nAllSpentAmountInPat = nPriceInPat b + m_nExtraAmountInPat b, nTxFeeInPat = 0\<rparr>"
  obtain st1 where 1: "fund_pass ?usable b 0 ?s0 = Inr st1" "build_passes w ?usable b 1 st1 = Inr st"
    using assms(1)
    by (auto simp: BuildTransaction_def build_passes.simps [of w ?usable b 0] MAX_TXFEE_PASSES_def split: sum.splits)
  have "funded ?usable b coins (nTxFeeInPat st1) st1"
    using assms(2) by (intro fund_pass_funded [OF 1(1) assms(3)]) simp_all
  with build_passes_funded [OF 1(2) assms(3)] show ?thesis by simp
qed

text \<open>
  C15. A successfully built transaction carries the scripts in order, pays exactly the
  price through them to the patoshi, and keeps a non-negative change output after them. It
  spends distinct usable coins whose value equals price, extra amount, change and fee, and
  that fee is the one computed last or within one percent of it.
\<close>

theorem BuildTransaction_pays_price:
  assumes "BuildTransaction w dc maxdata Hash160 b tx0 coins = Inr st" "vin tx0 = []"
    and "m_vOutScripts b \<noteq> []" "length (m_vOutScripts b) < 2 ^ 63" "0 \<le> nPriceInPat b" "nPriceInPat b < 2 ^ 63"
  shows "\<exists>fakes change fee.
     vout (tx_out st) = fakes @ change # (if m_nExtraAmountInPat b \<noteq> 0 then m_vExtraOutputs b else [])
   \<and> map scriptPubKey fakes = m_vOutScripts b
   \<and> sum_list (map nValue fakes) = nPriceInPat b
   \<and> 0 \<le> nValue change
   \<and> vin (tx_out st) = map coin_input (m_vSelectedOutputs st)
   \<and> list_all (usable_coin dc maxdata Hash160 (m_fundingAddress b)) (m_vSelectedOutputs st)
   \<and> mset (m_vSelectedOutputs st) \<subseteq># mset coins
   \<and> sum_list (map (nValue \<circ> out_txout) (m_vSelectedOutputs st))
       = nPriceInPat b + m_nExtraAmountInPat b + nValue change + fee
   \<and> fee_settled fee st"
proof -
  obtain fee where f: "funded (usable_coin dc maxdata Hash160 (m_fundingAddress b)) b coins fee st" and fee: "fee_settled fee st"
    using BuildTransaction_funded [OF assms(1-3)] by blast
  from f obtain change where c: "vout (tx_out st) = fake_outputs b @ change # extra_outputs b" "0 \<le> nValue change"
      "nTotalValueInPat st = nPriceInPat b + m_nExtraAmountInPat b + fee + nValue change"
    by (auto simp: funded_def)
  have "mset (m_vSelectedOutputs st) \<subseteq># mset coins"
    using f unfolding funded_def by (meson mset_subset_eq_add_left subset_mset.order_trans)
  then show ?thesis
    using f fee c fake_outputs_props(2) [of b] fake_outputs_sum [OF assms(3-6)]
    by (intro exI [of _ "fake_outputs b"] exI [of _ change] exI [of _ fee]) (simp add: funded_def extra_outputs_def)
qed


definition sample_fees :: WalletFees where
  "sample_fees = \<lparr>payTxFee = CFeeRate_perK 30, fPayAtLeastCustomFee = False, estimatedFee = CFeeRate_default,
     minTxFee = CFeeRate_perK 30, minRelayTxFee = CFeeRate_perK 30, maxTxFee = 1000000\<rparr>"

definition sample_builder :: p2fms_builder where
  "sample_builder = \<lparr>m_nPriceInPSL = 1, m_vExtraOutputs = [], m_nExtraAmountInPat = 0, m_fundingAddress = None,
     m_vOutScripts = [[OP_1], [OP_16], [OP_RETURN]]\<rparr>"

definition sample_coins :: "COutput list" where
  "sample_coins = map (\<lambda>(h, v). \<lparr>out_txid = h, out_i = 0, out_txout = \<lparr>nValue = v, scriptPubKey = [OP_DUP]\<rparr>, fSpendable = True\<rparr>)
     [(1, 60000), (2, 40000), (3, 900)]"

lemma BuildTransaction_parse_outputs:
  assumes "BuildTransaction w dc maxdata Hash160 b tx0 coins = Inr st" "vin tx0 = []"
    and "m_vOutScripts b = CreateP2FMSScripts Hash data" "fits_u64 data" "length (m_vOutScripts b) < 2 ^ 63"
    and "0 \<le> nPriceInPat b" "nPriceInPat b < 2 ^ 63"
    and "list_all (\<lambda>c. \<not> is_multisig dc maxdata (scriptPubKey (out_txout c))) coins"
    and "list_all (\<lambda>out. \<not> is_multisig dc maxdata (scriptPubKey out)) (m_vExtraOutputs b)"
  shows "ParseP2FMSTransaction dc maxdata Hash (vout (tx_out st)) =
    (Inr data, length (m_vOutScripts b), nPriceInPat b)"
proof -
  have ne: "m_vOutScripts b \<noteq> []" using CreateP2FMSScripts_parse(3) [of Hash data] assms(3) by simp
  obtain fee where f: "funded (usable_coin dc maxdata Hash160 (m_fundingAddress b)) b coins fee st"
    using BuildTransaction_funded [OF assms(1,2) ne] by blast
  then obtain change where c: "vout (tx_out st) = fake_outputs b @ change # extra_outputs b"
      "scriptPubKey change \<in> (scriptPubKey \<circ> out_txout) ` set (m_vSelectedOutputs st)"
    by (auto simp: funded_def)
  have "set (m_vSelectedOutputs st) \<subseteq> set coins"
    using f unfolding funded_def by (metis mset_subset_eq_add_left set_mset_mono set_mset_mset subset_mset.order_trans)
  then have "list_all (\<lambda>out. \<not> is_multisig dc maxdata (scriptPubKey out)) (change # extra_outputs b)"
    using c(2) assms(8,9) by (auto simp: list_all_iff extra_outputs_def)
  moreover have "map scriptPubKey (fake_outputs b) = CreateP2FMSScripts Hash data"
    using fake_outputs_props(2) assms(3) by simp
  ultimately show ?thesis
    using ParseP2FMS_outputs [of "fake_outputs b" Hash data dc maxdata "change # extra_outputs b"] assms(4)
      fake_outputs_sum [OF ne assms(5-7)] fake_outputs_props(1) [of b]
    by (simp add: c(1))
qed

text \<open>
  C8. From data to chain and back: when the builder's scripts encode some data, its coins and
  extra outputs are not multisignatures themselves, and building succeeds, then parsing the
  outputs of the built transaction gives the data back and reports exactly the price as the
  amount paid through the fake keys.
\<close>

theorem built_transaction_parses:
  assumes "BuildTransaction w dc maxdata Hash160 b tx0 coins = Inr st" "vin tx0 = []"
    and "m_vOutScripts b = CreateP2FMSScripts Hash data" "fits_u64 data" "length (m_vOutScripts b) < 2 ^ 63"
    and "0 \<le> nPriceInPat b" "nPriceInPat b < 2 ^ 63"
    and "list_all (\<lambda>c. \<not> is_multisig dc maxdata (scriptPubKey (out_txout c))) coins"
    and "list_all (\<lambda>out. \<not> is_multisig dc maxdata (scriptPubKey out)) (m_vExtraOutputs b)"
  shows "ParseP2FMSTransaction dc maxdata Hash (vout (tx_out st)) =
    (Inr data, length (m_vOutScripts b), nPriceInPat b)"
  by (rule BuildTransaction_parse_outputs) (fact assms)+

theorem BuildTransaction_pays_price_witness:
  "\<exists>st fakes change fee.
     BuildTransaction sample_fees True 80 (\<lambda>_. []) sample_builder CMutableTransaction_default sample_coins = Inr st
   \<and> vout (tx_out st) = fakes @ [change] \<and> sum_list (map nValue fakes) = 100000 \<and> 0 \<le> nValue change
   \<and> sum_list (map (nValue \<circ> out_txout) (m_vSelectedOutputs st)) = 100000 + nValue change + fee"
proof -
  have "\<not> isl (BuildTransaction sample_fees True 80 (\<lambda>_. []) sample_builder CMutableTransaction_default sample_coins)"
    by code_simp
  then obtain st where st: "BuildTransaction sample_fees True 80 (\<lambda>_. []) sample_builder CMutableTransaction_default sample_coins = Inr st"
    by (cases "BuildTransaction sample_fees True 80 (\<lambda>_. []) sample_builder CMutableTransaction_default sample_coins") simp_all
  from BuildTransaction_pays_price [OF this]
  have "\<exists>fakes change fee. vout (tx_out st) = fakes @ [change] \<and> sum_list (map nValue fakes) = 100000 \<and> 0 \<le> nValue change
   \<and> sum_list (map (nValue \<circ> out_txout) (m_vSelectedOutputs st)) = 100000 + nValue change + fee"
    by (auto simp: sample_builder_def nPriceInPat_def COIN_def CMutableTransaction_default_def)
  with st show ?thesis by blast
qed


theorem built_transaction_parses_witness:
  "\<exists>st. BuildTransaction sample_fees True 80 (\<lambda>_. []) (sample_builder\<lparr>m_vOutScripts := CreateP2FMSScripts (\<lambda>_. 5) [1, 2, 3]\<rparr>)
       CMutableTransaction_default sample_coins = Inr st
   \<and> ParseP2FMSTransaction True 80 (\<lambda>_. 5) (vout (tx_out st)) = (Inr [1, 2, 3], 1, 100000)"
proof -
  let ?b = "sample_builder\<lparr>m_vOutScripts := CreateP2FMSScripts (\<lambda>_. 5) [1, 2, 3]\<rparr>"
  let ?r = "BuildTransaction sample_fees True 80 (\<lambda>_. []) ?b CMutableTransaction_default sample_coins"
  have "\<not> isl ?r" by code_simp
  then obtain st where st: "?r = Inr st" by (cases ?r) simp_all
  have len: "length (m_vOutScripts ?b) = 1" by code_simp
  have "list_all (\<lambda>c. \<not> is_multisig True 80 (scriptPubKey (out_txout c))) sample_coins" by code_simp
  then have "ParseP2FMSTransaction True 80 (\<lambda>_. 5) (vout (tx_out st)) = (Inr [1, 2, 3], length (m_vOutScripts ?b), nPriceInPat ?b)"
    using len by (intro built_transaction_parses [OF st])
      (simp_all add: CMutableTransaction_default_def fits_u64_def sample_builder_def nPriceInPat_def COIN_def)
  with st len show ?thesis by (simp add: nPriceInPat_def COIN_def sample_builder_def)
qed

end
