(* ===== verification/Floating.thy ===== *)
theory Floating
  imports Complex_Main "HOL-Library.Log_Nat"
begin

text \<open>
  The C++ types \<open>float\<close> and \<open>double\<close> as the sources use them: a value is a rational, and
  every arithmetic operation rounds its exact result to the 24 or 53 significant bits of the
  type (round to nearest, ties to even), as IEEE 754 prescribes.
\<close>

section \<open>Rounding\<close>

text \<open>Round to nearest, ties to even.\<close>

definition round_half_even :: "rat \<Rightarrow> int" where
  "round_half_even x =
     (let f = \<lfloor>x\<rfloor>; r = x - of_int f
      in if r < 1 / 2 then f else if r > 1 / 2 then f + 1 else if even f then f else f + 1)"

lemma round_half_even_error: "\<bar>of_int (round_half_even x) - x\<bar> \<le> 1 / 2"
proof -
  have "of_int \<lfloor>x\<rfloor> \<le> x" "x < of_int \<lfloor>x\<rfloor> + 1" by linarith+
  then show ?thesis by (auto simp: round_half_even_def Let_def)
qed

lemma round_half_even_of_int [simp]: "round_half_even (of_int n) = n"
  by (simp add: round_half_even_def)

section \<open>Binary floating-point numbers\<close>

text \<open>
  The exponent of the leading bit of a positive rational: \<open>2 ^ e \<le> x < 2 ^ (e + 1)\<close>.
\<close>

definition leading_exponent :: "rat \<Rightarrow> int" where
  "leading_exponent x =
     (let (a, b) = quotient_of x; e = bitlen a - bitlen b
      in if 2 powi e \<le> x then e else e - 1)"

lemma bitlen_powi:
  assumes "0 < a"
  shows "2 powi (bitlen a - 1) \<le> (of_int a :: rat)" "(of_int a :: rat) < 2 powi bitlen a"
proof -
  have 1: "1 \<le> bitlen a" using assms bitlen_le_iff_power bitlen_nonneg [of a] by (metis bitlen_eq_zero_iff int_one_le_iff_zero_less leD leI order_le_less)
  from bitlen_bounds [OF assms] have b: "2 ^ nat (bitlen a - 1) \<le> a" "a < 2 ^ nat (bitlen a)" by auto
  have "(of_int (2 ^ nat (bitlen a - 1)) :: rat) \<le> of_int a" using b(1) by (simp only: of_int_le_iff)
  then show "2 powi (bitlen a - 1) \<le> (of_int a :: rat)" using 1 by (simp add: power_int_def)
  have "(of_int a :: rat) < of_int (2 ^ nat (bitlen a))" using b(2) by (simp only: of_int_less_iff)
  then show "(of_int a :: rat) < 2 powi bitlen a" using 1 by (simp add: power_int_def)
qed

lemma leading_exponent_bounds:
  assumes "0 < x"
  shows "2 powi leading_exponent x \<le> x" "x < 2 powi (leading_exponent x + 1)"
proof -
  obtain a b where q: "quotient_of x = (a, b)" by (cases "quotient_of x")
  then have x: "x = of_int a / of_int b" and b: "0 < b"
    by (simp_all add: quotient_of_div quotient_of_denom_pos)
  with assms have a: "0 < a" by (simp add: zero_less_divide_iff)
  let ?e = "bitlen a - bitlen b"
  note A = bitlen_powi [OF a] and B = bitlen_powi [OF b]
  have "x < 2 powi bitlen a / 2 powi (bitlen b - 1)"
    unfolding x using A B a b by (intro frac_less) auto
  then have "x < 2 powi (bitlen a - (bitlen b - 1))" by (simp add: power_int_diff)
  moreover have "bitlen a - (bitlen b - 1) = ?e + 1" by simp
  ultimately have up: "x < 2 powi (?e + 1)" by metis
  have "2 powi (bitlen a - 1) / 2 powi bitlen b \<le> x"
    unfolding x using A B a b by (intro frac_le) auto
  then have lo: "2 powi (?e - 1) \<le> x" by (simp add: power_int_diff [symmetric] algebra_simps)
  show "2 powi leading_exponent x \<le> x" "x < 2 powi (leading_exponent x + 1)"
    using up lo by (auto simp: leading_exponent_def q Let_def)
qed

text \<open>
  \<open>fl p x\<close> is \<open>x\<close> rounded to \<open>p\<close> significant bits. Exponents are not bounded: the magnitudes
  the program computes with are far from overflow and underflow.
\<close>

definition fl :: "nat \<Rightarrow> rat \<Rightarrow> rat" where
  "fl p x =
     (if x = 0 then 0
      else let u = 2 powi (leading_exponent \<bar>x\<bar> - int p + 1)
           in sgn x * (of_int (round_half_even (\<bar>x\<bar> / u)) * u))"

abbreviation fl32 :: "rat \<Rightarrow> rat" where "fl32 \<equiv> fl 24"
abbreviation fl64 :: "rat \<Rightarrow> rat" where "fl64 \<equiv> fl 53"

lemma fl_0 [simp]: "fl p 0 = 0" by (simp add: fl_def)

lemma fl_error: "\<bar>fl p x - x\<bar> \<le> \<bar>x\<bar> / 2 ^ p"
proof (cases "x = 0")
  case False
  define e where "e = leading_exponent \<bar>x\<bar>"
  define u :: rat where "u = 2 powi (e - int p + 1)"
  have u: "0 < u" by (simp add: u_def)
  have "u = 2 * (2 powi e / 2 ^ p)" by (simp add: u_def power_int_diff power_int_add)
  then have ux: "u / 2 \<le> \<bar>x\<bar> / 2 ^ p"
    using leading_exponent_bounds(1) [of "\<bar>x\<bar>"] False by (simp add: e_def divide_right_mono)
  let ?m = "of_int (round_half_even (\<bar>x\<bar> / u)) :: rat"
  have "\<bar>?m - \<bar>x\<bar> / u\<bar> * u \<le> u / 2"
    using round_half_even_error [of "\<bar>x\<bar> / u"] u by (simp add: mult_right_mono)
  moreover have "\<bar>?m - \<bar>x\<bar> / u\<bar> * u = \<bar>?m * u - \<bar>x\<bar>\<bar>"
  proof -
    have "\<bar>?m - \<bar>x\<bar> / u\<bar> * u = \<bar>(?m - \<bar>x\<bar> / u) * u\<bar>" using u by (simp only: abs_mult abs_of_pos)
    also have "(?m - \<bar>x\<bar> / u) * u = ?m * u - \<bar>x\<bar>" using u by (simp add: left_diff_distrib)
    finally show ?thesis .
  qed
  moreover have "fl p x - x = sgn x * (?m * u - \<bar>x\<bar>)"
    using False by (simp add: fl_def e_def u_def Let_def right_diff_distrib sgn_mult_abs)
  ultimately have "\<bar>fl p x - x\<bar> \<le> u / 2" using False by (simp add: abs_mult abs_sgn_eq)
  with ux show ?thesis by linarith
qed simp

end
