(* ===== verification/DataStream.thy ===== *)
theory DataStream
  imports Serialize Floating
begin

text \<open>
  The stream objects of \<open>utils/streams.h\<close> and \<open>utils/datacompressor.cpp\<close>: \<open>CDataStream\<close>, a byte
  vector with a read position, and \<open>CCompressedDataStream\<close>, which keeps a prefix readable and
  compresses the rest with zstd. The zstd library is a record of functions, an argument of the
  operations that call it; \<open>zstd_laws\<close> states what its documentation promises. Sizes are
  natural numbers except where a size read from the data is added to a position: that sum is
  the 64-bit one of the source.
\<close>

section \<open>The stream buffer\<close>

record CDataStream =
  vch :: bytes
  nReadPos :: nat

definition ds_new :: "bytes \<Rightarrow> CDataStream" where
  "ds_new d = \<lparr>vch = d, nReadPos = 0\<rparr>"

text \<open>What is left to read: the range from \<open>begin()\<close> to \<open>end()\<close>.\<close>

definition content :: "'a CDataStream_scheme \<Rightarrow> bytes" where
  "content s = drop (nReadPos s) (vch s)"

definition ds_size :: "'a CDataStream_scheme \<Rightarrow> nat" where
  "ds_size s = length (vch s) - nReadPos s"

definition ds_empty :: "'a CDataStream_scheme \<Rightarrow> bool" where
  "ds_empty s \<longleftrightarrow> (if vch s = [] then True else nReadPos s \<ge> length (vch s))"

definition ds_eof :: "'a CDataStream_scheme \<Rightarrow> bool" where
  "ds_eof s \<longleftrightarrow> ds_size s = 0"

definition ds_clear :: "'a CDataStream_scheme \<Rightarrow> 'a CDataStream_scheme" where
  "ds_clear s = s\<lparr>vch := [], nReadPos := 0\<rparr>"

definition ds_read :: "nat \<Rightarrow> 'a CDataStream_scheme \<Rightarrow> (bytes \<times> 'a CDataStream_scheme) option" where
  "ds_read nSize s =
     (if nSize = 0 then Some ([], s)
      else let nReadPosNext = nReadPos s + nSize; d = take nSize (drop (nReadPos s) (vch s))
           in if nReadPosNext \<ge> length (vch s)
              then if nReadPosNext > length (vch s) then None
                   else Some (d, s\<lparr>nReadPos := 0, vch := []\<rparr>)
              else Some (d, s\<lparr>nReadPos := nReadPosNext\<rparr>))"

definition ds_read_buf :: "nat \<Rightarrow> 'a CDataStream_scheme \<Rightarrow> bytes option" where
  "ds_read_buf nSize s =
     (if nSize = 0 then Some []
      else if nReadPos s + nSize > length (vch s) then None
      else Some (take nSize (drop (nReadPos s) (vch s))))"

definition ds_ignore :: "nat \<Rightarrow> 'a CDataStream_scheme \<Rightarrow> 'a CDataStream_scheme option" where
  "ds_ignore nSize s =
     (let nReadPosNext = nReadPos s + nSize
      in if nReadPosNext \<ge> length (vch s)
         then if nReadPosNext > length (vch s) then None else Some (s\<lparr>nReadPos := 0, vch := []\<rparr>)
         else Some (s\<lparr>nReadPos := nReadPosNext\<rparr>))"

definition ds_write :: "bytes \<Rightarrow> 'a CDataStream_scheme \<Rightarrow> 'a CDataStream_scheme" where
  "ds_write d s = s\<lparr>vch := vch s @ d\<rparr>"

definition ds_append :: "'b CDataStream_scheme \<Rightarrow> 'a CDataStream_scheme \<Rightarrow> 'a CDataStream_scheme" where
  "ds_append b s = s\<lparr>vch := vch s @ content b\<rparr>"

definition ds_Compact :: "'a CDataStream_scheme \<Rightarrow> 'a CDataStream_scheme" where
  "ds_Compact s = s\<lparr>vch := drop (nReadPos s) (vch s), nReadPos := 0\<rparr>"

definition ds_rewind :: "nat \<Rightarrow> 'a CDataStream_scheme \<Rightarrow> 'a CDataStream_scheme option" where
  "ds_rewind n s = (if n > nReadPos s then None else Some (s\<lparr>nReadPos := nReadPos s - n\<rparr>))"

text \<open>Insertion at the front of what is left, which reuses the bytes already read.\<close>

definition ds_insert_front :: "bytes \<Rightarrow> 'a CDataStream_scheme \<Rightarrow> 'a CDataStream_scheme" where
  "ds_insert_front d s =
     (if d = [] then s
      else if length d \<le> nReadPos s
      then s\<lparr>nReadPos := nReadPos s - length d,
             vch := take (nReadPos s - length d) (vch s) @ d @ drop (nReadPos s) (vch s)\<rparr>
      else s\<lparr>vch := take (nReadPos s) (vch s) @ d @ drop (nReadPos s) (vch s)\<rparr>)"

text \<open>Erasing up to an index: at the read position the position moves instead.\<close>

definition ds_erase :: "nat \<Rightarrow> nat \<Rightarrow> 'a CDataStream_scheme \<Rightarrow> 'a CDataStream_scheme" where
  "ds_erase first to s =
     (if first = nReadPos s
      then if to = length (vch s) then s\<lparr>nReadPos := 0, vch := []\<rparr> else s\<lparr>nReadPos := to\<rparr>
      else s\<lparr>vch := take first (vch s) @ drop to (vch s)\<rparr>)"

definition ds_erase1 :: "nat \<Rightarrow> 'a CDataStream_scheme \<Rightarrow> 'a CDataStream_scheme" where
  "ds_erase1 i s =
     (if i = nReadPos s
      then if nReadPos s + 1 \<ge> length (vch s) then s\<lparr>nReadPos := 0, vch := []\<rparr>
           else s\<lparr>nReadPos := nReadPos s + 1\<rparr>
      else s\<lparr>vch := take i (vch s) @ drop (i + 1) (vch s)\<rparr>)"

definition ds_GetAndClear :: "bytes \<Rightarrow> 'a CDataStream_scheme \<Rightarrow> bytes \<times> 'a CDataStream_scheme" where
  "ds_GetAndClear d s = (d @ content s, ds_clear s)"

definition ds_wf :: "'a CDataStream_scheme \<Rightarrow> bool" where
  "ds_wf s \<longleftrightarrow> nReadPos s \<le> length (vch s)"

section \<open>A stream behaves as the list of bytes left to read\<close>

text \<open>
  Unserialization is written against any stream that can be read. The contract: a read
  returns what reading the remaining bytes returns and leaves the rest.
\<close>

locale byte_source =
  fixes read :: "nat \<Rightarrow> 's \<Rightarrow> (bytes \<times> 's) option" and rest_of :: "'s \<Rightarrow> bytes" and wf :: "'s \<Rightarrow> bool"
  assumes read_rest: "wf s \<Longrightarrow> map_option (map_prod id rest_of) (read k s) = stream_read k (rest_of s)"
    and read_wf: "wf s \<Longrightarrow> read k s = Some (d, s') \<Longrightarrow> wf s'"
begin

lemma read_None_iff: "wf s \<Longrightarrow> read k s = None \<longleftrightarrow> length (rest_of s) < k"
  using read_rest [of s k] by (auto simp: stream_read_def split: if_splits)

lemma read_SomeD: "wf s \<Longrightarrow> read k s = Some (d, s') \<Longrightarrow> rest_of s = d @ rest_of s' \<and> length d = k"
  using read_rest [of s k] by (auto simp: stream_read_def split: if_splits)

lemma read_add:
  assumes "wf s" "read j s = Some (d, s1)" "read k s1 = Some (e, s2)"
  shows "\<exists>s'. read (j + k) s = Some (d @ e, s') \<and> rest_of s' = rest_of s2"
proof -
  have 1: "rest_of s = d @ e @ rest_of s2" "length d = j" "length e = k"
    using read_SomeD [OF assms(1,2)] read_SomeD [OF read_wf [OF assms(1,2)] assms(3)] by simp_all
  then have "read (j + k) s \<noteq> None" using read_None_iff [OF assms(1)] by simp
  then obtain f s' where f: "read (j + k) s = Some (f, s')" by auto
  have "f @ rest_of s' = (d @ e) @ rest_of s2" "length f = length (d @ e)"
    using read_SomeD [OF assms(1) f] 1 by simp_all
  then have "f = d @ e \<and> rest_of s' = rest_of s2" using append_eq_append_conv [of f "d @ e"] by blast
  with f show ?thesis by simp
qed

end

interpretation bytes_source: byte_source stream_read "\<lambda>s. s" "\<lambda>_. True"
  by unfold_locales (auto simp: stream_read_def)

interpretation ds: byte_source ds_read content ds_wf
  by unfold_locales
    (auto simp: ds_read_def content_def ds_wf_def stream_read_def Let_def add.commute split: if_splits)

text \<open>
  A reader of the wire format run on a stream: the bytes it consumes are skipped the way
  \<open>read\<close> skips them, so that reaching the end empties the buffer.
\<close>

definition ds_skip :: "nat \<Rightarrow> 'a CDataStream_scheme \<Rightarrow> 'a CDataStream_scheme" where
  "ds_skip k s = (case ds_read k s of None \<Rightarrow> s | Some (_, s') \<Rightarrow> s')"

definition ds_unser :: "'b reader \<Rightarrow> 'a CDataStream_scheme \<Rightarrow> ('b \<times> 'a CDataStream_scheme) option" where
  "ds_unser u s =
     (case u (content s) of None \<Rightarrow> None
      | Some (x, r) \<Rightarrow> Some (x, ds_skip (length (content s) - length r) s))"

definition consuming :: "'b reader \<Rightarrow> bool" where
  "consuming u \<longleftrightarrow> (\<forall>s x r. u s = Some (x, r) \<longrightarrow> (\<exists>p. s = p @ r))"

lemma ds_read_unser: "ds_wf s \<Longrightarrow> ds_read k s = ds_unser (stream_read k) s"
  by (auto simp: ds_unser_def ds_skip_def ds_read_def content_def stream_read_def ds_wf_def Let_def split: if_splits)

lemma content_skip: "ds_wf s \<Longrightarrow> k \<le> length (content s) \<Longrightarrow> content (ds_skip k s) = drop k (content s)"
  using ds.read_None_iff [of s k] ds.read_SomeD [of s k] by (auto simp: ds_skip_def split: option.splits)

lemma ds_wf_skip: "ds_wf s \<Longrightarrow> ds_wf (ds_skip k s)"
  by (auto simp: ds_skip_def dest: ds.read_wf split: option.splits)

lemma ds_skip_eq:
  "ds_wf s \<Longrightarrow> k \<le> length (content s) \<Longrightarrow>
   ds_skip k s = (if k = 0 then s else if nReadPos s + k = length (vch s) then s\<lparr>nReadPos := 0, vch := []\<rparr>
                  else s\<lparr>nReadPos := nReadPos s + k\<rparr>)"
  by (auto simp: ds_skip_def ds_read_def content_def ds_wf_def Let_def)

lemma skip_add:
  "ds_wf s \<Longrightarrow> j + k \<le> length (content s) \<Longrightarrow> ds_skip k (ds_skip j s) = ds_skip (j + k) s"
  by (auto simp: ds_skip_eq content_def ds_wf_def)

lemma consuming_bind: "consuming u \<Longrightarrow> (\<And>x. consuming (f x)) \<Longrightarrow> consuming (read_bind u f)"
  unfolding consuming_def read_bind_def by (fastforce split: option.splits)

text \<open>
  Unserializing one object after the other from the stream is unserializing them one after
  the other from its remaining bytes.
\<close>

lemma ds_unser_bind:
  assumes "ds_wf s" "consuming u" "\<And>x. consuming (f x)"
  shows "ds_unser (read_bind u f) s = (case ds_unser u s of None \<Rightarrow> None | Some (x, s1) \<Rightarrow> ds_unser (f x) s1)"
proof (cases "u (content s)")
  case (Some xr)
  then obtain x r p where u: "u (content s) = Some (x, r)" "content s = p @ r"
    using assms(2) unfolding consuming_def by (cases xr) metis
  have c: "content (ds_skip (length p) s) = r" using content_skip [OF assms(1), of "length p"] u(2) by simp
  show ?thesis
  proof (cases "f x r")
    case (Some yq)
    then obtain y q p' where f: "f x r = Some (y, q)" "r = p' @ q"
      using assms(3) [of x] unfolding consuming_def by (cases yq) metis
    have "ds_skip (length p') (ds_skip (length p) s) = ds_skip (length p + length p') s"
      using u(2) f(2) by (intro skip_add [OF assms(1)]) simp
    then show ?thesis using u f c by (simp add: ds_unser_def read_bind_def)
  qed (use u c in \<open>simp add: ds_unser_def read_bind_def\<close>)
qed (simp add: ds_unser_def read_bind_def)

lemma ds_unser_content:
  assumes "ds_wf s" "consuming u" "ds_unser u s = Some (x, s')"
  shows "u (content s) = Some (x, content s') \<and> ds_wf s'"
proof -
  obtain r where u: "u (content s) = Some (x, r)" "s' = ds_skip (length (content s) - length r) s"
    using assms(3) by (auto simp: ds_unser_def split: option.splits)
  then obtain p where "content s = p @ r" using assms(2) unfolding consuming_def by metis
  with u show ?thesis using content_skip [OF assms(1), of "length p"] ds_wf_skip [OF assms(1)] by simp
qed

lemma consuming_stream_read: "consuming (stream_read k)"
  unfolding consuming_def stream_read_def by (auto split: if_splits) (metis append_take_drop_id)

lemma consuming_ser_readdata8: "consuming ser_readdata8"
  unfolding consuming_def using ser_readdata_eq_Some by metis

lemma consuming_ReadCompactSize: "consuming (ReadCompactSize max_size)"
  unfolding consuming_def using ReadCompactSize_canonical(1) by metis

section \<open>Buffer operations\<close>

lemma content_write: "ds_wf s \<Longrightarrow> content (ds_write d s) = content s @ d \<and> ds_wf (ds_write d s)"
  by (simp add: content_def ds_write_def ds_wf_def)

lemma content_insert_front:
  "ds_wf s \<Longrightarrow> content (ds_insert_front d s) = d @ content s \<and> ds_wf (ds_insert_front d s)"
  by (auto simp: content_def ds_insert_front_def ds_wf_def min_absorb2)

lemma content_erase_front:
  "ds_wf s \<Longrightarrow> k \<le> length (content s) \<Longrightarrow> content (ds_erase (nReadPos s) (nReadPos s + k) s) = drop k (content s)"
  by (auto simp: content_def ds_erase_def ds_wf_def add.commute)

lemma content_rewind: "ds_rewind k s = Some s' \<Longrightarrow> drop k (content s') = content s"
  by (auto simp: content_def ds_rewind_def split: if_splits)

lemma content_Compact: "content (ds_Compact s) = content s \<and> ds_wf (ds_Compact s)"
  by (simp add: content_def ds_Compact_def ds_wf_def)

section \<open>Compressed streams\<close>

record CCompressedDataStream = CDataStream +
  m_bCompressed :: bool
  m_nCompressorVersion :: byte
  m_nSavedCompressedSize :: nat
  m_nSavedDecompressedSize :: nat

definition COMPRESSOR_VERSION :: byte where "COMPRESSOR_VERSION = 1"
definition COMPRESS_DISCARD_THRESHOLD :: rat where "COMPRESS_DISCARD_THRESHOLD = 3"
definition UNCOMPRESSED_SIZE_DISCARD_THRESHOLD :: nat where "UNCOMPRESSED_SIZE_DISCARD_THRESHOLD = 100"

definition CCompressedDataStream_new :: CCompressedDataStream where
  "CCompressedDataStream_new =
     \<lparr>vch = [], nReadPos = 0, m_bCompressed = False, m_nCompressorVersion = COMPRESSOR_VERSION,
      m_nSavedCompressedSize = 0, m_nSavedDecompressedSize = 0\<rparr>"

text \<open>
  The zstd functions: the size recorded in a frame, single-pass compression, and
  decompression into a buffer of a given size.
\<close>

datatype zstd_content_size = CONTENTSIZE nat | CONTENTSIZE_UNKNOWN | CONTENTSIZE_ERROR

record zstd =
  ZSTD_getFrameContentSize :: "bytes \<Rightarrow> zstd_content_size"
  ZSTD_compress :: "bytes \<Rightarrow> string + bytes"
  ZSTD_decompress :: "nat \<Rightarrow> bytes \<Rightarrow> string + bytes"

text \<open>\<open>StreamFailure\<close> is the exception of a read past the end; the others are returned errors.\<close>

datatype compress_error =
    StreamFailure | InvalidStreamPos | InvalidCompressorDataSize
  | ContentSizeError | ContentSizeUnknown | ZstdError string | SizeNotMatching

definition GetDecompressedSize :: "zstd \<Rightarrow> bytes \<Rightarrow> compress_error + nat" where
  "GetDecompressedSize Z pCompressedData =
     (case ZSTD_getFrameContentSize Z pCompressedData of
        CONTENTSIZE_ERROR \<Rightarrow> Inl ContentSizeError
      | CONTENTSIZE_UNKNOWN \<Rightarrow> Inl ContentSizeUnknown
      | CONTENTSIZE k \<Rightarrow> Inr k)"

definition LibDataCompress :: "zstd \<Rightarrow> bytes \<Rightarrow> compress_error + bytes" where
  "LibDataCompress Z src = (case ZSTD_compress Z src of Inl e \<Rightarrow> Inl (ZstdError e) | Inr d \<Rightarrow> Inr d)"

definition LibDataDecompress :: "zstd \<Rightarrow> nat \<Rightarrow> bytes \<Rightarrow> compress_error + bytes" where
  "LibDataDecompress Z nDstSize src =
     (case ZSTD_decompress Z nDstSize src of Inl e \<Rightarrow> Inl (ZstdError e) | Inr d \<Rightarrow> Inr d)"

text \<open>
  The size of the compressor data comes from the stream without a limit: adding it to the
  read position is addition modulo \<open>2 ^ 64\<close>, both in the check and in the update.
\<close>

definition Decompress :: "zstd \<Rightarrow> CCompressedDataStream \<Rightarrow> compress_error + CCompressedDataStream" where
  "Decompress Z s =
     (let nSavedCompressedSize = length (vch s) in
      case ds_unser ser_readdata8 s of None \<Rightarrow> Inl StreamFailure
      | Some (version, s) \<Rightarrow>
        (case ds_unser (ReadCompactSize UINT64_MAX) (s\<lparr>m_nCompressorVersion := version\<rparr>) of
           None \<Rightarrow> Inl StreamFailure
         | Some (nCompressorDataSize, s) \<Rightarrow>
             let nPos = unat (of_nat (nReadPos s) + nCompressorDataSize) in
             if nPos > length (vch s) then Inl InvalidCompressorDataSize
             else
               let s = s\<lparr>nReadPos := nPos\<rparr> in
               if vch s = [] then Inr (s\<lparr>m_nSavedDecompressedSize := nSavedCompressedSize\<rparr>)
               else
                 let pCompressedData = drop (nReadPos s) (vch s) in
                 case GetDecompressedSize Z pCompressedData of Inl e \<Rightarrow> Inl e
                 | Inr nSavedDecompressedSize \<Rightarrow>
                   (case LibDataDecompress Z nSavedDecompressedSize pCompressedData of Inl e \<Rightarrow> Inl e
                    | Inr vOut \<Rightarrow>
                        if length vOut \<noteq> nSavedDecompressedSize then Inl SizeNotMatching
                        else Inr (s\<lparr>m_nSavedCompressedSize := nSavedCompressedSize,
                                    m_nSavedDecompressedSize := length vOut,
                                    vch := vOut, nReadPos := 0\<rparr>))))"

definition SetData ::
  "zstd \<Rightarrow> bool \<Rightarrow> nat \<Rightarrow> bytes \<Rightarrow> bool \<Rightarrow> CCompressedDataStream \<Rightarrow> compress_error + CCompressedDataStream" where
  "SetData Z bCompressed nStreamPos vData bUncompressData s =
     (let s = s\<lparr>m_bCompressed := bCompressed, vch := vData\<rparr> in
      if nStreamPos > length (vch s) then Inl InvalidStreamPos
      else
        let s = s\<lparr>nReadPos := nStreamPos\<rparr> in
        if bCompressed then
          if bUncompressData then Decompress Z s
          else Inr (s\<lparr>m_nSavedCompressedSize := length (vch s)\<rparr>)
        else Inr (s\<lparr>m_nSavedDecompressedSize := length (vch s)\<rparr>))"

text \<open>
  Whether compression is given up: the gain is computed in double precision and compared
  with three percent.
\<close>

definition discard_compressed :: "nat \<Rightarrow> nat \<Rightarrow> bool" where
  "discard_compressed nCompressed nDataSize \<longleftrightarrow>
     nCompressed \<ge> nDataSize \<or>
     fl64 (100 - fl64 (fl64 (fl64 (of_nat nCompressed) / fl64 (of_nat nDataSize)) * 100))
       \<le> COMPRESS_DISCARD_THRESHOLD"

definition CompressData ::
  "zstd \<Rightarrow> nat \<Rightarrow> (bytes \<Rightarrow> bytes) \<Rightarrow> CCompressedDataStream \<Rightarrow> compress_error + CCompressedDataStream" where
  "CompressData Z nKeepUncompressedSize handler s =
     (let s = s\<lparr>m_nCompressorVersion := COMPRESSOR_VERSION, m_nSavedDecompressedSize := length (vch s)\<rparr>;
          k = nKeepUncompressedSize; nDataSize = length (vch s);
          uncompressed = s\<lparr>m_bCompressed := False, vch := handler (take k (vch s)) @ drop k (vch s)\<rparr>
      in if k > nDataSize then Inl InvalidStreamPos
      else
        let nDataSize = nDataSize - k in
        if nDataSize \<le> UNCOMPRESSED_SIZE_DISCARD_THRESHOLD then Inr uncompressed
        else
          case LibDataCompress Z (drop k (vch s)) of Inl e \<Rightarrow> Inl e
          | Inr d \<Rightarrow>
              if discard_compressed (length d + 2) nDataSize then Inr uncompressed
              else Inr (s\<lparr>m_bCompressed := True, m_nSavedCompressedSize := length d + 2,
                          vch := take k (vch s) @ [m_nCompressorVersion s, 0] @ d, nReadPos := 0\<rparr>))"

section \<open>Decompression inverts compression\<close>

definition zstd_laws :: "zstd \<Rightarrow> bool" where
  "zstd_laws Z \<longleftrightarrow>
     (\<forall>x c. ZSTD_compress Z x = Inr c \<longrightarrow>
        c \<noteq> [] \<and> ZSTD_getFrameContentSize Z c = CONTENTSIZE (length x) \<and>
        ZSTD_decompress Z (length x) c = Inr x)"

lemma zstd_roundtrip:
  assumes "zstd_laws Z" "LibDataCompress Z x = Inr c"
  shows "c \<noteq> []" "GetDecompressedSize Z c = Inr (length x)" "LibDataDecompress Z (length x) c = Inr x"
  using assms by (auto simp: zstd_laws_def LibDataCompress_def GetDecompressedSize_def LibDataDecompress_def
      split: sum.splits)

text \<open>Decompression of a frame written by \<open>CompressData\<close> after a prefix.\<close>

lemma Decompress_frame:
  assumes "zstd_laws Z" "LibDataCompress Z x = Inr c" "length p + 2 + length c < 2 ^ 64"
    and "vch s = p @ [version, 0] @ c" "nReadPos s = length p"
  shows "\<exists>s'. Decompress Z s = Inr s' \<and> content s' = x \<and> nReadPos s' = 0
    \<and> m_nSavedDecompressedSize s' = length x \<and> m_nSavedCompressedSize s' = length (vch s)
    \<and> m_bCompressed s' = m_bCompressed s"
proof -
  note z = zstd_roundtrip [OF assms(1,2)]
  have wf: "ds_wf s" "content s = [version, 0] @ c" using assms(4,5) by (simp_all add: ds_wf_def content_def)
  have 1: "ds_unser ser_readdata8 s = Some (version, s\<lparr>nReadPos := length p + 1\<rparr>)"
    using wf assms(4,5) by (simp add: ds_unser_def ds_skip_eq)
  let ?s1 = "s\<lparr>nReadPos := length p + 1, m_nCompressorVersion := version\<rparr>"
  have c1: "content ?s1 = 0 # c" "ds_wf ?s1" using assms(4) by (simp_all add: content_def ds_wf_def)
  have "ReadCompactSize UINT64_MAX (0 # c) = Some (0, c)" by (simp add: ReadCompactSize_def)
  then have 2: "ds_unser (ReadCompactSize UINT64_MAX) ?s1 = Some (0, ?s1\<lparr>nReadPos := length p + 2\<rparr>)"
    using c1 assms(4) z(1) by (simp add: ds_unser_def ds_skip_eq)
  have pos: "unat (of_nat (length p + 2) + 0 :: u64) = length p + 2"
    using assms(3) by (simp only: add_0_right unsigned_of_nat) (simp add: take_bit_nat_eq_self)
  show ?thesis
    using assms(4) z pos by (simp add: Decompress_def 1 2 [simplified] Let_def content_def)
qed

lemma CompressData_cases:
  assumes "CompressData Z k handler s = Inr s'"
  obtains (plain) "k \<le> length (vch s)" "\<not> m_bCompressed s'" "vch s' = handler (take k (vch s)) @ drop k (vch s)"
  | (compressed) d where "k \<le> length (vch s)" "m_bCompressed s'" "LibDataCompress Z (drop k (vch s)) = Inr d"
      "vch s' = take k (vch s) @ [COMPRESSOR_VERSION, 0] @ d" "length d + 2 < length (vch s) - k"
  using assms
  by (auto simp: CompressData_def Let_def discard_compressed_def split: if_splits sum.splits)

text \<open>
  Setting a stream from what \<open>CompressData\<close> left in another gives the original data after the
  prefix, whether or not compression paid off.
\<close>

lemma SetData_CompressData:
  assumes "zstd_laws Z" "CompressData Z k handler s = Inr s'" "length (vch s) < 2 ^ 64"
    and "\<And>p. length (handler p) = length p"
  shows "\<exists>t'. SetData Z (m_bCompressed s') k (vch s') True t = Inr t' \<and> content t' = drop k (vch s)
    \<and> m_bCompressed t' = m_bCompressed s'"
  using assms(2)
proof (cases rule: CompressData_cases)
  case plain
  then show ?thesis using assms(4) by (simp add: SetData_def content_def min_absorb2)
next
  case (compressed d)
  define t1 where "t1 = t\<lparr>m_bCompressed := True, vch := vch s', nReadPos := k\<rparr>"
  have "\<exists>t'. Decompress Z t1 = Inr t' \<and> content t' = drop k (vch s) \<and> nReadPos t' = 0
      \<and> m_nSavedDecompressedSize t' = length (drop k (vch s)) \<and> m_nSavedCompressedSize t' = length (vch t1)
      \<and> m_bCompressed t' = m_bCompressed t1"
    using compressed assms(1,3)
    by (intro Decompress_frame [where p = "take k (vch s)" and c = d and version = COMPRESSOR_VERSION])
      (auto simp: t1_def min_absorb2)
  moreover have "SetData Z (m_bCompressed s') k (vch s') True t = Decompress Z t1"
    using compressed by (simp add: SetData_def t1_def)
  ultimately show ?thesis using compressed(2) by (auto simp: t1_def)
qed

end
