(* ===== verification/TicketTypes.thy ===== *)
theory TicketTypes
  imports P2FMS DataStream
begin

text \<open>
  The ticket kinds of \<open>mnode/tickets/ticket-types.h\<close> with their table, the validation result
  of \<open>mnode/tickets/ticket.h\<close>, and the first byte of the ticket data, which holds the kind in
  seven bits and the compression flag in the eighth (\<open>preParseTicket\<close> of
  \<open>mnode/ticket-processor.cpp\<close>).
\<close>

section \<open>Ticket kinds\<close>

datatype TicketID =
    PastelID | NFT | Activate | Offer | Accept | Transfer | Down | Royalty | Username
  | EthereumAddress | ActionReg | ActionActivate | CollectionReg | CollectionAct | Contract

definition ticket_ids :: "TicketID list" where
  "ticket_ids = [PastelID, NFT, Activate, Offer, Accept, Transfer, Down, Royalty, Username,
     EthereumAddress, ActionReg, ActionActivate, CollectionReg, CollectionAct, Contract]"

fun ticket_integral :: "TicketID \<Rightarrow> nat" where
  "ticket_integral PastelID = 0"
| "ticket_integral NFT = 1"
| "ticket_integral Activate = 2"
| "ticket_integral Offer = 3"
| "ticket_integral Accept = 4"
| "ticket_integral Transfer = 5"
| "ticket_integral Down = 6"
| "ticket_integral Royalty = 7"
| "ticket_integral Username = 8"
| "ticket_integral EthereumAddress = 9"
| "ticket_integral ActionReg = 10"
| "ticket_integral ActionActivate = 11"
| "ticket_integral CollectionReg = 12"
| "ticket_integral CollectionAct = 13"
| "ticket_integral Contract = 14"

definition TICKET_COUNT :: nat where "TICKET_COUNT = 15"

text \<open>The order of the kinds is that of their numbers.\<close>

instantiation TicketID :: linorder
begin

definition less_eq_TicketID_def: "a \<le> b \<longleftrightarrow> ticket_integral a \<le> ticket_integral b"
definition less_TicketID_def: "a < b \<longleftrightarrow> ticket_integral a < ticket_integral b"

instance
proof
  fix a b :: TicketID
  show "a \<le> b \<Longrightarrow> b \<le> a \<Longrightarrow> a = b"
    unfolding less_eq_TicketID_def by (cases a; cases b; simp)
qed (auto simp: less_eq_TicketID_def less_TicketID_def)

end

record TicketInfo =
  info_id :: TicketID
  szDescription :: string
  szName :: string
  info_nVersion :: nat
  szDBSubFolder :: string
  defaultFee :: CAmount

definition TICKET_INFO :: "TicketInfo list" where
  "TICKET_INFO = map (\<lambda>(i, d, m, v, f, c).
       \<lparr>info_id = i, szDescription = d, szName = m, info_nVersion = v, szDBSubFolder = f, defaultFee = c\<rparr>)
     [(PastelID, ''Pastel ID Registration'', ''pastelid'', 1, ''pslids'', 10),
      (NFT, ''NFT Registration'', ''nft-reg'', 1, ''nftreg'', 10),
      (Activate, ''NFT Activation'', ''nft-act'', 0, ''nftcnf'', 10),
      (Offer, ''Offer'', ''offer'', 0, ''offer'', 10),
      (Accept, ''Accept'', ''accept'', 0, ''accept'', 10),
      (Transfer, ''Transfer'', ''transfer'', 0, ''transfer'', 10),
      (Down, ''Take Down'', ''take-down'', 0, ''nfttdn'', 1000),
      (Royalty, ''NFT Royalty'', ''nft-royalty'', 1, ''nftrty'', 10),
      (Username, ''Username Change'', ''username-change'', 1, ''usrnme'', 100),
      (EthereumAddress, ''Ethereum Address Change'', ''ethereum-address-change'', 1, ''ethaddr'', 100),
      (ActionReg, ''Action Registration'', ''action-reg'', 1, ''actreg'', 10),
      (ActionActivate, ''Action Activation'', ''action-act'', 1, ''actcnf'', 10),
      (CollectionReg, ''Collection Registration'', ''collection-reg'', 1, ''collreg'', 10),
      (CollectionAct, ''Collection Activation'', ''collection-act'', 1, ''collact'', 10),
      (Contract, ''Contract'', ''contract'', 1, ''contract'', 10)]"

definition GetTicketName :: "TicketID \<Rightarrow> string" where
  "GetTicketName i = szName (TICKET_INFO ! ticket_integral i)"

definition GetTicketDescription :: "TicketID \<Rightarrow> string" where
  "GetTicketDescription i = szDescription (TICKET_INFO ! ticket_integral i)"

definition TicketPricePSL_default :: "TicketID \<Rightarrow> CAmount" where
  "TicketPricePSL_default i = defaultFee (TICKET_INFO ! ticket_integral i)"

text \<open>The cast \<open>static_cast<TicketID>\<close> after the range check.\<close>

definition ticket_of_nat :: "nat \<Rightarrow> TicketID option" where
  "ticket_of_nat k = (if k \<ge> TICKET_COUNT then None else Some (ticket_ids ! k))"

lemma ticket_ids_nth: "ticket_ids ! ticket_integral i = i"
  by (cases i) (simp_all add: ticket_ids_def)

lemma ticket_integral_nth: "k < TICKET_COUNT \<Longrightarrow> ticket_integral (ticket_ids ! k) = k"
proof -
  have "list_all (\<lambda>k. ticket_integral (ticket_ids ! k) = k) [0..<TICKET_COUNT]" by code_simp
  then show "k < TICKET_COUNT \<Longrightarrow> ?thesis" by (simp add: list_all_iff)
qed

lemma ticket_integral_less: "ticket_integral i < TICKET_COUNT"
  by (cases i) (simp_all add: TICKET_COUNT_def)

lemma ticket_of_nat_eq_Some: "ticket_of_nat k = Some i \<longleftrightarrow> k = ticket_integral i"
  using ticket_integral_nth [of k] ticket_integral_less [of i]
  by (auto simp: ticket_of_nat_def ticket_ids_nth)

section \<open>Validation results\<close>

datatype TICKET_VALIDATION_STATE = INVALID | VALID | MISSING_INPUTS | NOT_TICKET

text \<open>
  The state with the error message; \<open>setValid\<close> clears the message. Messages are reduced to a
  short name of the failed check.
\<close>

record ticket_validation_t =
  tv_state :: TICKET_VALIDATION_STATE
  tv_error :: string

definition tv_default :: ticket_validation_t where
  "tv_default = \<lparr>tv_state = INVALID, tv_error = []\<rparr>"

definition tv_invalid :: "string \<Rightarrow> ticket_validation_t" where
  "tv_invalid e = \<lparr>tv_state = INVALID, tv_error = e\<rparr>"

definition setValid :: ticket_validation_t where
  "setValid = \<lparr>tv_state = VALID, tv_error = []\<rparr>"

definition IsNotValid :: "ticket_validation_t \<Rightarrow> bool" where
  "IsNotValid tv \<longleftrightarrow> tv_state tv \<noteq> VALID"

section \<open>The first byte of the ticket data\<close>

definition TICKET_COMPRESS_ENABLE_MASK :: byte where "TICKET_COMPRESS_ENABLE_MASK = 0x80"
definition TICKET_COMPRESS_DISABLE_MASK :: byte where "TICKET_COMPRESS_DISABLE_MASK = 0x7F"

text \<open>\<open>PreParseThrows\<close> is the stream exception that leaves \<open>preParseTicket\<close>.\<close>

datatype preparse_error =
    NotP2FMS p2fms_error | EmptyData | UnknownTicketType byte
  | UncompressFailed TicketID compress_error | PreParseThrows

definition parse_ticket_data ::
  "zstd \<Rightarrow> bool \<Rightarrow> bytes \<Rightarrow> CCompressedDataStream \<Rightarrow> preparse_error + (TicketID \<times> CCompressedDataStream)" where
  "parse_ticket_data Z bUncompressData vOutputData data_stream =
     (case vOutputData of [] \<Rightarrow> Inl EmptyData
      | nTicketID # _ \<Rightarrow>
          let bCompressed = nTicketID AND TICKET_COMPRESS_ENABLE_MASK > 0;
              nTicketID = nTicketID AND TICKET_COMPRESS_DISABLE_MASK
          in case ticket_of_nat (unat nTicketID) of
               None \<Rightarrow> Inl (UnknownTicketType nTicketID)
             | Some ticket_id \<Rightarrow>
                 (case SetData Z bCompressed 1 vOutputData bUncompressData data_stream of
                    Inl StreamFailure \<Rightarrow> Inl PreParseThrows
                  | Inl e \<Rightarrow> Inl (UncompressFailed ticket_id e)
                  | Inr s \<Rightarrow> Inr (ticket_id, s)))"

definition preParseTicket ::
  "zstd \<Rightarrow> bool \<Rightarrow> nat \<Rightarrow> (bytes \<Rightarrow> uint256) \<Rightarrow> bool \<Rightarrow> CTxOut list \<Rightarrow> CCompressedDataStream \<Rightarrow>
   (preparse_error + (TicketID \<times> CCompressedDataStream)) \<times> nat \<times> CAmount" where
  "preParseTicket Z datacarrier maxdata Hash bUncompressData outs data_stream =
     (case ParseP2FMSTransaction datacarrier maxdata Hash outs of
        (Inl e, nCount, nFee) \<Rightarrow> (Inl (NotP2FMS e), nCount, nFee)
      | (Inr vOutputData, nCount, nFee) \<Rightarrow>
          (parse_ticket_data Z bUncompressData vOutputData data_stream, nCount, nFee))"

text \<open>The stream that \<open>SendTicket\<close> fills: the kind with the flag set, the ticket, compressed.\<close>

definition ticket_id_byte :: "TicketID \<Rightarrow> byte" where
  "ticket_id_byte i = of_nat (ticket_integral i) OR TICKET_COMPRESS_ENABLE_MASK"

definition clear_compress_flag :: "TicketID \<Rightarrow> bytes \<Rightarrow> bytes" where
  "clear_compress_flag i p =
     (case p of [] \<Rightarrow> [] | _ # r \<Rightarrow> (ticket_id_byte i AND TICKET_COMPRESS_DISABLE_MASK) # r)"

definition ticket_data_stream :: "zstd \<Rightarrow> TicketID \<Rightarrow> bytes \<Rightarrow> compress_error + CCompressedDataStream" where
  "ticket_data_stream Z i ticket =
     CompressData Z 1 (clear_compress_flag i)
       (ds_write ticket (ds_write [ticket_id_byte i] CCompressedDataStream_new))"

lemma ticket_id_byte_bits:
  "ticket_id_byte i AND TICKET_COMPRESS_ENABLE_MASK > 0"
  "(ticket_id_byte i AND TICKET_COMPRESS_DISABLE_MASK) AND TICKET_COMPRESS_ENABLE_MASK = 0"
  "unat (ticket_id_byte i AND TICKET_COMPRESS_DISABLE_MASK) = ticket_integral i"
  "(ticket_id_byte i AND TICKET_COMPRESS_DISABLE_MASK) AND TICKET_COMPRESS_DISABLE_MASK =
   ticket_id_byte i AND TICKET_COMPRESS_DISABLE_MASK"
  by (cases i; simp add: ticket_id_byte_def TICKET_COMPRESS_ENABLE_MASK_def TICKET_COMPRESS_DISABLE_MASK_def)+

lemma parse_ticket_data_stream:
  assumes "zstd_laws Z" "ticket_data_stream Z i ticket = Inr s" "length ticket + 1 < 2 ^ 64"
  shows "\<exists>t'. parse_ticket_data Z True (vch s) t = Inr (i, t') \<and> content t' = ticket
    \<and> m_bCompressed t' = m_bCompressed s"
proof -
  let ?s0 = "ds_write ticket (ds_write [ticket_id_byte i] CCompressedDataStream_new)"
  have s0: "vch ?s0 = ticket_id_byte i # ticket" by (simp add: ds_write_def CCompressedDataStream_new_def)
  have c: "CompressData Z 1 (clear_compress_flag i) ?s0 = Inr s"
    using assms(2) by (simp add: ticket_data_stream_def)
  have "length (clear_compress_flag i p) = length p" for p
    by (simp add: clear_compress_flag_def split: list.splits)
  then obtain t' where t': "SetData Z (m_bCompressed s) 1 (vch s) True t = Inr t'" "content t' = ticket"
      "m_bCompressed t' = m_bCompressed s"
    using SetData_CompressData [OF assms(1) c] assms(3) s0 by force
  have "\<exists>b r. vch s = b # r \<and> (b AND TICKET_COMPRESS_ENABLE_MASK > 0 \<longleftrightarrow> m_bCompressed s)
      \<and> unat (b AND TICKET_COMPRESS_DISABLE_MASK) = ticket_integral i"
    using c by (cases rule: CompressData_cases) (simp_all add: s0 clear_compress_flag_def ticket_id_byte_bits)
  then obtain b r where b: "vch s = b # r" "b AND TICKET_COMPRESS_ENABLE_MASK > 0 \<longleftrightarrow> m_bCompressed s"
      "ticket_of_nat (unat (b AND TICKET_COMPRESS_DISABLE_MASK)) = Some i"
    using ticket_of_nat_eq_Some by blast
  then show ?thesis using t' by (simp add: parse_ticket_data_def Let_def)
qed

text \<open>
  A parsed kind is the low seven bits of the first byte, and whatever the byte is, parsing
  never yields a kind outside the table.
\<close>

lemma parse_ticket_data_id:
  assumes "parse_ticket_data Z u d t = Inr (i, t')"
  shows "\<exists>b r. d = b # r \<and> unat (b AND TICKET_COMPRESS_DISABLE_MASK) = ticket_integral i"
  using assms ticket_of_nat_eq_Some
  by (auto simp: parse_ticket_data_def Let_def split: list.splits option.splits sum.splits compress_error.splits)

end
