(* ===== verification/TicketSend.thy ===== *)
theory TicketSend
  imports TicketTypes P2FMSBuilder
begin

text \<open>
  The path of a ticket from the node that creates it to the chain: signing and \<open>build\<close> of
  \<open>mnode/p2fms-txbuilder.cpp\<close>, \<open>SendTicket\<close> and \<open>StoreP2FMSTransaction\<close> of
  \<open>mnode/ticket-processor.cpp\<close>. The signer, the memory pool's verdict, the address decoder,
  the hashes, zstd and the wallet's coins are fields of the environment record.
\<close>

section \<open>Signing and building\<close>

text \<open>
  Every input is signed by its own task; a task writes only the script of its input, which the signatures
  of the others do not cover, so the tasks are run one after the other here. A
  missing signature fails the whole transaction, after all tasks have run.
\<close>

definition UpdateTransaction :: "CMutableTransaction \<Rightarrow> nat \<Rightarrow> CScript \<Rightarrow> CMutableTransaction" where
  "UpdateTransaction tx i sig = tx\<lparr>vin := (vin tx)[i := (vin tx ! i)\<lparr>scriptSig := sig\<rparr>]\<rparr>"

fun sign_inputs ::
  "(CMutableTransaction \<Rightarrow> nat \<Rightarrow> CTxOut \<Rightarrow> CScript option) \<Rightarrow> COutput list \<Rightarrow> nat list \<Rightarrow>
   CMutableTransaction \<times> bool \<Rightarrow> CMutableTransaction \<times> bool" where
  "sign_inputs ProduceSignature selected [] (tx, err) = (tx, err)"
| "sign_inputs ProduceSignature selected (i # is) (tx, err) =
     (case ProduceSignature tx i (out_txout (selected ! i)) of
        None \<Rightarrow> sign_inputs ProduceSignature selected is (tx, True)
      | Some sig \<Rightarrow> sign_inputs ProduceSignature selected is (UpdateTransaction tx i sig, err))"

definition SignTransaction ::
  "(CMutableTransaction \<Rightarrow> nat \<Rightarrow> CTxOut \<Rightarrow> CScript option) \<Rightarrow> COutput list \<Rightarrow> CMutableTransaction \<Rightarrow>
   build_error + CMutableTransaction" where
  "SignTransaction ProduceSignature selected tx =
     (case sign_inputs ProduceSignature selected [0..<length (vin tx)] (tx, False) of
        (tx', err) \<Rightarrow> if err then Inl SignError else Inr tx')"

datatype mempool_verdict = Accepted | Rejected string | MissingInputs | NotAccepted string

record ticket_env =
  env_wallet :: bool
  env_locked :: bool
  env_fees :: WalletFees
  env_coins :: "COutput list"
  env_new_tx :: CMutableTransaction
  env_datacarrier :: bool
  env_maxdata :: nat
  env_Hash :: "bytes \<Rightarrow> uint256"
  env_Hash160 :: "bytes \<Rightarrow> uint160"
  env_DecodeDestination :: "string \<Rightarrow> CTxDestination"
  env_ProduceSignature :: "CMutableTransaction \<Rightarrow> nat \<Rightarrow> CTxOut \<Rightarrow> CScript option"
  env_AcceptToMemoryPool :: "CMutableTransaction \<Rightarrow> mempool_verdict"
  env_zstd :: zstd

definition build ::
  "ticket_env \<Rightarrow> bytes \<Rightarrow> CAmount \<Rightarrow> CTxOut list \<Rightarrow> CAmount \<Rightarrow> string option \<Rightarrow> build_error + CMutableTransaction" where
  "build env input_stream nPriceInPSL vExtraOutputs nExtraAmountInPat sFundingAddress =
     (case PreprocessAndValidate (env_DecodeDestination env) (env_Hash env) (env_wallet env) (env_locked env)
             input_stream sFundingAddress of
        Inl e \<Rightarrow> Inl e
      | Inr (scripts, fundingAddress) \<Rightarrow>
          (case BuildTransaction (env_fees env) (env_datacarrier env) (env_maxdata env) (env_Hash160 env)
                  \<lparr>m_nPriceInPSL = nPriceInPSL, m_vExtraOutputs = vExtraOutputs,
                   m_nExtraAmountInPat = nExtraAmountInPat, m_fundingAddress = fundingAddress,
                   m_vOutScripts = scripts\<rparr> (env_new_tx env) (env_coins env) of
             Inl e \<Rightarrow> Inl e
           | Inr st \<Rightarrow> SignTransaction (env_ProduceSignature env) (m_vSelectedOutputs st) (tx_out st)))"

section \<open>Sending a ticket\<close>

definition StoreP2FMSTransaction :: "ticket_env \<Rightarrow> CMutableTransaction \<Rightarrow> string option" where
  "StoreP2FMSTransaction env tx =
     (case env_AcceptToMemoryPool env tx of
        Accepted \<Rightarrow> None
      | Rejected reason \<Rightarrow> Some reason
      | MissingInputs \<Rightarrow> Some ''Missing inputs''
      | NotAccepted reason \<Rightarrow> Some reason)"

datatype send_error =
  TicketInvalid string | CompressFailed compress_error | CreateFailed build_error | StoreFailed string

text \<open>
  \<open>tv\<close>, \<open>extra\<close>, \<open>ticket\<close> and \<open>nPricePSL\<close> are what the ticket's own \<open>IsValid\<close>, \<open>GetExtraOutputs\<close>,
  \<open>Serialize\<close> and \<open>TicketPricePSL\<close> return.
\<close>

definition SendTicket ::
  "ticket_env \<Rightarrow> ticket_validation_t \<Rightarrow> CTxOut list \<times> CAmount \<Rightarrow> TicketID \<Rightarrow> bytes \<Rightarrow> CAmount \<Rightarrow> string option \<Rightarrow>
   send_error + CMutableTransaction" where
  "SendTicket env tv extra ticket_id ticket nPricePSL sFundingAddress =
     (if IsNotValid tv then Inl (TicketInvalid (tv_error tv))
      else case extra of (vExtraOutputs, nExtraAmountInPat) \<Rightarrow>
        (case ticket_data_stream (env_zstd env) ticket_id ticket of
           Inl e \<Rightarrow> Inl (CompressFailed e)
         | Inr data_stream \<Rightarrow>
             (case build env (content data_stream) nPricePSL vExtraOutputs nExtraAmountInPat sFundingAddress of
                Inl e \<Rightarrow> Inl (CreateFailed e)
              | Inr tx \<Rightarrow>
                  (case StoreP2FMSTransaction env tx of
                     Some e \<Rightarrow> Inl (StoreFailed e)
                   | None \<Rightarrow> Inr tx))))"

section \<open>What is sent is what is parsed\<close>

lemma sign_inputs_vout:
  "sign_inputs P sel is (tx, err) = (tx', err') \<Longrightarrow> vout tx' = vout tx \<and> length (vin tx') = length (vin tx)"
  by (induction P sel "is" "(tx, err)" arbitrary: tx err rule: sign_inputs.induct)
    (auto simp: UpdateTransaction_def split: option.splits)

lemma SignTransaction_vout: "SignTransaction P sel tx = Inr tx' \<Longrightarrow> vout tx' = vout tx"
  by (auto simp: SignTransaction_def dest: sign_inputs_vout split: prod.splits if_splits)

lemma PreprocessAndValidate_scripts:
  "PreprocessAndValidate D Hash w l d a = Inr (scripts, addr) \<Longrightarrow> scripts = CreateP2FMSScripts Hash d"
  by (auto simp: PreprocessAndValidate_def Let_def split: if_splits option.splits)

lemma ticket_data_stream_pos: "ticket_data_stream Z i ticket = Inr s \<Longrightarrow> nReadPos s = 0"
  by (auto simp: ticket_data_stream_def CompressData_def Let_def ds_write_def CCompressedDataStream_new_def
      split: if_splits sum.splits)

lemma ticket_data_stream_length:
  assumes "ticket_data_stream Z i ticket = Inr s"
  shows "length (vch s) \<le> length ticket + 1"
  using assms unfolding ticket_data_stream_def
  by (cases rule: CompressData_cases)
    (auto simp: ds_write_def CCompressedDataStream_new_def clear_compress_flag_def)

lemma length_p2fms_scripts: "length (p2fms_scripts input) \<le> length input"
proof (induction input rule: p2fms_scripts.induct)
  case (1 input)
  show ?case
  proof (cases "input = []")
    case False
    obtain script m rest where a: "add_chunks (push_opcode [] (the (EncodeOP_N 1))) 0 input = (script, m, rest)"
      by (cases "add_chunks (push_opcode [] (the (EncodeOP_N 1))) 0 input")
    have "length (p2fms_scripts rest) \<le> length rest" by (rule 1 [OF False a [symmetric] refl])
    with add_chunks_step [OF False a] a False show ?thesis
      by (simp add: p2fms_scripts.simps [of input])
  qed (simp add: p2fms_scripts.simps)
qed

lemma length_CreateP2FMSScripts: "length (CreateP2FMSScripts Hash d) \<le> length d + 73"
proof -
  have "length (vInputData Hash d) \<le> length d + 73"
    by (simp add: vInputData_def Let_def FAKE_KEY_SIZE_def WriteLE64_def ser_uint256_def)
  then show ?thesis using length_p2fms_scripts [of "vInputData Hash d"] by (simp add: CreateP2FMSScripts_def)
qed

text \<open>What \<open>build\<close> gives the builder, and that signing leaves the outputs as they were built.\<close>

lemma build_built:
  assumes "build env d price extra amount addr = Inr tx"
  shows "\<exists>b st. BuildTransaction (env_fees env) (env_datacarrier env) (env_maxdata env) (env_Hash160 env) b (env_new_tx env) (env_coins env) = Inr st \<and>
    m_vOutScripts b = CreateP2FMSScripts (env_Hash env) d \<and> m_nPriceInPSL b = price \<and> m_vExtraOutputs b = extra \<and>
    m_nExtraAmountInPat b = amount \<and> vout tx = vout (tx_out st)"
proof -
  obtain scripts funding st where
      "PreprocessAndValidate (env_DecodeDestination env) (env_Hash env) (env_wallet env) (env_locked env) d addr = Inr (scripts, funding)"
      "BuildTransaction (env_fees env) (env_datacarrier env) (env_maxdata env) (env_Hash160 env)
        \<lparr>m_nPriceInPSL = price, m_vExtraOutputs = extra, m_nExtraAmountInPat = amount, m_fundingAddress = funding, m_vOutScripts = scripts\<rparr>
        (env_new_tx env) (env_coins env) = Inr st"
      "SignTransaction (env_ProduceSignature env) (m_vSelectedOutputs st) (tx_out st) = Inr tx"
    using assms by (auto simp: build_def split: sum.splits prod.splits)
  then show ?thesis using PreprocessAndValidate_scripts SignTransaction_vout by fastforce
qed

text \<open>
  An instance of the zstd functions that satisfies the laws: blocks of zero bytes are replaced
  by their length, everything else is stored.
\<close>

definition zeros_compress :: "bytes \<Rightarrow> string + bytes" where
  "zeros_compress x =
     (if list_all (\<lambda>b. b = 0) x \<and> length x < 256 then Inr [1, of_nat (length x)] else Inr (0 # x))"

definition zeros_size :: "bytes \<Rightarrow> zstd_content_size" where
  "zeros_size c =
     (case c of [] \<Rightarrow> CONTENTSIZE_ERROR
      | t # r \<Rightarrow> CONTENTSIZE (if t = 1 then unat (hd r) else length r))"

definition zeros_decompress :: "nat \<Rightarrow> bytes \<Rightarrow> string + bytes" where
  "zeros_decompress k c =
     (case c of [] \<Rightarrow> Inl ''empty''
      | t # r \<Rightarrow> Inr (if t = 1 then replicate (unat (hd r)) 0 else r))"

definition zeros_zstd :: zstd where
  "zeros_zstd = \<lparr>ZSTD_getFrameContentSize = zeros_size, ZSTD_compress = zeros_compress, ZSTD_decompress = zeros_decompress\<rparr>"

lemma zeros_zstd_laws: "zstd_laws zeros_zstd"
proof -
  have "unat (of_nat k :: byte) = k" if "k < 256" for k
    using that by (simp add: unsigned_of_nat take_bit_nat_eq_self)
  moreover have "list_all (\<lambda>b. b = 0) x \<Longrightarrow> replicate (length x) 0 = x" for x :: bytes
    by (induction x) simp_all
  ultimately show ?thesis
    by (auto simp: zstd_laws_def zeros_zstd_def zeros_compress_def zeros_size_def zeros_decompress_def split: if_splits)
qed

definition sample_env :: ticket_env where
  "sample_env = \<lparr>env_wallet = True, env_locked = False, env_fees = sample_fees, env_coins = sample_coins,
     env_new_tx = CMutableTransaction_default, env_datacarrier = True, env_maxdata = 80, env_Hash = (\<lambda>_. 5),
     env_Hash160 = (\<lambda>_. []), env_DecodeDestination = (\<lambda>_. CNoDestination), env_ProduceSignature = (\<lambda>_ _ _. Some [1]),
     env_AcceptToMemoryPool = (\<lambda>_. Accepted), env_zstd = zeros_zstd\<rparr>"

lemma SendTicket_built:
  assumes "SendTicket env tv (extra, amount) ticket_id ticket price addr = Inr tx"
  shows "\<exists>ds. ticket_data_stream (env_zstd env) ticket_id ticket = Inr ds \<and> build env (vch ds) price extra amount addr = Inr tx \<and>
    length (vch ds) \<le> length ticket + 1"
proof -
  obtain ds where ds: "ticket_data_stream (env_zstd env) ticket_id ticket = Inr ds" "build env (content ds) price extra amount addr = Inr tx"
    using assms by (auto simp: SendTicket_def split: if_splits sum.splits option.splits)
  moreover have "content ds = vch ds" using ticket_data_stream_pos [OF ds(1)] by (simp add: content_def)
  ultimately show ?thesis using ticket_data_stream_length [OF ds(1)] by auto
qed

lemma SendTicket_parsed:
  assumes "SendTicket env tv (extra, amount) ticket_id ticket price addr = Inr tx" "zstd_laws (env_zstd env)"
    and "length ticket < 2 ^ 59" "vin (env_new_tx env) = []" "0 \<le> price" "price * COIN < 2 ^ 63"
    and "list_all (\<lambda>c. \<not> is_multisig (env_datacarrier env) (env_maxdata env) (scriptPubKey (out_txout c))) (env_coins env)"
    and "list_all (\<lambda>out. \<not> is_multisig (env_datacarrier env) (env_maxdata env) (scriptPubKey out)) extra"
  shows "\<exists>s' b st. preParseTicket (env_zstd env) (env_datacarrier env) (env_maxdata env) (env_Hash env) True (vout tx) s =
      (Inr (ticket_id, s'), length (m_vOutScripts b), price * COIN) \<and> content s' = ticket \<and>
    BuildTransaction (env_fees env) (env_datacarrier env) (env_maxdata env) (env_Hash160 env) b (env_new_tx env) (env_coins env) = Inr st \<and>
    m_vOutScripts b \<noteq> [] \<and> length (m_vOutScripts b) \<le> length ticket + 74 \<and> m_nPriceInPSL b = price \<and> m_vExtraOutputs b = extra \<and>
    m_nExtraAmountInPat b = amount \<and> vout tx = vout (tx_out st)"
proof -
  obtain ds where ds: "ticket_data_stream (env_zstd env) ticket_id ticket = Inr ds" "build env (vch ds) price extra amount addr = Inr tx"
      "length (vch ds) \<le> length ticket + 1" using SendTicket_built [OF assms(1)] by blast
  obtain b st where b: "BuildTransaction (env_fees env) (env_datacarrier env) (env_maxdata env) (env_Hash160 env) b (env_new_tx env) (env_coins env) = Inr st"
      "m_vOutScripts b = CreateP2FMSScripts (env_Hash env) (vch ds)" "m_nPriceInPSL b = price" "m_vExtraOutputs b = extra"
      "m_nExtraAmountInPat b = amount" "vout tx = vout (tx_out st)" using build_built [OF ds(2)] by blast
  have l: "length (m_vOutScripts b) \<le> length ticket + 74" using length_CreateP2FMSScripts [of "env_Hash env" "vch ds"] ds(3) b(2) by simp
  have "ParseP2FMSTransaction (env_datacarrier env) (env_maxdata env) (env_Hash env) (vout tx) = (Inr (vch ds), length (m_vOutScripts b), price * COIN)"
    unfolding b(6) using BuildTransaction_parse_outputs [OF b(1) assms(4) b(2)] assms(3-8) b(3,4) ds(3) l
    by (simp add: nPriceInPat_def fits_u64_def COIN_def)
  moreover obtain s' where "parse_ticket_data (env_zstd env) True (vch ds) s = Inr (ticket_id, s')" "content s' = ticket"
    using parse_ticket_data_stream [OF assms(2) ds(1), of s] assms(3) by auto
  moreover have "m_vOutScripts b \<noteq> []" using CreateP2FMSScripts_parse(3) b(2) by simp
  ultimately show ?thesis using b l by (intro exI [of _ s'] exI [of _ b] exI [of _ st]) (simp add: preParseTicket_def)
qed

text \<open>
  C4. A ticket sent by one node is the ticket parsed by another: when \<open>SendTicket\<close> succeeds,
  pre-parsing the transaction yields the ticket's kind and a stream whose content is exactly
  the serialized ticket, compressed on the way or not, and reports the ticket price as the
  amount carried by the fake keys. Neither a coin of the wallet (the change goes back to the script
  of one) nor an extra output may itself be a bare multisignature, which the parser would take for a fake key.
\<close>

theorem SendTicket_preParseTicket:
  assumes "SendTicket env tv (extra, amount) ticket_id ticket price addr = Inr tx" "zstd_laws (env_zstd env)"
    and "length ticket < 2 ^ 59" "vin (env_new_tx env) = []" "0 \<le> price" "price * COIN < 2 ^ 63"
    and "list_all (\<lambda>c. \<not> is_multisig (env_datacarrier env) (env_maxdata env) (scriptPubKey (out_txout c))) (env_coins env)"
    and "list_all (\<lambda>out. \<not> is_multisig (env_datacarrier env) (env_maxdata env) (scriptPubKey out)) extra"
  shows "\<exists>s' k. preParseTicket (env_zstd env) (env_datacarrier env) (env_maxdata env) (env_Hash env) True (vout tx) s =
      (Inr (ticket_id, s'), k, price * COIN) \<and> content s' = ticket"
  using SendTicket_parsed [OF assms, of s] by blast

theorem SendTicket_preParseTicket_witness:
  "\<exists>tx s' k. SendTicket sample_env setValid ([], 0) Offer (replicate 120 0) 1 None = Inr tx
     \<and> preParseTicket zeros_zstd True 80 (\<lambda>_. 5) True (vout tx) CCompressedDataStream_new = (Inr (Offer, s'), k, 100000)
     \<and> content s' = replicate 120 0"
proof -
  let ?r = "SendTicket sample_env setValid ([], 0) Offer (replicate 120 0) 1 None"
  have "\<not> isl ?r" by code_simp
  then obtain tx where tx: "?r = Inr tx" by (cases ?r) simp_all
  have "list_all (\<lambda>c. \<not> is_multisig True 80 (scriptPubKey (out_txout c))) sample_coins" by code_simp
  then show ?thesis
    using SendTicket_preParseTicket [OF tx, of CCompressedDataStream_new] zeros_zstd_laws tx
    by (auto simp: sample_env_def CMutableTransaction_default_def COIN_def)
qed

end
