(* ===== verification/TicketTracker.thy ===== *)
theory TicketTracker
  imports TicketTypes
begin

text \<open>
  The tracker of ticket transactions in the memory pool (\<open>mnode/ticket-txmempool.cpp\<close>): a
  multimap from ticket kinds to transaction ids and its inverse map. The multimap is the list
  of its entries; the order in which an unordered multimap keeps its groups is an argument of
  \<open>removeTx\<close>, which the results do not depend on.
\<close>

section \<open>State and operations\<close>

record CTicketTxMemPoolTracker =
  m_mapTicket :: "(TicketID \<times> uint256) list"
  m_mapTxid :: "uint256 \<rightharpoonup> TicketID"

definition tracker_new :: CTicketTxMemPoolTracker where
  "tracker_new = \<lparr>m_mapTicket = [], m_mapTxid = Map.empty\<rparr>"

text \<open>
  The kind of a transaction's ticket, as far as pre-parsing recognizes one. A transaction on which it throws
  counts as none: the tracker is not changed when the exception leaves \<open>processTransaction\<close>.
\<close>

definition ticket_kind :: "zstd \<Rightarrow> bool \<Rightarrow> nat \<Rightarrow> (bytes \<Rightarrow> uint256) \<Rightarrow> CTransaction \<Rightarrow> TicketID option" where
  "ticket_kind Z datacarrier maxdata Hash tx =
     (case preParseTicket Z datacarrier maxdata Hash True (vout tx) CCompressedDataStream_new of
        (Inl _, _) \<Rightarrow> None
      | (Inr (ticket_id, _), _) \<Rightarrow> Some ticket_id)"

definition processTransaction ::
  "(CTransaction \<Rightarrow> TicketID option) \<Rightarrow> (CTransaction \<Rightarrow> uint256) \<Rightarrow> CTransaction \<Rightarrow>
   CTicketTxMemPoolTracker \<Rightarrow> CTicketTxMemPoolTracker" where
  "processTransaction kind GetHash tx s =
     (case kind tx of None \<Rightarrow> s
      | Some ticket_id \<Rightarrow>
          s\<lparr>m_mapTicket := (ticket_id, GetHash tx) # m_mapTicket s,
            m_mapTxid := (case m_mapTxid s (GetHash tx) of None \<Rightarrow> (m_mapTxid s)(GetHash tx \<mapsto> ticket_id)
                          | Some _ \<Rightarrow> m_mapTxid s)\<rparr>)"

text \<open>
  The search runs over the entries of one kind. When it finds nothing it stops at the entry
  after that group, which is what \<open>after\<close> gives, and that entry is erased.
\<close>

definition removeTx ::
  "(TicketID \<Rightarrow> (TicketID \<times> uint256) list \<Rightarrow> (TicketID \<times> uint256) option) \<Rightarrow> uint256 \<Rightarrow>
   CTicketTxMemPoolTracker \<Rightarrow> CTicketTxMemPoolTracker" where
  "removeTx after txid s =
     (case m_mapTxid s txid of None \<Rightarrow> s
      | Some ticket_id \<Rightarrow>
          let toErase = (if (ticket_id, txid) \<in> set (m_mapTicket s) then Some (ticket_id, txid)
                         else after ticket_id (m_mapTicket s))
          in s\<lparr>m_mapTicket := (case toErase of None \<Rightarrow> m_mapTicket s | Some e \<Rightarrow> remove1 e (m_mapTicket s)),
               m_mapTxid := (m_mapTxid s)(txid := None)\<rparr>)"

definition getTicketTransactions :: "TicketID \<Rightarrow> CTicketTxMemPoolTracker \<Rightarrow> uint256 list" where
  "getTicketTransactions ticket_id s = map snd (filter (\<lambda>e. fst e = ticket_id) (m_mapTicket s))"

definition tracker_count :: "TicketID \<Rightarrow> CTicketTxMemPoolTracker \<Rightarrow> nat" where
  "tracker_count ticket_id s = length (filter (\<lambda>e. fst e = ticket_id) (m_mapTicket s))"

section \<open>The tracker follows the memory pool\<close>

text \<open>
  The memory pool notifies the tracker of every transaction it adds, which it did not hold
  before, and of every transaction it removes. \<open>CTxMemPool::clear\<close> empties the pool without notifying
  anyone; the node calls it only while it unloads the block index at start-up, before these runs begin.
\<close>

inductive pool_run ::
  "(CTransaction \<Rightarrow> TicketID option) \<Rightarrow> (CTransaction \<Rightarrow> uint256) \<Rightarrow>
   (TicketID \<Rightarrow> (TicketID \<times> uint256) list \<Rightarrow> (TicketID \<times> uint256) option) \<Rightarrow>
   (uint256 \<rightharpoonup> CTransaction) \<Rightarrow> CTicketTxMemPoolTracker \<Rightarrow> bool"
  for kind GetHash after where
  start: "pool_run kind GetHash after Map.empty tracker_new"
| add: "pool_run kind GetHash after P s \<Longrightarrow> P (GetHash tx) = None \<Longrightarrow>
    pool_run kind GetHash after (P(GetHash tx \<mapsto> tx)) (processTransaction kind GetHash tx s)"
| remove: "pool_run kind GetHash after P s \<Longrightarrow>
    pool_run kind GetHash after (P(txid := None)) (removeTx after txid s)"

definition tracks :: "(CTransaction \<Rightarrow> TicketID option) \<Rightarrow> (uint256 \<rightharpoonup> CTransaction) \<Rightarrow> CTicketTxMemPoolTracker \<Rightarrow> bool" where
  "tracks kind P s \<longleftrightarrow>
     m_mapTxid s = (\<lambda>t. Option.bind (P t) kind) \<and> distinct (m_mapTicket s) \<and>
     (\<forall>i t. (i, t) \<in> set (m_mapTicket s) \<longleftrightarrow> m_mapTxid s t = Some i)"

lemma tracks_start: "tracks kind Map.empty tracker_new"
  by (simp add: tracks_def tracker_new_def)

lemma tracks_add:
  "tracks kind P s \<Longrightarrow> P (GetHash tx) = None \<Longrightarrow>
   tracks kind (P(GetHash tx \<mapsto> tx)) (processTransaction kind GetHash tx s)"
  by (auto simp: tracks_def processTransaction_def fun_eq_iff split: option.splits)

lemma tracks_remove: "tracks kind P s \<Longrightarrow> tracks kind (P(txid := None)) (removeTx after txid s)"
  by (auto simp: tracks_def removeTx_def fun_eq_iff set_remove1_eq distinct_remove1 split: option.splits)

lemma pool_run_tracks: "pool_run kind GetHash after P s \<Longrightarrow> tracks kind P s"
  by (induction rule: pool_run.induct) (blast intro: tracks_start tracks_add tracks_remove)+

lemma tracks_transactions:
  assumes "tracks kind P s"
  shows "set (getTicketTransactions i s) = {t. Option.bind (P t) kind = Some i}"
    and "distinct (getTicketTransactions i s)" and "tracker_count i s = length (getTicketTransactions i s)"
proof -
  show "set (getTicketTransactions i s) = {t. Option.bind (P t) kind = Some i}"
    using assms unfolding tracks_def getTicketTransactions_def by force
  have "inj_on snd (set (filter (\<lambda>e. fst e = i) (m_mapTicket s)))" by (auto intro: inj_onI)
  then show "distinct (getTicketTransactions i s)"
    using assms by (simp add: tracks_def getTicketTransactions_def distinct_map)
qed (simp add: tracker_count_def getTicketTransactions_def)

text \<open>
  C22. The tracker implements the view "ticket transactions of a kind in the memory pool":
  after any sequence of pool notifications, the ids it returns for a kind are exactly the ids
  of the pool's transactions whose ticket has that kind, each once, and \<open>count\<close> is their number,
  whatever order the hash table keeps its entries in.
\<close>

theorem tracker_refines_pool:
  assumes "pool_run (ticket_kind Z datacarrier maxdata Hash) GetHash after P s"
  shows "set (getTicketTransactions i s) =
      {t. \<exists>tx. P t = Some tx \<and> ticket_kind Z datacarrier maxdata Hash tx = Some i} \<and>
    distinct (getTicketTransactions i s) \<and>
    tracker_count i s = card {t. \<exists>tx. P t = Some tx \<and> ticket_kind Z datacarrier maxdata Hash tx = Some i}"
proof -
  let ?T = "{t. \<exists>tx. P t = Some tx \<and> ticket_kind Z datacarrier maxdata Hash tx = Some i}"
  note t = tracks_transactions [OF pool_run_tracks [OF assms], of i]
  have "set (getTicketTransactions i s) = ?T" using t(1) by (auto simp: bind_eq_Some_conv)
  with t(2,3) distinct_card [OF t(2)] show ?thesis by simp
qed

definition sample_zstd :: zstd where
  "sample_zstd = \<lparr>ZSTD_getFrameContentSize = (\<lambda>_. CONTENTSIZE_ERROR), ZSTD_compress = (\<lambda>_. Inl []),
     ZSTD_decompress = (\<lambda>_ _. Inl [])\<rparr>"

definition sample_ticket_tx :: CTransaction where
  "sample_ticket_tx = CMutableTransaction_default
     \<lparr>vout := map (\<lambda>s. \<lparr>nValue = 1, scriptPubKey = s\<rparr>) (CreateP2FMSScripts (\<lambda>_. 5) [3, 7])\<rparr>"

theorem tracker_refines_pool_witness:
  "pool_run (ticket_kind sample_zstd True 80 (\<lambda>_. 5)) (\<lambda>_. 9) (\<lambda>_ _. None) [9 \<mapsto> sample_ticket_tx]
     (processTransaction (ticket_kind sample_zstd True 80 (\<lambda>_. 5)) (\<lambda>_. 9) sample_ticket_tx tracker_new)
   \<and> set (getTicketTransactions Offer
       (processTransaction (ticket_kind sample_zstd True 80 (\<lambda>_. 5)) (\<lambda>_. 9) sample_ticket_tx tracker_new)) = {9}"
proof -
  let ?kind = "ticket_kind sample_zstd True 80 (\<lambda>_. 5)"
  have k: "?kind sample_ticket_tx = Some Offer" by code_simp
  have r: "pool_run ?kind (\<lambda>_. 9) (\<lambda>_ _. None) [9 \<mapsto> sample_ticket_tx]
      (processTransaction ?kind (\<lambda>_. 9) sample_ticket_tx tracker_new)"
    using pool_run.add [OF pool_run.start, where GetHash = "\<lambda>_. 9" and tx = sample_ticket_tx] by simp
  have "{t. \<exists>tx. [9 \<mapsto> sample_ticket_tx] t = Some tx \<and> ?kind tx = Some Offer} = {9}"
    using k by (auto split: if_splits)
  with tracker_refines_pool [OF r, of Offer] r show ?thesis by simp
qed

end
