(* ===== verification/TicketFees.thy ===== *)
theory TicketFees
  imports TicketTypes P2FMSBuilder
begin

text \<open>
  What a ticket transaction has to pay: the ticket prices, the masternode fees of activation
  tickets (\<open>mnode/tickets/ticket-mn-fees.h\<close>), the payments of a transfer
  (\<open>CTransferTicket::GetExtraOutputs\<close>), and their validation (\<open>ValidateTicketFees\<close> of
  \<open>mnode/ticket-processor.cpp\<close>). Royalties are computed in single, masternode fees in double
  precision, as in the source.
\<close>

section \<open>Prices and fees\<close>

text \<open>Conversion of a floating-point value to an integer drops the fraction.\<close>

definition trunc :: "rat \<Rightarrow> int" where
  "trunc x = (if 0 \<le> x then \<lfloor>x\<rfloor> else \<lceil>x\<rceil>)"

text \<open>
  The fields of a ticket that its price and the checked payments depend on. \<open>reg_item\<close> is the
  registration ticket that \<open>FindItemRegTicket\<close> returns for a transfer: an NFT with its royalty
  rate and whether it has a green address, or an action. \<open>ft_item\<close> is \<^const>\<open>None\<close> where that
  function throws because the chain of tickets does not lead to a registration.
\<close>

datatype reg_item = RegNFT rat bool | RegOther

record fee_ticket =
  ft_id :: TicketID
  ft_askedPricePSL :: u32
  ft_pricePSL :: u32
  ft_fee :: CAmount
  ft_storageFee :: CAmount
  ft_item :: "reg_item option"

definition TicketPricePSL :: "fee_ticket \<Rightarrow> u32 \<Rightarrow> CAmount" where
  "TicketPricePSL t nHeight =
     (case ft_id t of
        PastelID \<Rightarrow> if nHeight \<le> 10000 then TicketPricePSL_default PastelID else 1000
      | Down \<Rightarrow> if nHeight \<le> 10000 then TicketPricePSL_default Down else 100000
      | Offer \<Rightarrow> max 10 (uint (ft_askedPricePSL t div 50))
      | Accept \<Rightarrow> max 10 (uint (ft_pricePSL t div 100))
      | Username \<Rightarrow> ft_fee t
      | EthereumAddress \<Rightarrow> ft_fee t
      | i \<Rightarrow> TicketPricePSL_default i)"

record mn_fees_t =
  fees_all :: nat
  principalShare :: nat
  otherShare :: nat

text \<open>
  The shares of the three activation tickets: \<open>CNFTActivateTicket\<close> and \<open>CollectionActivateTicket\<close> have the
  same, \<open>CActionActivateTicket\<close> a smaller one for all masternodes.
\<close>

definition getMNFees :: "TicketID \<Rightarrow> mn_fees_t" where
  "getMNFees i =
     (if i = ActionActivate then \<lparr>fees_all = 80, principalShare = 60, otherShare = 20\<rparr>
      else \<lparr>fees_all = 90, principalShare = 60, otherShare = 20\<rparr>)"

definition getAllMNFeesPSL :: "fee_ticket \<Rightarrow> rat" where
  "getAllMNFeesPSL t = fl64 (fl64 (fl64 (of_int (ft_storageFee t)) * of_nat (fees_all (getMNFees (ft_id t)))) / 100)"

definition getAllMNFees :: "fee_ticket \<Rightarrow> CAmount" where
  "getAllMNFees t = trunc (fl64 (getAllMNFeesPSL t * of_int COIN))"

definition getPrincipalMNFeePSL :: "fee_ticket \<Rightarrow> rat" where
  "getPrincipalMNFeePSL t = fl64 (fl64 (getAllMNFeesPSL t * of_nat (principalShare (getMNFees (ft_id t)))) / 100)"

definition getPrincipalMNFee :: "fee_ticket \<Rightarrow> CAmount" where
  "getPrincipalMNFee t = trunc (fl64 (getPrincipalMNFeePSL t * of_int COIN))"

definition getOtherMNFeePSL :: "fee_ticket \<Rightarrow> rat" where
  "getOtherMNFeePSL t = fl64 (getAllMNFeesPSL t * fl64 (of_nat (otherShare (getMNFees (ft_id t))) / 100))"

definition getOtherMNFee :: "fee_ticket \<Rightarrow> CAmount" where
  "getOtherMNFee t = trunc (fl64 (getOtherMNFeePSL t * of_int COIN))"

definition GREEN_FEE_PERCENT :: CAmount where "GREEN_FEE_PERCENT = 2"

definition GreenPercent :: "u32 \<Rightarrow> CAmount" where
  "GreenPercent nHeight = GREEN_FEE_PERCENT"

text \<open>An \<open>int64_t\<close> times a \<open>float\<close> is a \<open>float\<close>: the price is rounded to 24 bits first.\<close>

definition royalty_amount :: "CAmount \<Rightarrow> rat \<Rightarrow> CAmount" where
  "royalty_amount price royalty = trunc (fl32 (fl32 (of_int price) * royalty))"

definition green_amount :: "u32 \<Rightarrow> CAmount \<Rightarrow> CAmount" where
  "green_amount nHeight price = c_div (price * GreenPercent nHeight) 100"

section \<open>Validation\<close>

definition TICKETS_LAST_OUTPUT_AS_CHANGE :: "TicketID list" where
  "TICKETS_LAST_OUTPUT_AS_CHANGE =
     [PastelID, NFT, Offer, Accept, Royalty, Username, Contract, EthereumAddress, ActionReg, CollectionReg]"

definition is_activation :: "TicketID \<Rightarrow> bool" where
  "is_activation i \<longleftrightarrow> i \<in> {Activate, ActionActivate, CollectionAct}"

text \<open>
  The payments of a transfer: what is left of the price for the seller, the royalty and the
  green fee. The transfer's registration ticket must exist.
\<close>

definition transfer_amounts :: "u32 \<Rightarrow> fee_ticket \<Rightarrow> (CAmount \<times> CAmount option \<times> CAmount option) option" where
  "transfer_amounts nHeight t =
     (let transferPrice = uint (ft_pricePSL t) * COIN in
      case ft_item t of None \<Rightarrow> None
      | Some RegOther \<Rightarrow> Some (transferPrice, None, None)
      | Some (RegNFT royalty green) \<Rightarrow>
          let royaltyFee = (if royalty > 0 then Some (royalty_amount transferPrice royalty) else None);
              greenFee = (if green then Some (green_amount nHeight transferPrice) else None);
              value_or_0 = (\<lambda>f. case f of None \<Rightarrow> 0 | Some a \<Rightarrow> a)
          in Some (transferPrice - (value_or_0 royaltyFee + value_or_0 greenFee), royaltyFee, greenFee))"

text \<open>
  The role of output \<open>i\<close> of \<open>num\<close> outputs, the conditions in the source's order. The unsigned
  index \<open>num - k\<close> is beyond every output when there are fewer than \<open>k\<close>.
\<close>

datatype output_role = StopHere | Ignored | Payment string CAmount | TicketFee

definition from_end :: "nat \<Rightarrow> nat \<Rightarrow> nat \<Rightarrow> bool" where
  "from_end num k i \<longleftrightarrow> k \<le> num \<and> i = num - k"

definition output_role ::
  "fee_ticket \<Rightarrow> CAmount \<times> CAmount option \<times> CAmount option \<Rightarrow> nat \<Rightarrow> nat \<Rightarrow> output_role" where
  "output_role t amounts num i =
     (case amounts of (transferPrice, royaltyFee, greenFee) \<Rightarrow>
      let id = ft_id t;
          nFeesDefined = (if royaltyFee \<noteq> None then 1 else 0) + (if greenFee \<noteq> None then 1 else 0 :: nat)
      in if id \<in> set TICKETS_LAST_OUTPUT_AS_CHANGE \<and> from_end num 1 i then StopHere
         else if is_activation id \<and> from_end num 4 i then Ignored
         else if is_activation id \<and> from_end num 3 i then Payment ''principal MN fee'' (getPrincipalMNFee t)
         else if is_activation id \<and> 2 \<le> num \<and> num - 2 \<le> i then Payment ''MN fee'' (getOtherMNFee t)
         else if id = Transfer \<and> from_end num (if nFeesDefined = 2 then 4 else if nFeesDefined = 1 then 3 else 2) i
         then Ignored
         else if id = Transfer \<and> from_end num (if nFeesDefined = 2 then 3 else if nFeesDefined = 1 then 2 else 1) i
         then Payment ''seller'' transferPrice
         else if id = Transfer \<and> royaltyFee \<noteq> None \<and> from_end num (if greenFee \<noteq> None then 2 else 1) i
         then Payment ''royalty owner'' (the royaltyFee)
         else if id = Transfer \<and> greenFee \<noteq> None \<and> from_end num 1 i then Payment ''green NFT'' (the greenFee)
         else TicketFee)"

fun fee_loop :: "(nat \<Rightarrow> output_role) \<Rightarrow> nat \<Rightarrow> CTxOut list \<Rightarrow> CAmount \<Rightarrow> string + CAmount" where
  "fee_loop role i [] ticketFee = Inr ticketFee"
| "fee_loop role i (out # outs) ticketFee =
     (case role i of
        StopHere \<Rightarrow> Inr ticketFee
      | Ignored \<Rightarrow> fee_loop role (i + 1) outs ticketFee
      | Payment e amount \<Rightarrow> if amount \<noteq> nValue out then Inl e else fee_loop role (i + 1) outs ticketFee
      | TicketFee \<Rightarrow> fee_loop role (i + 1) outs (ticketFee + nValue out))"

text \<open>
  The function is declared \<open>noexcept\<close>: an exception of \<open>FindItemRegTicket\<close> ends the process,
  which is the result \<^const>\<open>None\<close>.
\<close>

definition ValidateTicketFees :: "u32 \<Rightarrow> CTxOut list \<Rightarrow> fee_ticket \<Rightarrow> ticket_validation_t option" where
  "ValidateTicketFees nHeight outs t =
     (let expectedTicketFee = TicketPricePSL t nHeight * COIN in
      case (if ft_id t = Transfer then transfer_amounts nHeight t else Some (0, None, None)) of
        None \<Rightarrow> None
      | Some amounts \<Rightarrow>
          (case fee_loop (output_role t amounts (length outs)) 0 outs 0 of
             Inl e \<Rightarrow> Some (tv_invalid e)
           | Inr ticketFee \<Rightarrow>
               Some (if expectedTicketFee \<noteq> ticketFee then tv_invalid ''Wrong ticket fee'' else setValid)))"

section \<open>The outputs a ticket has to pay for\<close>

definition required_payments :: "u32 \<Rightarrow> fee_ticket \<Rightarrow> CAmount list option" where
  "required_payments nHeight t =
     (if ft_id t = Transfer
      then map_option (\<lambda>(price, royaltyFee, greenFee).
             price # (case royaltyFee of None \<Rightarrow> [] | Some a \<Rightarrow> [a]) @ (case greenFee of None \<Rightarrow> [] | Some a \<Rightarrow> [a]))
             (transfer_amounts nHeight t)
      else if is_activation (ft_id t) then Some [getPrincipalMNFee t, getOtherMNFee t, getOtherMNFee t]
      else Some [])"

lemma fee_loop_fees:
  "(\<And>j. j < length xs \<Longrightarrow> role (i + j) = TicketFee) \<Longrightarrow>
   fee_loop role i (xs @ ys) acc = fee_loop role (i + length xs) ys (acc + sum_list (map nValue xs))"
proof (induction xs arbitrary: i acc)
  case (Cons x xs)
  have "role i = TicketFee" using Cons.prems [of 0] by simp
  moreover have "\<And>j. j < length xs \<Longrightarrow> role (Suc i + j) = TicketFee" using Cons.prems [of "Suc _"] by simp
  ultimately show ?case using Cons.IH [of "Suc i"] by (simp add: add.assoc)
qed simp

lemma fee_loop_payments:
  assumes "\<And>j. j < length ys \<Longrightarrow> \<exists>e. role (i + j) = Payment e (ps ! j)" "length ps = length ys"
  shows "(\<exists>f. fee_loop role i ys acc = Inr f) \<longleftrightarrow> map nValue ys = ps"
    and "fee_loop role i ys acc = Inr f \<Longrightarrow> f = acc"
  using assms
proof (induction ys arbitrary: i ps)
  case (Cons y ys)
  { case 1
    from 1(2) obtain p ps' where ps: "ps = p # ps'" "length ps' = length ys" by (cases ps) auto
    obtain e where "role i = Payment e p" using 1(1) [of 0] ps by auto
    moreover have "\<And>j. j < length ys \<Longrightarrow> \<exists>e. role (Suc i + j) = Payment e (ps' ! j)"
      using 1(1) [of "Suc _"] ps by simp
    ultimately show ?case using Cons.IH(1) [of "Suc i" ps'] ps by auto
  next
    case 2
    from 2(3) obtain p ps' where ps: "ps = p # ps'" "length ps' = length ys" by (cases ps) auto
    obtain e where "role i = Payment e p" using 2(2) [of 0] ps by auto
    moreover have "\<And>j. j < length ys \<Longrightarrow> \<exists>e. role (Suc i + j) = Payment e (ps' ! j)"
      using 2(2) [of "Suc _"] ps by simp
    ultimately show ?case using Cons.IH(2) [of "Suc i" ps'] ps 2(1) by (auto split: if_splits)
  }
qed auto

definition checked_amounts :: "u32 \<Rightarrow> fee_ticket \<Rightarrow> (CAmount \<times> CAmount option \<times> CAmount option) option" where
  "checked_amounts nHeight t = (if ft_id t = Transfer then transfer_amounts nHeight t else Some (0, None, None))"

lemma output_role_transfer:
  assumes "ft_id t = Transfer"
  shows "output_role t (p, None, None) num i =
      (if from_end num 2 i then Ignored else if from_end num 1 i then Payment ''seller'' p else TicketFee)"
    and "output_role t (p, Some r, None) num i =
      (if from_end num 3 i then Ignored else if from_end num 2 i then Payment ''seller'' p
       else if from_end num 1 i then Payment ''royalty owner'' r else TicketFee)"
    and "output_role t (p, None, Some g) num i =
      (if from_end num 3 i then Ignored else if from_end num 2 i then Payment ''seller'' p
       else if from_end num 1 i then Payment ''green NFT'' g else TicketFee)"
    and "output_role t (p, Some r, Some g) num i =
      (if from_end num 4 i then Ignored else if from_end num 3 i then Payment ''seller'' p
       else if from_end num 2 i then Payment ''royalty owner'' r
       else if from_end num 1 i then Payment ''green NFT'' g else TicketFee)"
  using assms by (simp_all add: output_role_def is_activation_def TICKETS_LAST_OUTPUT_AS_CHANGE_def)

lemma output_role_activation:
  assumes "is_activation (ft_id t)"
  shows "output_role t amounts num i =
      (if from_end num 4 i then Ignored
       else if from_end num 3 i then Payment ''principal MN fee'' (getPrincipalMNFee t)
       else if 2 \<le> num \<and> num - 2 \<le> i then Payment ''MN fee'' (getOtherMNFee t) else TicketFee)"
  using assms
  by (cases amounts) (auto simp: output_role_def is_activation_def TICKETS_LAST_OUTPUT_AS_CHANGE_def)

lemma output_role_change:
  assumes "ft_id t \<in> set TICKETS_LAST_OUTPUT_AS_CHANGE"
  shows "output_role t amounts num i = (if from_end num 1 i then StopHere else TicketFee)"
proof -
  have "ft_id t \<noteq> Transfer" "\<not> is_activation (ft_id t)"
    using assms by (auto simp: TICKETS_LAST_OUTPUT_AS_CHANGE_def is_activation_def)
  then show ?thesis using assms by (cases amounts) (simp add: output_role_def)
qed

text \<open>
  The outputs of a ticket transaction are fee outputs, one change output and the required
  payments; the role of each follows from its place.
\<close>

definition roles_ok :: "(nat \<Rightarrow> output_role) \<Rightarrow> nat \<Rightarrow> CAmount list \<Rightarrow> bool" where
  "roles_ok role n ps \<longleftrightarrow>
     (\<forall>j < n. role j = TicketFee) \<and> role n = (if ps = [] then StopHere else Ignored) \<and>
     (\<forall>j < length ps. \<exists>e. role (n + 1 + j) = Payment e (ps ! j))"

lemma roles_transfer:
  assumes "ft_id t = Transfer"
    and "ps = p # (case r of None \<Rightarrow> [] | Some a \<Rightarrow> [a]) @ (case g of None \<Rightarrow> [] | Some a \<Rightarrow> [a])"
  shows "roles_ok (output_role t (p, r, g) (n + 1 + length ps)) n ps"
  using assms(2)
  by (cases r; cases g)
    (auto simp: roles_ok_def output_role_transfer [OF assms(1)] from_end_def less_Suc_eq numeral_eq_Suc)

lemma roles_activation:
  assumes "is_activation (ft_id t)" "ps = [getPrincipalMNFee t, getOtherMNFee t, getOtherMNFee t]"
  shows "roles_ok (output_role t amounts (n + 1 + length ps)) n ps"
  using assms(2)
  by (auto simp: roles_ok_def output_role_activation [OF assms(1)] from_end_def less_Suc_eq numeral_eq_Suc)

lemma roles_change:
  "ft_id t \<in> set TICKETS_LAST_OUTPUT_AS_CHANGE \<Longrightarrow> roles_ok (output_role t amounts (n + 1)) n []"
  by (auto simp: roles_ok_def output_role_change from_end_def)

lemma output_roles:
  assumes "required_payments h t = Some ps" "checked_amounts h t = Some amounts" "ft_id t \<noteq> Down"
  shows "roles_ok (output_role t amounts (n + 1 + length ps)) n ps"
proof -
  obtain p r g where a: "amounts = (p, r, g)" by (cases amounts)
  consider (transfer) "ft_id t = Transfer" | (act) "is_activation (ft_id t)"
    | (change) "ft_id t \<in> set TICKETS_LAST_OUTPUT_AS_CHANGE"
    using assms(3) by (cases "ft_id t") (simp_all add: is_activation_def TICKETS_LAST_OUTPUT_AS_CHANGE_def)
  then show ?thesis
  proof cases
    case transfer
    with assms(1,2) a show ?thesis unfolding a
      by (intro roles_transfer) (simp_all add: required_payments_def checked_amounts_def)
  next
    case act
    with assms(1) show ?thesis
      by (intro roles_activation) (auto simp: required_payments_def is_activation_def)
  next
    case change
    then have "ps = []"
      using assms(1) by (auto simp: required_payments_def is_activation_def TICKETS_LAST_OUTPUT_AS_CHANGE_def)
    then show ?thesis using roles_change [OF change, of amounts n] by simp
  qed
qed

lemma fee_loop_roles:
  assumes "roles_ok role (length fees) ps" "length ps = length pays"
  shows "fee_loop role 0 (fees @ change # pays) 0 = Inr f \<longleftrightarrow>
    map nValue pays = ps \<and> f = sum_list (map nValue fees)"
proof -
  let ?n = "length fees"
  have 1: "fee_loop role 0 (fees @ change # pays) 0 = fee_loop role ?n (change # pays) (sum_list (map nValue fees))"
    using assms(1) fee_loop_fees [of fees role 0 "change # pays" 0] by (simp add: roles_ok_def)
  show ?thesis
  proof (cases "ps = []")
    case True
    then show ?thesis using assms unfolding 1 by (auto simp: roles_ok_def)
  next
    case False
    have "\<And>j. j < length pays \<Longrightarrow> \<exists>e. role (?n + 1 + j) = Payment e (ps ! j)"
      using assms by (simp add: roles_ok_def)
    note p = fee_loop_payments [OF this assms(2), of "sum_list (map nValue fees)"]
    have 2: "fee_loop role ?n (change # pays) (sum_list (map nValue fees)) =
        fee_loop role (?n + 1) pays (sum_list (map nValue fees))"
      using False assms(1) by (simp add: roles_ok_def)
    show ?thesis unfolding 1 2 using p by metis
  qed
qed

lemma ValidateTicketFees_split:
  assumes "required_payments h t = Some ps" "ft_id t \<noteq> Down" "length ps = length pays"
  shows "ValidateTicketFees h (fees @ change # pays) t = Some setValid \<longleftrightarrow>
    map nValue pays = ps \<and> sum_list (map nValue fees) = TicketPricePSL t h * COIN"
proof -
  obtain amounts where a: "checked_amounts h t = Some amounts"
    using assms(1) by (auto simp: required_payments_def checked_amounts_def split: if_splits)
  have "tv_invalid e \<noteq> setValid" for e by (simp add: tv_invalid_def setValid_def)
  moreover have "roles_ok (output_role t amounts (length (fees @ change # pays))) (length fees) ps"
    using output_roles [OF assms(1) a assms(2), of "length fees"] assms(3) by simp
  note fee_loop_roles [OF this assms(3), of change]
  ultimately show ?thesis
    unfolding ValidateTicketFees_def checked_amounts_def [symmetric] a
    by (auto simp: Let_def split: sum.splits)
qed

section \<open>The payments a ticket's own transaction makes\<close>

datatype extra_error =
  TicketNotFound | OfferNotFound | OffererNotRegistered | AskedPriceZero | ItemNotFound | RoyaltyPayeeUnknown | MNNotRegistered | InvalidAddress

text \<open>
  What the ticket looks up: the asked price of its offer, the funding addresses of the offerer,
  the royalty payee and the masternodes that signed the registration, and the green address.
  \<open>mn_addresses\<close> is \<^const>\<open>None\<close> where the look-up of the registration throws, an address in it where a
  masternode is not registered.
\<close>

record ticket_parties =
  offer_askedPrice :: "u32 option"
  offerer_address :: "string option"
  royalty_address :: string
  green_address :: string
  mn_addresses :: "string option list option"

definition addOutput :: "(string \<Rightarrow> CTxDestination) \<Rightarrow> string \<Rightarrow> CAmount \<Rightarrow> extra_error + CTxOut" where
  "addOutput DecodeDestination strAddress nAmount =
     (let dest = DecodeDestination strAddress
      in if \<not> IsValidDestination dest then Inl InvalidAddress
         else Inr \<lparr>nValue = nAmount, scriptPubKey = GetScriptForDestination dest\<rparr>)"

fun addOutputs :: "(string \<Rightarrow> CTxDestination) \<Rightarrow> (string \<times> CAmount) list \<Rightarrow> extra_error + CTxOut list" where
  "addOutputs D [] = Inr []"
| "addOutputs D ((addr, amount) # rest) =
     (case addOutput D addr amount of Inl e \<Rightarrow> Inl e
      | Inr out \<Rightarrow> (case addOutputs D rest of Inl e \<Rightarrow> Inl e | Inr outs \<Rightarrow> Inr (out # outs)))"

definition transfer_GetExtraOutputs ::
  "(string \<Rightarrow> CTxDestination) \<Rightarrow> u32 \<Rightarrow> ticket_parties \<Rightarrow> fee_ticket \<Rightarrow> extra_error + (CTxOut list \<times> CAmount)" where
  "transfer_GetExtraOutputs D nHeight q t =
     (case offer_askedPrice q of None \<Rightarrow> Inl OfferNotFound
      | Some nAskedPricePSL \<Rightarrow>
       (case offerer_address q of None \<Rightarrow> Inl OffererNotRegistered
        | Some offerer \<Rightarrow>
          if nAskedPricePSL = 0 then Inl AskedPriceZero
          else let nPriceAmount = uint nAskedPricePSL * COIN in
          (case ft_item t of None \<Rightarrow> Inl ItemNotFound
           | Some item \<Rightarrow>
              let royalty = (case item of RegNFT r _ \<Rightarrow> r | RegOther \<Rightarrow> 0);
                  hasGreen = (case item of RegNFT _ g \<Rightarrow> g | RegOther \<Rightarrow> False);
                  nRoyaltyAmount = (if royalty > 0 then royalty_amount nPriceAmount royalty else 0);
                  nGreenNFTAmount = (if hasGreen then green_amount nHeight nPriceAmount else 0);
                  nPriceAmount = nPriceAmount - (nRoyaltyAmount + nGreenNFTAmount)
              in if royalty > 0 \<and> royalty_address q = [] then Inl RoyaltyPayeeUnknown
                 else (case addOutputs D
                     ((offerer, nPriceAmount) #
                      (if royalty > 0 then [(royalty_address q, nRoyaltyAmount)] else []) @
                      (if hasGreen then [(green_address q, nGreenNFTAmount)] else [])) of
                   Inl e \<Rightarrow> Inl e
                 | Inr outs \<Rightarrow> Inr (outs, nPriceAmount + nRoyaltyAmount + nGreenNFTAmount)))))"

text \<open>
  The activation tickets pay the main masternode first and then the two others; the three classes
  (\<open>nft-act.cpp\<close>, \<open>action-act.cpp\<close>, \<open>collection-act.cpp\<close>) have the same code. Their branch for a registration
  ticket of another class is dead: the look-up throws unless it finds one of the right kind.
\<close>

fun activation_payees :: "CAmount list \<Rightarrow> string option list \<Rightarrow> extra_error + (string \<times> CAmount) list" where
  "activation_payees (a # as) (Some addr # addrs) =
     (case activation_payees as addrs of Inl e \<Rightarrow> Inl e | Inr ps \<Rightarrow> Inr ((addr, a) # ps))"
| "activation_payees (a # as) _ = Inl MNNotRegistered"
| "activation_payees [] _ = Inr []"

definition activation_GetExtraOutputs ::
  "(string \<Rightarrow> CTxDestination) \<Rightarrow> ticket_parties \<Rightarrow> fee_ticket \<Rightarrow> extra_error + (CTxOut list \<times> CAmount)" where
  "activation_GetExtraOutputs D q t =
     (case mn_addresses q of None \<Rightarrow> Inl TicketNotFound
      | Some addresses \<Rightarrow>
          let amounts = [getPrincipalMNFee t, getOtherMNFee t, getOtherMNFee t] in
          (case activation_payees amounts addresses of Inl e \<Rightarrow> Inl e
           | Inr ps \<Rightarrow> (case addOutputs D ps of Inl e \<Rightarrow> Inl e | Inr outs \<Rightarrow> Inr (outs, sum_list amounts))))"

definition GetExtraOutputs ::
  "(string \<Rightarrow> CTxDestination) \<Rightarrow> u32 \<Rightarrow> ticket_parties \<Rightarrow> fee_ticket \<Rightarrow> extra_error + (CTxOut list \<times> CAmount)" where
  "GetExtraOutputs D nHeight q t =
     (if ft_id t = Transfer then transfer_GetExtraOutputs D nHeight q t
      else if is_activation (ft_id t) then activation_GetExtraOutputs D q t
      else Inr ([], 0))"

lemma addOutputs_values: "addOutputs D ps = Inr outs \<Longrightarrow> map nValue outs = map snd ps"
  by (induction D ps arbitrary: outs rule: addOutputs.induct)
    (auto simp: addOutput_def Let_def split: sum.splits if_splits)

lemma activation_payees_amounts: "activation_payees as addrs = Inr ps \<Longrightarrow> map snd ps = as"
  by (induction as addrs arbitrary: ps rule: activation_payees.induct) (auto split: sum.splits)

lemma GetExtraOutputs_required:
  assumes "GetExtraOutputs D h' q t = Inr (outs, amount)"
    and "ft_id t = Transfer \<Longrightarrow> offer_askedPrice q = Some (ft_pricePSL t)"
  shows "required_payments h t = Some (map nValue outs)" "amount = sum_list (map nValue outs)"
proof -
  have "required_payments h t = Some (map nValue outs) \<and> amount = sum_list (map nValue outs)"
  proof (cases "ft_id t = Transfer")
    case True
    with assms have x: "transfer_GetExtraOutputs D h' q t = Inr (outs, amount)" by (simp add: GetExtraOutputs_def)
    then obtain item offerer where i: "ft_item t = Some item" "offerer_address q = Some offerer"
      by (auto simp: transfer_GetExtraOutputs_def Let_def split: option.splits if_splits)
    have g: "green_amount h' = green_amount h" by (simp add: green_amount_def GreenPercent_def fun_eq_iff)
    show ?thesis
    proof (cases item)
      case (RegNFT r green)
      then show ?thesis using x True assms(2) i
        by (cases "r > 0"; cases green)
          (auto simp: transfer_GetExtraOutputs_def required_payments_def transfer_amounts_def Let_def g
            dest!: addOutputs_values simp del: addOutputs.simps split: if_splits sum.splits)
    next
      case RegOther
      then show ?thesis using x True assms(2) i
        by (auto simp: transfer_GetExtraOutputs_def required_payments_def transfer_amounts_def Let_def
            dest!: addOutputs_values simp del: addOutputs.simps split: if_splits sum.splits)
    qed
  next
    case False
    with assms show ?thesis
      by (auto simp: GetExtraOutputs_def activation_GetExtraOutputs_def required_payments_def Let_def
          dest!: addOutputs_values activation_payees_amounts
          simp del: addOutputs.simps activation_payees.simps split: if_splits sum.splits option.splits)
  qed
  then show "required_payments h t = Some (map nValue outs)" "amount = sum_list (map nValue outs)" by auto
qed

text \<open>
  C14. Fee validation, exactly: for every ticket kind but the take-down ticket, a transaction
  with more outputs than the ticket's required payments is valid if and only if its last
  outputs pay exactly those amounts, in order, and all outputs before the change output add up
  to the ticket price. The amount of the change output is free.
\<close>

theorem ValidateTicketFees_iff:
  assumes "required_payments h t = Some ps" "ft_id t \<noteq> Down" "length ps < length outs"
  shows "ValidateTicketFees h outs t = Some setValid \<longleftrightarrow>
    map nValue (drop (length outs - length ps) outs) = ps \<and>
    sum_list (map nValue (take (length outs - length ps - 1) outs)) = TicketPricePSL t h * COIN"
proof -
  let ?n = "length outs - length ps - 1"
  have "outs = take ?n outs @ outs ! ?n # drop (length outs - length ps) outs"
    using assms(3) id_take_nth_drop [of ?n outs] by (simp add: Suc_diff_Suc)
  then have "ValidateTicketFees h outs t = ValidateTicketFees h (take ?n outs @ outs ! ?n # drop (length outs - length ps) outs) t"
    by simp
  with ValidateTicketFees_split [OF assms(1,2), of "drop (length outs - length ps) outs"] assms(3)
  show ?thesis by simp
qed


text \<open>The masternode fees have the sign of the storage fee: rounding never takes more than half.\<close>

lemma fl_half: "0 \<le> x \<Longrightarrow> x / 2 \<le> fl64 x" "x \<le> 0 \<Longrightarrow> fl64 x \<le> x / 2"
  using fl_error [of 53 x] by (auto simp: abs_if field_simps split: if_splits)

lemma trunc_sign: "1 \<le> x \<Longrightarrow> 0 < trunc x" "x \<le> - 1 \<Longrightarrow> trunc x < 0"
  by (auto simp: trunc_def less_floor_iff ceiling_less_iff)

lemma getAllMNFeesPSL_sign:
  "0 < ft_storageFee t \<Longrightarrow> 1 / 10 \<le> getAllMNFeesPSL t" "ft_storageFee t < 0 \<Longrightarrow> getAllMNFeesPSL t \<le> - 1 / 10"
proof -
  let ?s = "of_int (ft_storageFee t) :: rat" and ?a = "of_nat (fees_all (getMNFees (ft_id t))) :: rat"
  have a: "80 \<le> ?a" by (simp add: getMNFees_def)
  show "1 / 10 \<le> getAllMNFeesPSL t" if "0 < ft_storageFee t"
  proof -
    have "(of_int 1 :: rat) \<le> ?s" unfolding of_int_le_iff using that by simp
    then have 1: "1 / 2 \<le> fl64 ?s" using fl_half(1) [of ?s] by simp
    then have 2: "40 \<le> fl64 ?s * ?a" using mult_mono [of "1/2" "fl64 ?s" 80 ?a] a by simp
    then have "20 \<le> fl64 (fl64 ?s * ?a)" using fl_half(1) [of "fl64 ?s * ?a"] by simp
    then show ?thesis using fl_half(1) [of "fl64 (fl64 ?s * ?a) / 100"] by (simp add: getAllMNFeesPSL_def)
  qed
  show "getAllMNFeesPSL t \<le> - 1 / 10" if "ft_storageFee t < 0"
  proof -
    have "?s \<le> of_int (- 1)" unfolding of_int_le_iff using that by simp
    then have 1: "fl64 ?s \<le> - 1 / 2" using fl_half(2) [of ?s] by simp
    then have 2: "fl64 ?s * ?a \<le> - 40" using mult_mono [of "1/2" "- fl64 ?s" 80 ?a] a by simp
    then have "fl64 (fl64 ?s * ?a) \<le> - 20" using fl_half(2) [of "fl64 ?s * ?a"] by simp
    then show ?thesis using fl_half(2) [of "fl64 (fl64 ?s * ?a) / 100"] by (simp add: getAllMNFeesPSL_def)
  qed
qed

lemma MNFees_sign:
  "0 < ft_storageFee t \<Longrightarrow> 0 < getPrincipalMNFee t \<and> 0 < getOtherMNFee t"
  "ft_storageFee t < 0 \<Longrightarrow> getPrincipalMNFee t < 0 \<and> getOtherMNFee t < 0"
  "ft_storageFee t = 0 \<Longrightarrow> getPrincipalMNFee t = 0 \<and> getOtherMNFee t = 0"
proof -
  let ?a = "getAllMNFeesPSL t" and ?p = "of_nat (principalShare (getMNFees (ft_id t))) :: rat" and ?o = "of_nat (otherShare (getMNFees (ft_id t))) :: rat"
  have p: "?p = 60" "?o = 20" by (simp_all add: getMNFees_def)
  have o: "1 / 10 \<le> fl64 (20 / 100)" using fl_half(1) [of "20 / 100"] by simp
  show "0 < getPrincipalMNFee t \<and> 0 < getOtherMNFee t" if "0 < ft_storageFee t"
  proof -
    note a = getAllMNFeesPSL_sign(1) [OF that]
    have "1 / 100 \<le> ?a * fl64 (20 / 100)" using mult_mono [OF a o] a by simp
    then have 1: "1 / 200 \<le> getOtherMNFeePSL t" using fl_half(1) [of "?a * fl64 (20 / 100)"] by (simp add: getOtherMNFeePSL_def p)
    have "3 \<le> fl64 (?a * 60)" using a fl_half(1) [of "?a * 60"] by simp
    then have 2: "3 / 200 \<le> getPrincipalMNFeePSL t" using fl_half(1) [of "fl64 (?a * 60) / 100"] by (simp add: getPrincipalMNFeePSL_def p)
    show ?thesis using 1 2 fl_half(1) [of "getOtherMNFeePSL t * 100000"] fl_half(1) [of "getPrincipalMNFeePSL t * 100000"]
      by (auto simp: getOtherMNFee_def getPrincipalMNFee_def COIN_def intro!: trunc_sign(1))
  qed
  show "getPrincipalMNFee t < 0 \<and> getOtherMNFee t < 0" if "ft_storageFee t < 0"
  proof -
    note a = getAllMNFeesPSL_sign(2) [OF that]
    have "?a * fl64 (20 / 100) \<le> - 1 / 100" using mult_mono [of "1/10" "- ?a", OF _ o] a by simp
    then have 1: "getOtherMNFeePSL t \<le> - 1 / 200" using fl_half(2) [of "?a * fl64 (20 / 100)"] by (simp add: getOtherMNFeePSL_def p)
    have "fl64 (?a * 60) \<le> - 3" using a fl_half(2) [of "?a * 60"] by simp
    then have 2: "getPrincipalMNFeePSL t \<le> - 3 / 200" using fl_half(2) [of "fl64 (?a * 60) / 100"] by (simp add: getPrincipalMNFeePSL_def p)
    show ?thesis using 1 2 fl_half(2) [of "getOtherMNFeePSL t * 100000"] fl_half(2) [of "getPrincipalMNFeePSL t * 100000"]
      by (auto simp: getOtherMNFee_def getPrincipalMNFee_def COIN_def intro!: trunc_sign(2))
  qed
  show "getPrincipalMNFee t = 0 \<and> getOtherMNFee t = 0" if "ft_storageFee t = 0"
    using that by (simp add: getOtherMNFee_def getPrincipalMNFee_def getOtherMNFeePSL_def getPrincipalMNFeePSL_def getAllMNFeesPSL_def trunc_def)
qed

lemma GetExtraOutputs_zero:
  assumes "GetExtraOutputs D h q t = Inr (outs, amount)"
  shows "amount = 0 \<longleftrightarrow> ft_id t \<noteq> Transfer \<and> (is_activation (ft_id t) \<longrightarrow> ft_storageFee t = 0)"
proof -
  consider "ft_id t = Transfer" | "ft_id t \<noteq> Transfer" "is_activation (ft_id t)" | "ft_id t \<noteq> Transfer" "\<not> is_activation (ft_id t)" by blast
  then show ?thesis
  proof cases
    case 1
    then obtain a where "a \<noteq> 0" "amount = uint (a :: u32) * COIN" using assms
      by (auto simp: GetExtraOutputs_def transfer_GetExtraOutputs_def Let_def split: option.splits if_splits sum.splits)
    then show ?thesis using 1 by (simp add: COIN_def uint_0_iff)
  next
    case 2
    then have "amount = getPrincipalMNFee t + 2 * getOtherMNFee t" using assms
      by (auto simp: GetExtraOutputs_def activation_GetExtraOutputs_def Let_def split: option.splits sum.splits)
    then show ?thesis using 2 MNFees_sign [of t] by (cases "ft_storageFee t" "0 :: int" rule: linorder_cases) auto
  qed (use assms in \<open>simp add: GetExtraOutputs_def\<close>)
qed

text \<open>Every output counts as a fee of a take-down ticket, the change too.\<close>

lemma ValidateTicketFees_down:
  assumes "ft_id t = Down"
  shows "ValidateTicketFees h outs t = Some setValid \<longleftrightarrow> sum_list (map nValue outs) = TicketPricePSL t h * COIN"
proof -
  have "output_role t (0, None, None) (length outs) j = TicketFee" for j
    using assms by (simp add: output_role_def is_activation_def TICKETS_LAST_OUTPUT_AS_CHANGE_def)
  then have "fee_loop (output_role t (0, None, None) (length outs)) 0 outs 0 = Inr (sum_list (map nValue outs))"
    using fee_loop_fees [of outs _ 0 "[]" 0] by simp
  then show ?thesis using assms by (auto simp: ValidateTicketFees_def tv_invalid_def setValid_def)
qed

lemma fee_loop_mismatch:
  "j < length outs \<Longrightarrow> role (i + j) = Payment e a \<Longrightarrow> a \<noteq> nValue (outs ! j) \<Longrightarrow> (\<And>k. role k \<noteq> StopHere) \<Longrightarrow>
   \<exists>e'. fee_loop role i outs acc = Inl e'"
proof (induction outs arbitrary: i j acc)
  case (Cons out outs)
  show ?case
  proof (cases j)
    case (Suc j')
    then show ?thesis using Cons.IH [of j' "Suc i"] Cons.prems by (auto split: output_role.splits)
  qed (use Cons.prems in auto)
qed simp

text \<open>An activation that pays nothing has no payments, so that its fake outputs are taken for them.\<close>

lemma ValidateTicketFees_unpaid:
  assumes "is_activation (ft_id t)" "getOtherMNFee t = 0" "fees \<noteq> []" "nValue (last fees) \<noteq> 0"
  shows "ValidateTicketFees h (fees @ [change]) t \<noteq> Some setValid"
proof -
  let ?role = "output_role t (0, None, None) (length (fees @ [change]))" and ?j = "length fees - 1"
  have "?role (0 + ?j) = Payment ''MN fee'' 0" "\<And>k. ?role k \<noteq> StopHere"
    using assms(2,3) by (auto simp: output_role_activation [OF assms(1)] from_end_def Suc_le_eq)
  moreover have "(fees @ [change]) ! ?j = last fees" using assms(3) by (simp add: nth_append last_conv_nth)
  ultimately obtain e where "fee_loop ?role 0 (fees @ [change]) 0 = Inl e"
    using fee_loop_mismatch [of ?j "fees @ [change]" ?role 0] assms(3,4) by fastforce
  moreover have "ft_id t \<noteq> Transfer" using assms(1) by (auto simp: is_activation_def)
  ultimately show ?thesis by (simp add: ValidateTicketFees_def tv_invalid_def setValid_def)
qed

lemma last_fake_output:
  assumes "m_vOutScripts b \<noteq> []" "length (m_vOutScripts b) < 2 ^ 63" "int (length (m_vOutScripts b)) \<le> nPriceInPat b" "nPriceInPat b < 2 ^ 63"
  shows "nValue (last (fake_outputs b)) \<noteq> 0"
proof -
  have "0 \<le> nPriceInPat b" using assms(3) by linarith
  note sp = price_split [OF assms(1,2) this assms(4)]
  have "1 \<le> nPerOutputAmountInPat b" "0 \<le> nLostAmountInPat b"
    using assms(1,3) by (simp_all add: sp pos_imp_zdiv_pos_iff int_one_le_iff_zero_less)
  then show ?thesis using assms(1) by (cases "m_vOutScripts b") (auto simp: fake_outputs_def last_map)
qed

lemma BuildTransaction_fees_valid_iff:
  assumes "BuildTransaction w dc maxdata Hash160 b tx0 coins = Inr st" "vin tx0 = []"
    and "m_vOutScripts b \<noteq> []" "length (m_vOutScripts b) < 2 ^ 63"
    and "m_nPriceInPSL b = TicketPricePSL t h" "int (length (m_vOutScripts b)) \<le> TicketPricePSL t h * COIN" "TicketPricePSL t h * COIN < 2 ^ 63"
    and "GetExtraOutputs D h' q t = Inr (m_vExtraOutputs b, m_nExtraAmountInPat b)"
    and "ft_id t = Transfer \<longrightarrow> offer_askedPrice q = Some (ft_pricePSL t)"
  shows "ValidateTicketFees h (vout (tx_out st)) t = Some setValid \<longleftrightarrow>
    (if ft_id t = Down then nValue (vout (tx_out st) ! length (m_vOutScripts b)) = 0
     else is_activation (ft_id t) \<longrightarrow> ft_storageFee t \<noteq> 0)"
proof -
  obtain fee where "funded (usable_coin dc maxdata Hash160 (m_fundingAddress b)) b coins fee st"
    using BuildTransaction_funded [OF assms(1-3)] by blast
  then obtain change where v: "vout (tx_out st) = fake_outputs b @ change # extra_outputs b" by (auto simp: funded_def)
  have p: "nPriceInPat b = TicketPricePSL t h * COIN" by (simp add: nPriceInPat_def assms(5))
  have 0: "0 \<le> nPriceInPat b" using assms(6) p by linarith
  have sum: "sum_list (map nValue (fake_outputs b)) = TicketPricePSL t h * COIN"
    using fake_outputs_sum [OF assms(3,4) 0] assms(7) p by simp
  have r: "required_payments h t = Some (map nValue (m_vExtraOutputs b))" using GetExtraOutputs_required(1) [OF assms(8)] assms(9) by simp
  note z = GetExtraOutputs_zero [OF assms(8)]
  consider (down) "ft_id t = Down" | (unpaid) "ft_id t \<noteq> Down" "is_activation (ft_id t)" "ft_storageFee t = 0"
    | (paid) "ft_id t \<noteq> Down" "is_activation (ft_id t) \<longrightarrow> ft_storageFee t \<noteq> 0" by blast
  then show ?thesis
  proof cases
    case down
    then have "extra_outputs b = []" using assms(8) by (simp add: extra_outputs_def GetExtraOutputs_def is_activation_def)
    then show ?thesis using down sum fake_outputs_props(1) [of b] by (simp add: v ValidateTicketFees_down nth_append)
  next
    case unpaid
    then have "m_nExtraAmountInPat b = 0" using z by (auto simp: is_activation_def)
    then have "vout (tx_out st) = fake_outputs b @ [change]" using v by (simp add: extra_outputs_def)
    moreover have "fake_outputs b \<noteq> []" using fake_outputs_props(1) [of b] assms(3) by auto
    moreover have "nValue (last (fake_outputs b)) \<noteq> 0" using last_fake_output [OF assms(3,4)] assms(6,7) p by simp
    ultimately show ?thesis using ValidateTicketFees_unpaid [OF unpaid(2)] MNFees_sign(3) [OF unpaid(3)] unpaid by simp
  next
    case paid
    have e: "extra_outputs b = m_vExtraOutputs b"
    proof (cases "m_nExtraAmountInPat b = 0")
      case True
      then have "ft_id t \<noteq> Transfer" "\<not> is_activation (ft_id t)" using z paid by auto
      then show ?thesis using assms(8) by (simp add: extra_outputs_def GetExtraOutputs_def)
    qed (simp add: extra_outputs_def)
    show ?thesis unfolding v e ValidateTicketFees_split [OF r paid(1), of "m_vExtraOutputs b", simplified] using paid sum by simp
  qed
qed

text \<open>
  C12. Which of the transactions that a node builds for its own tickets pass the fee check of every other
  node: when the extra outputs are those the ticket asks for, the price is the ticket's price, each fake output gets at
  least one patoshi of it and building succeeds, fee validation of the built outputs reports a valid ticket, except in two
  cases. The transaction of a take-down ticket passes only if its change is zero, since the check counts the
  change as a fee; and the one of an activation ticket with a storage fee of zero never passes, since the builder leaves out
  extra outputs that pay nothing but the check expects them. The theorem covers the split of the price over the
  fake outputs, the place of the change output, and the floating-point royalty and masternode fees.
\<close>

theorem built_ticket_fees_valid:
  assumes "BuildTransaction w dc maxdata Hash160 b tx0 coins = Inr st" "vin tx0 = []"
    and "m_vOutScripts b \<noteq> []" "length (m_vOutScripts b) < 2 ^ 63"
    and "m_nPriceInPSL b = TicketPricePSL t h" "int (length (m_vOutScripts b)) \<le> TicketPricePSL t h * COIN" "TicketPricePSL t h * COIN < 2 ^ 63"
    and "GetExtraOutputs D h' q t = Inr (m_vExtraOutputs b, m_nExtraAmountInPat b)"
    and "ft_id t = Transfer \<longrightarrow> offer_askedPrice q = Some (ft_pricePSL t)"
  shows "ValidateTicketFees h (vout (tx_out st)) t = Some setValid \<longleftrightarrow>
    (if ft_id t = Down then nValue (vout (tx_out st) ! length (m_vOutScripts b)) = 0
     else is_activation (ft_id t) \<longrightarrow> ft_storageFee t \<noteq> 0)"
  by (rule BuildTransaction_fees_valid_iff) (fact assms)+

text \<open>The largest royalty rate, the \<open>float\<close> nearest to one fifth.\<close>

definition MAX_ROYALTY :: rat where "MAX_ROYALTY = 13421773 / 67108864"

lemma trunc_bounds: "0 \<le> x \<Longrightarrow> 0 \<le> trunc x \<and> of_int (trunc x) \<le> x"
  by (simp add: trunc_def)

lemma fl_bounds: "0 \<le> x \<Longrightarrow> 0 \<le> fl 24 x \<and> fl 24 x \<le> x * (16777217 / 16777216)"
  using fl_error [of 24 x] by (auto simp: abs_if field_simps split: if_splits)

lemma royalty_amount_bounds:
  assumes "0 \<le> price" "0 \<le> r" "r \<le> MAX_ROYALTY"
  shows "0 \<le> royalty_amount price r" "100 * royalty_amount price r \<le> 21 * price"
proof -
  let ?p = "of_int price :: rat"
  have p: "0 \<le> fl 24 ?p" "fl 24 ?p \<le> ?p * (16777217 / 16777216)" using fl_bounds [of ?p] assms(1) by simp_all
  have x: "0 \<le> fl 24 ?p * r" using p(1) assms(2) by simp
  note y = fl_bounds [OF x]
  have t: "0 \<le> royalty_amount price r" "of_int (royalty_amount price r) \<le> fl 24 (fl 24 ?p * r)"
    using trunc_bounds [of "fl 24 (fl 24 ?p * r)"] y by (simp_all add: royalty_amount_def)
  have "fl 24 ?p * r \<le> ?p * (16777217 / 16777216) * (13421773 / 67108864)"
    using p assms by (intro mult_mono) (simp_all add: MAX_ROYALTY_def)
  then have "fl 24 (fl 24 ?p * r) \<le> ?p * (16777217 / 16777216) * (13421773 / 67108864) * (16777217 / 16777216)"
    using y by (meson mult_right_mono order_trans zero_le_divide_iff zero_le_numeral)
  also have "\<dots> \<le> ?p * (21 / 100)" using assms(1) by (simp add: mult_left_mono)
  finally have "(of_int (100 * royalty_amount price r) :: rat) \<le> of_int (21 * price)" using t(2) by simp
  then show "100 * royalty_amount price r \<le> 21 * price" by (simp only: of_int_le_iff)
qed (use trunc_bounds [of "fl 24 (fl 24 (of_int price) * r)"] fl_bounds assms in \<open>simp add: royalty_amount_def\<close>)

text \<open>
  C24. The price of a transfer is divided without loss: for a royalty rate up to the maximum,
  the seller's part, the royalty and the green fee are never negative, add up to the price
  exactly, and the seller keeps at least three quarters, in spite of the rounding of the
  single-precision royalty.
\<close>

theorem transfer_amounts_split:
  assumes "ft_item t = Some (RegNFT r green)" "0 \<le> r" "r \<le> MAX_ROYALTY"
  shows "\<exists>p ro gr. transfer_amounts h t = Some (p, ro, gr)
    \<and> p + (case ro of None \<Rightarrow> 0 | Some a \<Rightarrow> a) + (case gr of None \<Rightarrow> 0 | Some a \<Rightarrow> a) = uint (ft_pricePSL t) * COIN
    \<and> (\<forall>a. ro = Some a \<or> gr = Some a \<longrightarrow> 0 \<le> a) \<and> 3 * (uint (ft_pricePSL t) * COIN) \<le> 4 * p"
proof -
  define P where P: "P = uint (ft_pricePSL t) * COIN"
  have 0: "0 \<le> P" by (simp add: P COIN_def)
  note ro = royalty_amount_bounds [OF 0 assms(2,3)]
  have "c_div a 100 = a div 100" if "0 \<le> a" for a
    using that by (auto simp: c_div_def sgn_if)
  then have gr: "0 \<le> green_amount h P" "100 * green_amount h P \<le> 2 * P"
    using 0 by (simp_all add: green_amount_def GreenPercent_def GREEN_FEE_PERCENT_def pos_imp_zdiv_nonneg_iff mult.commute)
  show ?thesis
    using ro gr 0 assms(1) unfolding P [symmetric] transfer_amounts_def by (auto simp: Let_def)
qed

section \<open>Instances\<close>

definition sample_transfer :: fee_ticket where
  "sample_transfer = \<lparr>ft_id = Transfer, ft_askedPricePSL = 0, ft_pricePSL = 3, ft_fee = 0, ft_storageFee = 0,
     ft_item = Some (RegNFT (1 / 8) True)\<rparr>"

lemma sample_ids: "ft_id sample_transfer = Transfer" "ft_pricePSL sample_transfer = 3"
  by (simp_all add: sample_transfer_def)

definition sample_parties :: ticket_parties where
  "sample_parties = \<lparr>offer_askedPrice = Some 3, offerer_address = Some ''a'', royalty_address = ''b'',
     green_address = ''c'', mn_addresses = None\<rparr>"

definition sample_decode :: "string \<Rightarrow> CTxDestination" where
  "sample_decode a = CKeyID (replicate 20 1)"

definition sample_out :: "CAmount \<Rightarrow> CTxOut" where
  "sample_out v = \<lparr>nValue = v, scriptPubKey = [OP_DUP]\<rparr>"

lemma sample_required: "required_payments 1 sample_transfer = Some [256500, 37500, 6000]"
  by code_simp

theorem ValidateTicketFees_iff_witness:
  "ValidateTicketFees 1 (map sample_out [400000, 600000, 7, 256500, 37500, 6000]) sample_transfer = Some setValid
   \<and> ValidateTicketFees 1 (map sample_out [400000, 600000, 7, 256500, 37500, 6001]) sample_transfer \<noteq> Some setValid"
proof -
  have "TicketPricePSL sample_transfer 1 * COIN = 1000000" by code_simp
  then show ?thesis
    using ValidateTicketFees_iff [OF sample_required, of "map sample_out [400000, 600000, 7, 256500, 37500, 6000]"]
      ValidateTicketFees_iff [OF sample_required, of "map sample_out [400000, 600000, 7, 256500, 37500, 6001]"]
    by (simp add: sample_transfer_def sample_out_def)
qed

theorem transfer_amounts_split_witness:
  "transfer_amounts 1 sample_transfer = Some (256500, Some 37500, Some 6000)
   \<and> 3 * (uint (ft_pricePSL sample_transfer) * COIN) \<le> 4 * 256500"
proof -
  have a: "transfer_amounts 1 sample_transfer = Some (256500, Some 37500, Some 6000)" by code_simp
  have "ft_item sample_transfer = Some (RegNFT (1 / 8) True)" by (simp add: sample_transfer_def)
  from transfer_amounts_split [OF this, of 1] a show ?thesis by (simp add: MAX_ROYALTY_def)
qed

text \<open>A transfer, whose transaction passes, and an activation with a storage fee of zero, whose transaction does not.\<close>

definition sample_activation :: fee_ticket where
  "sample_activation = sample_transfer\<lparr>ft_id := Activate\<rparr>"

definition sample_signers :: ticket_parties where
  "sample_signers = sample_parties\<lparr>mn_addresses := Some [Some ''a'', Some ''b'', Some ''c'']\<rparr>"

definition sample_build :: "CTxOut list \<Rightarrow> CAmount \<Rightarrow> build_error + build_state" where
  "sample_build extra amount =
     BuildTransaction sample_fees True 80 (\<lambda>_. []) (sample_builder\<lparr>m_nPriceInPSL := 10, m_vExtraOutputs := extra, m_nExtraAmountInPat := amount\<rparr>)
       CMutableTransaction_default
       (map (\<lambda>v. \<lparr>out_txid = 1, out_i = 0, out_txout = sample_out v, fSpendable = True\<rparr>) [900000, 800000])"

lemma sample_built:
  "\<exists>outs st. GetExtraOutputs sample_decode 1 sample_parties sample_transfer = Inr (outs, 300000) \<and> sample_build outs 300000 = Inr st"
  "\<exists>outs st. GetExtraOutputs sample_decode 1 sample_signers sample_activation = Inr (outs, 0) \<and> sample_build outs 0 = Inr st"
  "TicketPricePSL sample_transfer 1 = 10 \<and> TicketPricePSL sample_activation 1 = 10"
proof -
  let ?e = "GetExtraOutputs sample_decode 1 sample_parties sample_transfer" and ?f = "GetExtraOutputs sample_decode 1 sample_signers sample_activation"
  have "\<not> isl ?e \<and> snd (projr ?e) = 300000 \<and> \<not> isl (sample_build (fst (projr ?e)) 300000)"
      "\<not> isl ?f \<and> snd (projr ?f) = 0 \<and> \<not> isl (sample_build (fst (projr ?f)) 0)" by code_simp+
  then show "\<exists>outs st. ?e = Inr (outs, 300000) \<and> sample_build outs 300000 = Inr st" "\<exists>outs st. ?f = Inr (outs, 0) \<and> sample_build outs 0 = Inr st"
    by (metis prod.collapse sum.collapse(2))+
  show "TicketPricePSL sample_transfer 1 = 10 \<and> TicketPricePSL sample_activation 1 = 10" by code_simp
qed

theorem built_ticket_fees_valid_witness:
  "(\<exists>outs st. sample_build outs 300000 = Inr st \<and> ValidateTicketFees 1 (vout (tx_out st)) sample_transfer = Some setValid) \<and>
   (\<exists>outs st. sample_build outs 0 = Inr st \<and> ValidateTicketFees 1 (vout (tx_out st)) sample_activation \<noteq> Some setValid)"
proof -
  note facts = CMutableTransaction_default_def sample_builder_def COIN_def sample_ids sample_parties_def sample_activation_def is_activation_def
    sample_transfer_def
  obtain outs st outs' st' where
      b: "GetExtraOutputs sample_decode 1 sample_parties sample_transfer = Inr (outs, 300000)" "sample_build outs 300000 = Inr st"
        "GetExtraOutputs sample_decode 1 sample_signers sample_activation = Inr (outs', 0)" "sample_build outs' 0 = Inr st'"
    using sample_built(1,2) by blast
  have "ValidateTicketFees 1 (vout (tx_out st)) sample_transfer = Some setValid"
    using built_ticket_fees_valid [OF b(2) [unfolded sample_build_def], of sample_transfer 1 sample_decode 1 sample_parties] b(1) sample_built(3)
    by (simp add: facts)
  moreover have "ValidateTicketFees 1 (vout (tx_out st')) sample_activation \<noteq> Some setValid"
    using built_ticket_fees_valid [OF b(4) [unfolded sample_build_def], of sample_activation 1 sample_decode 1 sample_signers] b(3) sample_built(3)
    by (simp add: facts)
  ultimately show ?thesis using b(2,4) by blast
qed

end
