(* ===== verification/Chain.thy ===== *)
theory Chain
  imports Prelude
begin

text \<open>
  The block index of \<open>chain.h\<close> and \<open>chain.cpp\<close>: entries linked to their predecessors and, for
  fast access, to an earlier ancestor (the skip list), the active chain as a vector indexed by
  height, and the searches over them. Entries live in a store keyed by block hash, the
  \<open>mapBlockIndex\<close> of \<open>main.cpp\<close>; a pointer is the hash of the entry it points to. Following
  a dangling pointer is the value \<^const>\<open>None\<close>, as is a failed assertion.
\<close>

section \<open>Block index entries\<close>

record CBlockIndex =
  pprev :: "uint256 option"
  pskip :: "uint256 option"
  nHeight :: int
  nStatus :: u32
  bi_nTime :: u32

type_synonym block_map = "uint256 \<rightharpoonup> CBlockIndex"

definition CBlockIndex_null :: CBlockIndex where
  "CBlockIndex_null = \<lparr>pprev = None, pskip = None, nHeight = 0, nStatus = 0, bi_nTime = 0\<rparr>"

subsection \<open>Validity status\<close>

definition BLOCK_VALID_TREE :: u32 where "BLOCK_VALID_TREE = 2"
definition BLOCK_VALID_MASK :: u32 where "BLOCK_VALID_MASK = 1 OR 2 OR 3 OR 4 OR 5"
definition BLOCK_FAILED_MASK :: u32 where "BLOCK_FAILED_MASK = 32 OR 64"

definition RaiseValidity :: "u32 \<Rightarrow> CBlockIndex \<Rightarrow> CBlockIndex \<times> bool" where
  "RaiseValidity nUpTo b =
     (if nStatus b AND BLOCK_FAILED_MASK \<noteq> 0 then (b, False)
      else if nStatus b AND BLOCK_VALID_MASK < nUpTo
      then (b\<lparr>nStatus := (nStatus b AND NOT BLOCK_VALID_MASK) OR nUpTo\<rparr>, True)
      else (b, False))"

definition IsValid :: "u32 \<Rightarrow> CBlockIndex \<Rightarrow> bool" where
  "IsValid nUpTo b \<longleftrightarrow>
     (if nStatus b AND BLOCK_FAILED_MASK \<noteq> 0 then False else nStatus b AND BLOCK_VALID_MASK \<ge> nUpTo)"

definition SetStatusFlag :: "u32 \<Rightarrow> CBlockIndex \<Rightarrow> CBlockIndex" where
  "SetStatusFlag statusFlag b = b\<lparr>nStatus := nStatus b OR statusFlag\<rparr>"

definition ClearStatusFlag :: "u32 \<Rightarrow> CBlockIndex \<Rightarrow> CBlockIndex" where
  "ClearStatusFlag statusFlag b = b\<lparr>nStatus := nStatus b AND NOT statusFlag\<rparr>"

section \<open>The skip list\<close>

definition InvertLowestOne :: "int \<Rightarrow> int" where
  "InvertLowestOne n = n AND (n - 1)"

definition GetSkipHeight :: "int \<Rightarrow> int" where
  "GetSkipHeight height =
     (if height < 2 then 0
      else if height AND 1 \<noteq> 0 then InvertLowestOne (InvertLowestOne (height - 1)) + 1
      else InvertLowestOne height)"

lemma InvertLowestOne_bounds: "0 \<le> n \<Longrightarrow> 0 \<le> InvertLowestOne n \<and> InvertLowestOne n \<le> n"
  by (simp add: InvertLowestOne_def AND_upper1)

lemma InvertLowestOne_less: "0 < n \<Longrightarrow> InvertLowestOne n < n"
  using AND_upper2 [of "n - 1" n] by (simp add: InvertLowestOne_def)

lemma GetSkipHeight_bounds: "0 < h \<Longrightarrow> 0 \<le> GetSkipHeight h \<and> GetSkipHeight h < h"
proof -
  assume h: "0 < h"
  have "0 \<le> InvertLowestOne (InvertLowestOne (h - 1)) + 1 \<and> InvertLowestOne (InvertLowestOne (h - 1)) + 1 < h"
    if "2 \<le> h"
    using that InvertLowestOne_bounds [of "h - 1"] InvertLowestOne_less [of "h - 1"]
      InvertLowestOne_bounds [of "InvertLowestOne (h - 1)"] by simp
  then show ?thesis
    using h InvertLowestOne_bounds [of h] InvertLowestOne_less [of h] by (auto simp: GetSkipHeight_def)
qed

text \<open>
  The walk of \<open>GetAncestor\<close>. The loop ends for every store, because the height it counts with
  decreases; \<^const>\<open>None\<close> is the failed assertion.
\<close>

function walk_back :: "block_map \<Rightarrow> uint256 \<Rightarrow> int \<Rightarrow> int \<Rightarrow> uint256 option" where
  "walk_back st pindexWalk heightWalk height =
     (if 0 \<le> height \<and> height < heightWalk then
        case st pindexWalk of None \<Rightarrow> None
        | Some b \<Rightarrow>
            let heightSkip = GetSkipHeight heightWalk; heightSkipPrev = GetSkipHeight (heightWalk - 1)
            in case pskip b of
                 Some q \<Rightarrow>
                   if heightSkip = height \<or>
                      (heightSkip > height \<and> \<not> (heightSkipPrev < heightSkip - 2 \<and> heightSkipPrev \<ge> height))
                   then walk_back st q heightSkip height
                   else (case pprev b of None \<Rightarrow> None | Some q \<Rightarrow> walk_back st q (heightWalk - 1) height)
               | None \<Rightarrow> (case pprev b of None \<Rightarrow> None | Some q \<Rightarrow> walk_back st q (heightWalk - 1) height)
      else Some pindexWalk)"
  by pat_completeness auto
termination
  by (relation "measure (\<lambda>(_, _, heightWalk, _). nat heightWalk)") (use GetSkipHeight_bounds in force)+

declare walk_back.simps [simp del]

definition GetAncestor :: "block_map \<Rightarrow> uint256 \<Rightarrow> int \<Rightarrow> uint256 option" where
  "GetAncestor st p height =
     (case st p of None \<Rightarrow> None
      | Some b \<Rightarrow> if height > nHeight b \<or> height < 0 then None else walk_back st p (nHeight b) height)"

definition BuildSkip :: "block_map \<Rightarrow> CBlockIndex \<Rightarrow> CBlockIndex" where
  "BuildSkip st b =
     (case pprev b of None \<Rightarrow> b
      | Some q \<Rightarrow> b\<lparr>pskip := GetAncestor st q (GetSkipHeight (nHeight b))\<rparr>)"

text \<open>
  \<open>AddToBlockIndex\<close>, as far as the links go: a known hash is left alone. The source enters the new entry
  before it looks for the predecessor, which makes a difference only for a header that names its own
  hash as its predecessor; the hash of a header covers that field.
\<close>

definition AddToBlockIndex :: "uint256 \<Rightarrow> uint256 \<Rightarrow> u32 \<Rightarrow> block_map \<Rightarrow> block_map" where
  "AddToBlockIndex hashBlock hashPrevBlock nTime st =
     (case st hashBlock of Some _ \<Rightarrow> st
      | None \<Rightarrow>
          let b = CBlockIndex_null\<lparr>bi_nTime := nTime\<rparr>;
              b = (case st hashPrevBlock of None \<Rightarrow> b
                   | Some prev \<Rightarrow> BuildSkip st (b\<lparr>pprev := Some hashPrevBlock, nHeight := nHeight prev + 1\<rparr>))
          in st(hashBlock \<mapsto> fst (RaiseValidity BLOCK_VALID_TREE b)))"

section \<open>The skip list finds the same ancestors as the predecessor links\<close>

primrec nth_prev :: "block_map \<Rightarrow> nat \<Rightarrow> uint256 \<Rightarrow> uint256 option" where
  "nth_prev st 0 p = Some p"
| "nth_prev st (Suc k) p = Option.bind (Option.bind (st p) pprev) (nth_prev st k)"

text \<open>The specification: go back along \<open>pprev\<close> as many steps as the heights differ.\<close>

definition ancestor :: "block_map \<Rightarrow> uint256 \<Rightarrow> int \<Rightarrow> uint256 option" where
  "ancestor st p height =
     (case st p of None \<Rightarrow> None
      | Some b \<Rightarrow> if height > nHeight b \<or> height < 0 then None else nth_prev st (nat (nHeight b - height)) p)"

definition index_ok :: "block_map \<Rightarrow> bool" where
  "index_ok st \<longleftrightarrow>
     (\<forall>p b. st p = Some b \<longrightarrow>
        (case pprev b of None \<Rightarrow> nHeight b = 0 \<and> pskip b = None
         | Some q \<Rightarrow> (\<exists>c. st q = Some c \<and> nHeight b = nHeight c + 1) \<and> 0 < nHeight b \<and>
             (\<forall>s. pskip b = Some s \<longrightarrow> ancestor st p (GetSkipHeight (nHeight b)) = Some s)))"

lemma nth_prev_add: "nth_prev st (j + k) p = Option.bind (nth_prev st j p) (nth_prev st k)"
  by (induction j arbitrary: p) (auto simp: bind_assoc intro: Option.bind_cong)

lemma index_okD:
  assumes "index_ok st" "st p = Some b"
  shows "0 \<le> nHeight b"
    and "pprev b = Some q \<Longrightarrow> \<exists>c. st q = Some c \<and> nHeight b = nHeight c + 1"
    and "0 < nHeight b \<Longrightarrow> \<exists>q. pprev b = Some q"
    and "pskip b = Some s \<Longrightarrow> ancestor st p (GetSkipHeight (nHeight b)) = Some s \<and> 0 < nHeight b"
  using assms unfolding index_ok_def by (auto split: option.splits) force+

lemma nth_prev_height:
  assumes "index_ok st" "st p = Some b" "int k \<le> nHeight b"
  shows "\<exists>q c. nth_prev st k p = Some q \<and> st q = Some c \<and> nHeight c = nHeight b - int k"
  using assms(2,3)
proof (induction k arbitrary: p b)
  case (Suc k)
  obtain q c where q: "pprev b = Some q" "st q = Some c" "nHeight b = nHeight c + 1"
    using index_okD(2,3) [OF assms(1) Suc.prems(1)] Suc.prems(2) by fastforce
  with Suc.IH [OF q(2)] Suc.prems show ?case by auto
qed simp

lemma ancestor_Some:
  assumes "index_ok st" "st p = Some b" "0 \<le> h" "h \<le> nHeight b"
  shows "\<exists>q c. ancestor st p h = Some q \<and> st q = Some c \<and> nHeight c = h"
  using nth_prev_height [OF assms(1,2), of "nat (nHeight b - h)"] assms by (auto simp: ancestor_def)

text \<open>An ancestor's ancestor is an ancestor.\<close>

lemma ancestor_trans:
  assumes "index_ok st" "st p = Some b" "ancestor st p h = Some q" "0 \<le> g" "g \<le> h"
  shows "ancestor st q g = ancestor st p g"
proof -
  have h: "0 \<le> h" "h \<le> nHeight b" using assms(2,3) by (auto simp: ancestor_def split: if_splits)
  from ancestor_Some [OF assms(1,2) h] assms(3) obtain c where c: "st q = Some c" "nHeight c = h" by auto
  have "nat (nHeight b - g) = nat (nHeight b - h) + nat (h - g)" using h assms(5) by simp
  then have "nth_prev st (nat (nHeight b - g)) p = nth_prev st (nat (h - g)) q"
    using assms(2,3) h nth_prev_add [of st "nat (nHeight b - h)"] by (simp add: ancestor_def split: if_splits)
  with assms c h show ?thesis by (simp add: ancestor_def)
qed

lemma ancestor_pprev:
  assumes "index_ok st" "st p = Some b" "pprev b = Some q"
  shows "ancestor st p (nHeight b - 1) = Some q"
proof -
  obtain c where "st q = Some c" "nHeight b = nHeight c + 1" using index_okD(2) [OF assms] by auto
  moreover have "0 \<le> nHeight c" using index_okD(1) [OF assms(1)] calculation(1) by blast
  ultimately show ?thesis using assms(2,3) by (simp add: ancestor_def)
qed

lemma walk_back_ancestor:
  assumes "index_ok st" "st p = Some b" "0 \<le> height" "height \<le> nHeight b"
  shows "walk_back st p (nHeight b) height = ancestor st p height"
  using assms(2-)
proof (induction "nat (nHeight b)" arbitrary: p b rule: less_induct)
  case less
  show ?case
  proof (cases "height < nHeight b")
    case True
    obtain q c where q: "pprev b = Some q" "st q = Some c" "nHeight b = nHeight c + 1"
      using index_okD(2,3) [OF assms(1) less.prems(1)] True less.prems(2) by fastforce
    have step: "walk_back st q (nHeight b - 1) height = ancestor st p height"
      using less.hyps [of c q] q True less.prems(2)
        ancestor_trans [OF assms(1) less.prems(1) ancestor_pprev [OF assms(1) less.prems(1) q(1)], of height] by simp
    have skip: "walk_back st s (GetSkipHeight (nHeight b)) height = ancestor st p height"
      if s: "pskip b = Some s" "height \<le> GetSkipHeight (nHeight b)" for s
    proof -
      have a: "ancestor st p (GetSkipHeight (nHeight b)) = Some s" "0 < nHeight b"
        using index_okD(4) [OF assms(1) less.prems(1) s(1)] by auto
      note g = GetSkipHeight_bounds [OF a(2)]
      obtain d where d: "st s = Some d" "nHeight d = GetSkipHeight (nHeight b)"
        using ancestor_Some [OF assms(1) less.prems(1), of "GetSkipHeight (nHeight b)"] a g by auto
      with less.hyps [of d s] g s(2) less.prems(2)
        ancestor_trans [OF assms(1) less.prems(1) a(1) less.prems(2) s(2)] show ?thesis by simp
    qed
    show ?thesis
      using True less.prems step skip q
      by (auto simp: walk_back.simps [of st p] Let_def split: option.splits)
  next
    case False
    with less.prems show ?thesis by (simp add: walk_back.simps ancestor_def)
  qed
qed

lemma GetAncestor_eq: "index_ok st \<Longrightarrow> GetAncestor st p height = ancestor st p height"
  using walk_back_ancestor [of st p] by (auto simp: GetAncestor_def ancestor_def split: option.splits)

lemma nat_Suc_diff: "g \<le> c \<Longrightarrow> nat (c + 1 - g) = Suc (nat (c - g))" for g c :: int
  by linarith

text \<open>New entries keep the index in order: nothing that existed is reached differently.\<close>

lemma nth_prev_frame:
  assumes "index_ok st" "st p = None" "st q = Some c"
  shows "nth_prev (st(p \<mapsto> b)) k q = nth_prev st k q"
  using assms(3)
proof (induction k arbitrary: q c)
  case (Suc k)
  then have "q \<noteq> p" using assms(2) by auto
  with Suc index_okD(2) [OF assms(1) Suc.prems] show ?case
    by (cases "pprev c") auto
qed simp

lemma ancestor_frame:
  "index_ok st \<Longrightarrow> st p = None \<Longrightarrow> st q = Some c \<Longrightarrow> ancestor (st(p \<mapsto> b)) q h = ancestor st q h"
  by (auto simp: ancestor_def nth_prev_frame simp del: fun_upd_apply) (auto simp: nth_prev_frame)

lemma RaiseValidity_links:
  "pprev (fst (RaiseValidity v b)) = pprev b" "pskip (fst (RaiseValidity v b)) = pskip b"
  "nHeight (fst (RaiseValidity v b)) = nHeight b"
  by (simp_all add: RaiseValidity_def)

lemma index_ok_add:
  assumes "index_ok st" "st p = None"
    and "case pprev b of None \<Rightarrow> nHeight b = 0 \<and> pskip b = None
         | Some q \<Rightarrow> (\<exists>c. st q = Some c \<and> nHeight b = nHeight c + 1 \<and>
             pskip b = ancestor st q (GetSkipHeight (nHeight b)))"
  shows "index_ok (st(p \<mapsto> b))"
  unfolding index_ok_def
proof (intro allI impI)
  let ?st = "st(p \<mapsto> b)"
  fix r d assume r: "?st r = Some d"
  show "case pprev d of None \<Rightarrow> nHeight d = 0 \<and> pskip d = None
      | Some q \<Rightarrow> (\<exists>c. ?st q = Some c \<and> nHeight d = nHeight c + 1) \<and> 0 < nHeight d \<and>
          (\<forall>s. pskip d = Some s \<longrightarrow> ancestor ?st r (GetSkipHeight (nHeight d)) = Some s)"
  proof (cases "r = p")
    case False
    with r have d: "st r = Some d" by simp
    note f = ancestor_frame [OF assms(1,2) d, of b]
    show ?thesis
    proof (cases "pprev d")
      case None
      with d assms(1) show ?thesis unfolding index_ok_def by force
    next
      case (Some q)
      then obtain c where "st q = Some c" "nHeight d = nHeight c + 1" using index_okD(2) [OF assms(1) d] by auto
      with Some d assms(1,2) show ?thesis unfolding index_ok_def f by fastforce
    qed
  next
    case True
    then have [simp]: "d = b" using r by simp
    show ?thesis
    proof (cases "pprev b")
      case (Some q)
      with assms(3) obtain c where c: "st q = Some c" "nHeight b = nHeight c + 1"
          "pskip b = ancestor st q (GetSkipHeight (nHeight b))" by auto
      have h: "0 \<le> nHeight c" using index_okD(1) [OF assms(1) c(1)] .
      note g = GetSkipHeight_bounds [of "nHeight b"]
      have "nat (nHeight b - GetSkipHeight (nHeight b)) = Suc (nat (nHeight c - GetSkipHeight (nHeight b)))"
        using g h c(2) nat_Suc_diff [of "GetSkipHeight (nHeight b)" "nHeight c"] by simp
      then have "nth_prev ?st (nat (nHeight b - GetSkipHeight (nHeight b))) p =
          nth_prev ?st (nat (nHeight c - GetSkipHeight (nHeight b))) q"
        using Some by simp
      also have "\<dots> = nth_prev st (nat (nHeight c - GetSkipHeight (nHeight b))) q"
        by (rule nth_prev_frame [OF assms(1,2) c(1)])
      finally have "ancestor ?st p (GetSkipHeight (nHeight b)) = pskip b"
        using g h c by (simp add: ancestor_def)
      with c h Some True assms(2) show ?thesis by auto
    qed (use assms(3) in auto)
  qed
qed

lemma AddToBlockIndex_ok:
  assumes "index_ok st"
  shows "index_ok (AddToBlockIndex hashBlock hashPrevBlock t st)"
proof (cases "st hashBlock")
  case None
  show ?thesis
  proof (cases "st hashPrevBlock")
    case None
    with \<open>st hashBlock = None\<close> show ?thesis
      by (auto simp: AddToBlockIndex_def CBlockIndex_null_def RaiseValidity_links intro!: index_ok_add [OF assms])
  next
    case (Some prev)
    with \<open>st hashBlock = None\<close> show ?thesis
      by (auto simp: AddToBlockIndex_def CBlockIndex_null_def RaiseValidity_links BuildSkip_def GetAncestor_eq [OF assms]
          intro!: index_ok_add [OF assms])
  qed
qed (use assms in \<open>simp add: AddToBlockIndex_def\<close>)

text \<open>The index as a run of the node builds it: headers are added one by one.\<close>

inductive indexed :: "block_map \<Rightarrow> bool" where
  empty: "indexed Map.empty"
| add: "indexed st \<Longrightarrow> indexed (AddToBlockIndex hashBlock hashPrevBlock t st)"

lemma indexed_ok: "indexed st \<Longrightarrow> index_ok st"
proof (induction rule: indexed.induct)
  case empty
  show ?case by (simp add: index_ok_def)
qed (rule AddToBlockIndex_ok)

text \<open>
  C20. The skip list is sound: in every block index built by adding headers, \<open>GetAncestor\<close> with
  its jumps returns exactly the block that the specification finds by following the predecessor
  links, for every entry and every height, and it never runs into a missing link.
\<close>

theorem GetAncestor_skip_list:
  assumes "indexed st"
  shows "GetAncestor st p height = ancestor st p height \<and>
    (\<forall>b. st p = Some b \<and> 0 \<le> height \<and> height \<le> nHeight b \<longrightarrow>
      (\<exists>q c. GetAncestor st p height = Some q \<and> st q = Some c \<and> nHeight c = height))"
  using GetAncestor_eq [OF indexed_ok [OF assms]] ancestor_Some [OF indexed_ok [OF assms]] by simp_all

section \<open>The active chain\<close>

record CChain =
  vChain :: "uint256 option list"
  gl_nChainHeight :: u32

definition CChain_new :: CChain where
  "CChain_new = \<lparr>vChain = [], gl_nChainHeight = 0\<rparr>"

definition chain_at :: "CChain \<Rightarrow> int \<Rightarrow> uint256 option" where
  "chain_at c h = (if h < 0 \<or> h \<ge> int (length (vChain c)) then None else vChain c ! nat h)"

definition Genesis :: "CChain \<Rightarrow> uint256 option" where
  "Genesis c = (if length (vChain c) > 0 then vChain c ! 0 else None)"

definition Tip :: "CChain \<Rightarrow> uint256 option" where
  "Tip c = (if length (vChain c) > 0 then vChain c ! (length (vChain c) - 1) else None)"

definition Height :: "CChain \<Rightarrow> int" where
  "Height c = int (length (vChain c)) - 1"

definition Contains :: "block_map \<Rightarrow> CChain \<Rightarrow> uint256 \<Rightarrow> bool" where
  "Contains st c p = (case st p of None \<Rightarrow> False | Some b \<Rightarrow> chain_at c (nHeight b) = Some p)"

definition Next :: "block_map \<Rightarrow> CChain \<Rightarrow> uint256 \<Rightarrow> uint256 option" where
  "Next st c p =
     (if Contains st c p then chain_at c (nHeight (the (st p)) + 1) else None)"

definition resize :: "nat \<Rightarrow> 'a \<Rightarrow> 'a list \<Rightarrow> 'a list" where
  "resize n d xs = take n xs @ replicate (n - length xs) d"

text \<open>
  The loop of \<open>SetTip\<close> fills the vector from the new tip downwards until it meets an entry that
  is already there. It visits each height at most once, which bounds its steps.
\<close>

fun set_tip_loop :: "block_map \<Rightarrow> nat \<Rightarrow> uint256 option list \<Rightarrow> uint256 option \<Rightarrow> uint256 option list option" where
  "set_tip_loop st 0 v pindex = None"
| "set_tip_loop st (Suc fuel) v pindex =
     (case pindex of None \<Rightarrow> Some v
      | Some q \<Rightarrow>
         (case st q of None \<Rightarrow> None
          | Some b \<Rightarrow> if v ! nat (nHeight b) = Some q then Some v
                      else set_tip_loop st fuel (v[nat (nHeight b) := Some q]) (pprev b)))"

definition SetTip :: "block_map \<Rightarrow> uint256 option \<Rightarrow> CChain \<Rightarrow> CChain option" where
  "SetTip st pindex c =
     (case pindex of None \<Rightarrow> Some (c\<lparr>vChain := [], gl_nChainHeight := 0\<rparr>)
      | Some q \<Rightarrow>
         (case st q of None \<Rightarrow> None
          | Some b \<Rightarrow>
              let nRequiredSize = nat (nHeight b) + 1
              in map_option (\<lambda>v. c\<lparr>vChain := v, gl_nChainHeight := of_nat (length v) - 1\<rparr>)
                   (set_tip_loop st (nRequiredSize + 1) (resize nRequiredSize None (vChain c)) (Some q))))"

definition path_to :: "block_map \<Rightarrow> uint256 \<Rightarrow> CBlockIndex \<Rightarrow> uint256 option list" where
  "path_to st p b = map (\<lambda>h. ancestor st p (int h)) [0..<nat (nHeight b) + 1]"

lemma length_path_to [simp]: "length (path_to st p b) = nat (nHeight b) + 1"
  by (simp add: path_to_def del: upt_Suc)

lemma path_to_nth: "i < nat (nHeight b) + 1 \<Longrightarrow> path_to st p b ! i = ancestor st p (int i)"
  by (simp add: path_to_def del: upt_Suc)

text \<open>The chain holds the ancestors of its tip, one per height.\<close>

definition chain_ok :: "block_map \<Rightarrow> CChain \<Rightarrow> bool" where
  "chain_ok st c \<longleftrightarrow>
     (vChain c = [] \<and> gl_nChainHeight c = 0) \<or>
     (\<exists>p b. st p = Some b \<and> vChain c = path_to st p b \<and> gl_nChainHeight c = of_int (nHeight b))"

lemma set_tip_loop_path:
  assumes "index_ok st" "st p = Some b"
    and "length v = nat (nHeight b) + 1" "h < length v" "ancestor st p (int h) = Some q"
    and "\<And>i. h < i \<Longrightarrow> i < length v \<Longrightarrow> v ! i = ancestor st p (int i)"
    and "\<And>i. i \<le> h \<Longrightarrow> v ! i = (if i < n then ancestor st r (int i) else None)" "st r = Some rb"
  shows "set_tip_loop st (Suc (Suc h)) v (Some q) = Some (path_to st p b)"
  using assms(3-7)
proof (induction h arbitrary: v q)
  case (0 v q)
  from ancestor_Some [OF assms(1,2), of 0] "0.prems"(2,3) index_okD(1) [OF assms(1,2)] obtain c where
    c: "st q = Some c" "nHeight c = 0" by auto
  then have "pprev c = None" using index_okD(2) [OF assms(1) c(1)] index_okD(1) [OF assms(1)] by (cases "pprev c") fastforce+
  moreover have "v[0 := Some q] = path_to st p b"
    using "0.prems" by (auto simp: path_to_nth list_eq_iff_nth_eq nth_list_update)
  moreover have "v ! 0 = Some q \<Longrightarrow> v = path_to st p b"
    using calculation(2) by (metis list_update_id)
  ultimately show ?case using c by simp
next
  case (Suc h v q)
  have hb: "int (Suc h) \<le> nHeight b" using Suc.prems(1,2) by linarith
  from ancestor_Some [OF assms(1,2) _ hb] Suc.prems(3) obtain c where
    c: "st q = Some c" "nHeight c = int (Suc h)" by auto
  have nc: "nat (nHeight c) = Suc h" using c(2) by simp
  obtain q' where q': "pprev c = Some q'" using index_okD(3) [OF assms(1) c(1)] c(2) by auto
  have a: "ancestor st p (int h) = Some q'"
    using ancestor_trans [OF assms(1,2) Suc.prems(3), of "int h"] ancestor_pprev [OF assms(1) c(1) q'] c(2) by simp
  show ?case
  proof (cases "v ! Suc h = Some q")
    case True
    then have r: "Suc h < n" "ancestor st r (int (Suc h)) = Some q"
      using Suc.prems(5) [of "Suc h"] by (auto split: if_splits)
    have "v ! i = ancestor st p (int i)" if "i < length v" for i
    proof (cases "Suc h < i")
      case False
      then have "ancestor st q (int i) = ancestor st p (int i)" "ancestor st q (int i) = ancestor st r (int i)"
        using ancestor_trans [OF assms(1,2) Suc.prems(3), of "int i"]
          ancestor_trans [OF assms(1,8) r(2), of "int i"] by simp_all
      with False r(1) Suc.prems(5) [of i] show ?thesis by simp
    qed (use Suc.prems(4) that in simp)
    then have "v = path_to st p b" using Suc.prems(1) by (simp add: path_to_nth list_eq_iff_nth_eq)
    with True c(1) nc show ?thesis by simp
  next
    case False
    have "set_tip_loop st (Suc (Suc h)) (v[Suc h := Some q]) (Some q') = Some (path_to st p b)"
      using Suc.prems a by (intro Suc.IH) (auto simp: nth_list_update)
    with False c(1) nc q' show ?thesis by (simp del: set_tip_loop.simps add: set_tip_loop.simps(2) [of st "Suc (Suc h)"])
  qed
qed

lemma resize_nth: "i < k \<Longrightarrow> resize k d xs ! i = (if i < length xs then xs ! i else d)"
  by (auto simp: resize_def nth_append)

lemma length_resize [simp]: "length (resize k d xs) = k"
  by (simp add: resize_def)

lemma SetTip_path:
  assumes "index_ok st" "chain_ok st c" "st p = Some b"
  shows "SetTip st (Some p) c = Some (c\<lparr>vChain := path_to st p b, gl_nChainHeight := of_int (nHeight b)\<rparr>)"
proof -
  let ?k = "nat (nHeight b) + 1"
  have b: "0 \<le> nHeight b" using index_okD(1) [OF assms(1,3)] .
  obtain r rb where r: "st r = Some rb" "\<And>i. i < length (vChain c) \<Longrightarrow> vChain c ! i = ancestor st r (int i)"
  proof (cases "vChain c = []")
    case True
    with assms(3) that show thesis by simp
  next
    case False
    with assms(2) obtain r rb where "st r = Some rb" "vChain c = path_to st r rb" by (auto simp: chain_ok_def)
    then show thesis by (intro that) (auto simp: path_to_nth)
  qed
  have "set_tip_loop st (Suc (Suc (nat (nHeight b)))) (resize ?k None (vChain c)) (Some p) = Some (path_to st p b)"
    using assms(3) b r
    by (intro set_tip_loop_path [OF assms(1,3), where n = "length (vChain c)" and r = r])
      (auto simp: resize_nth ancestor_def)
  then show ?thesis using assms(3) b by (simp add: SetTip_def del: set_tip_loop.simps)
qed

text \<open>The chain of a running node: tips are set, headers arrive.\<close>

inductive node_chain :: "block_map \<Rightarrow> CChain \<Rightarrow> bool" where
  start: "node_chain Map.empty CChain_new"
| header: "node_chain st c \<Longrightarrow> node_chain (AddToBlockIndex hashBlock hashPrevBlock t st) c"
| tip: "node_chain st c \<Longrightarrow> st p = Some b \<Longrightarrow> SetTip st (Some p) c = Some c' \<Longrightarrow> node_chain st c'"
| unload: "node_chain st c \<Longrightarrow> SetTip st None c = Some c' \<Longrightarrow> node_chain st c'"

lemma AddToBlockIndex_keeps: "st p = Some b \<Longrightarrow> AddToBlockIndex x y t st p = Some b"
  by (auto simp: AddToBlockIndex_def Let_def split: option.splits)

lemma AddToBlockIndex_ancestor:
  assumes "index_ok st" "st p = Some b"
  shows "ancestor (AddToBlockIndex x y t st) p h = ancestor st p h"
proof (cases "st x")
  case None
  then obtain d where "AddToBlockIndex x y t st = st(x \<mapsto> d)" by (auto simp: AddToBlockIndex_def Let_def)
  then show ?thesis using ancestor_frame [OF assms(1) None assms(2)] by simp
qed (simp add: AddToBlockIndex_def)

lemma node_chain_ok: "node_chain st c \<Longrightarrow> index_ok st \<and> chain_ok st c"
proof (induction rule: node_chain.induct)
  case start
  show ?case by (simp add: index_ok_def chain_ok_def CChain_new_def)
next
  case (header st c x y t)
  have "path_to (AddToBlockIndex x y t st) p b = path_to st p b" if "st p = Some b" for p b
    using header.IH that by (simp add: path_to_def AddToBlockIndex_ancestor)
  with header.IH have "chain_ok (AddToBlockIndex x y t st) c"
    unfolding chain_ok_def using AddToBlockIndex_keeps by metis
  with header.IH show ?case using AddToBlockIndex_ok by blast
next
  case (tip st c p b c')
  then show ?case using SetTip_path [of st c p b] by (auto simp: chain_ok_def)
next
  case (unload st c c')
  then show ?case by (auto simp: SetTip_def chain_ok_def)
qed

text \<open>
  C21. \<open>SetTip\<close> re-organizes the active chain correctly: from any state a node reaches by adding
  headers and setting tips, setting the tip to a known block succeeds and leaves exactly that
  block's ancestors in the vector, one per height, with the global height updated, although the
  loop stops at the first entry that is already in place.
\<close>

theorem SetTip_reorganizes:
  assumes "node_chain st c" "st p = Some b"
  shows "\<exists>c'. SetTip st (Some p) c = Some c' \<and> Tip c' = Some p \<and> Height c' = nHeight b
    \<and> gl_nChainHeight c' = of_int (nHeight b)
    \<and> (\<forall>h. chain_at c' h = ancestor st p h) \<and> (\<forall>q. Contains st c' q \<longleftrightarrow> (\<exists>h. ancestor st p h = Some q))"
proof -
  note ok = node_chain_ok [OF assms(1)]
  have b: "0 \<le> nHeight b" using index_okD(1) [of st p b] ok assms(2) by blast
  let ?c = "c\<lparr>vChain := path_to st p b, gl_nChainHeight := of_int (nHeight b)\<rparr>"
  have at: "chain_at ?c h = ancestor st p h" for h
    using b assms(2) by (auto simp: chain_at_def path_to_nth ancestor_def)
  have "Contains st ?c q \<longleftrightarrow> (\<exists>h. ancestor st p h = Some q)" for q
  proof
    assume "\<exists>h. ancestor st p h = Some q"
    then obtain h where h: "ancestor st p h = Some q" "0 \<le> h" "h \<le> nHeight b"
      using assms(2) by (auto simp: ancestor_def split: if_splits)
    then obtain d where "st q = Some d" "nHeight d = h" using ancestor_Some [of st p b h] assms(2) ok by auto
    with h(1) show "Contains st ?c q" by (simp add: Contains_def at)
  qed (auto simp: Contains_def at split: option.splits)
  moreover have "Tip ?c = Some p" using b assms(2) by (simp add: Tip_def path_to_nth ancestor_def)
  ultimately show ?thesis
    using SetTip_path [of st c p b] ok assms(2) b at by (intro exI [of _ ?c]) (simp add: Height_def)
qed

section \<open>Searching for common blocks\<close>

fun fork_loop :: "block_map \<Rightarrow> CChain \<Rightarrow> nat \<Rightarrow> uint256 option \<Rightarrow> uint256 option option" where
  "fork_loop st c 0 pindex = None"
| "fork_loop st c (Suc fuel) pindex =
     (case pindex of None \<Rightarrow> Some None
      | Some q \<Rightarrow> if Contains st c q then Some (Some q)
                  else (case st q of None \<Rightarrow> None | Some b \<Rightarrow> fork_loop st c fuel (pprev b)))"

text \<open>The outer option is \<^const>\<open>None\<close> only for a dangling pointer; the inner one is the result.\<close>

definition FindFork :: "block_map \<Rightarrow> CChain \<Rightarrow> uint256 \<Rightarrow> uint256 option option" where
  "FindFork st c p =
     (case st p of None \<Rightarrow> None
      | Some b \<Rightarrow>
          fork_loop st c (nat (nHeight b) + 2)
            (if nHeight b > Height c then GetAncestor st p (Height c) else Some p))"

fun common_loop :: "block_map \<Rightarrow> nat \<Rightarrow> uint256 option \<Rightarrow> uint256 option \<Rightarrow> uint256 option option" where
  "common_loop st 0 pa pb = None"
| "common_loop st (Suc fuel) pa pb =
     (case (pa, pb) of
        (Some a, Some b) \<Rightarrow>
          if a = b then Some (Some a)
          else (case (st a, st b) of
                  (Some x, Some y) \<Rightarrow> common_loop st fuel (pprev x) (pprev y)
                | _ \<Rightarrow> None)
      | (None, None) \<Rightarrow> Some None
      | _ \<Rightarrow> None)"

definition FindLastCommonAncestorBlockIndex :: "block_map \<Rightarrow> uint256 \<Rightarrow> uint256 \<Rightarrow> uint256 option option" where
  "FindLastCommonAncestorBlockIndex st pa pb =
     (case (st pa, st pb) of
        (Some a, Some b) \<Rightarrow>
          (let qa = (if nHeight a > nHeight b then GetAncestor st pa (nHeight b) else Some pa);
               qb = (if \<not> nHeight a > nHeight b \<and> nHeight b > nHeight a then GetAncestor st pb (nHeight a) else Some pb)
           in common_loop st (nat (min (nHeight a) (nHeight b)) + 2) qa qb)
      | _ \<Rightarrow> None)"

lemma root_no_prev:
  assumes "index_ok st" "st p = Some b" "nHeight b = 0"
  shows "pprev b = None"
proof (cases "pprev b")
  case (Some q)
  with index_okD(2) [OF assms(1,2)] obtain c where "st q = Some c" "nHeight b = nHeight c + 1" by auto
  moreover from this(1) have "0 \<le> nHeight c" by (rule index_okD(1) [OF assms(1)])
  ultimately show ?thesis using assms(3) by simp
qed

lemma ancestor_self: "index_ok st \<Longrightarrow> st p = Some b \<Longrightarrow> ancestor st p (nHeight b) = Some p"
  using index_okD(1) [of st p b] by (simp add: ancestor_def)

text \<open>Both loops look for the highest height at which a condition on the ancestors holds.\<close>

definition highest :: "(int \<Rightarrow> bool) \<Rightarrow> int \<Rightarrow> (int \<Rightarrow> uint256 option) \<Rightarrow> uint256 option \<Rightarrow> bool" where
  "highest P hi f r \<longleftrightarrow>
     (case r of None \<Rightarrow> (\<forall>h. 0 \<le> h \<and> h \<le> hi \<longrightarrow> \<not> P h)
      | Some q \<Rightarrow> (\<exists>h. 0 \<le> h \<and> h \<le> hi \<and> f h = Some q \<and> P h \<and> (\<forall>g. h < g \<and> g \<le> hi \<longrightarrow> \<not> P g)))"

lemma highest_extend:
  assumes "highest P g f r" "g \<le> hi" "\<And>h. g < h \<Longrightarrow> h \<le> hi \<Longrightarrow> \<not> P h"
  shows "highest P hi f r"
proof (cases r)
  case None
  with assms show ?thesis by (simp add: highest_def) (metis linorder_not_le)
next
  case (Some q)
  with assms(1) obtain h where "0 \<le> h" "h \<le> g" "f h = Some q" "P h" "\<forall>k. h < k \<and> k \<le> g \<longrightarrow> \<not> P k"
    by (auto simp: highest_def)
  with Some assms(2,3) show ?thesis by (auto simp: highest_def) (metis linorder_not_le order_trans)
qed

lemma highest_cong:
  "highest P hi f r \<Longrightarrow> (\<And>h. 0 \<le> h \<Longrightarrow> h \<le> hi \<Longrightarrow> P h \<longleftrightarrow> Q h) \<Longrightarrow> (\<And>h. 0 \<le> h \<Longrightarrow> h \<le> hi \<Longrightarrow> f h = g h) \<Longrightarrow>
   highest Q hi g r"
proof (cases r)
  case (Some q)
  assume "highest P hi f r" and P: "\<And>h. 0 \<le> h \<Longrightarrow> h \<le> hi \<Longrightarrow> P h \<longleftrightarrow> Q h" and f: "\<And>h. 0 \<le> h \<Longrightarrow> h \<le> hi \<Longrightarrow> f h = g h"
  with Some obtain h where "0 \<le> h" "h \<le> hi" "f h = Some q" "P h" "\<forall>k. h < k \<and> k \<le> hi \<longrightarrow> \<not> P k"
    by (auto simp: highest_def)
  with Some P f show ?thesis by (auto simp: highest_def intro!: exI [of _ h])
qed (simp add: highest_def)

lemma fork_loop_highest:
  assumes "index_ok st" "st q = Some d" "nat (nHeight d) + 1 < fuel"
  shows "\<exists>r. fork_loop st c fuel (Some q) = Some r \<and>
    highest (\<lambda>h. \<exists>a. ancestor st q h = Some a \<and> Contains st c a) (nHeight d) (ancestor st q) r"
  using assms(2,3)
proof (induction fuel arbitrary: q d)
  case (Suc fuel)
  note self = ancestor_self [OF assms(1) Suc.prems(1)]
  have d0: "0 \<le> nHeight d" by (rule index_okD(1) [OF assms(1) Suc.prems(1)])
  show ?case
  proof (cases "Contains st c q")
    case True
    with self d0 show ?thesis by (auto simp: highest_def)
  next
    case False
    show ?thesis
    proof (cases "pprev d")
      case None
      then have "nHeight d = 0" using index_okD(3) [OF assms(1) Suc.prems(1)] d0 by force
      with None False Suc.prems self show ?thesis by (cases fuel) (auto simp: highest_def dest: antisym)
    next
      case (Some q')
      obtain e where e: "st q' = Some e" "nHeight d = nHeight e + 1" using index_okD(2) [OF assms(1) Suc.prems(1) Some] by auto
      have "0 \<le> nHeight e" by (rule index_okD(1) [OF assms(1) e(1)])
      then have "nat (nHeight e) + 1 < fuel" using Suc.prems(2) e(2) by linarith
      then obtain r where r: "fork_loop st c fuel (Some q') = Some r"
          "highest (\<lambda>h. \<exists>a. ancestor st q' h = Some a \<and> Contains st c a) (nHeight e) (ancestor st q') r"
        using Suc.IH [OF e(1)] by auto
      have "ancestor st q' h = ancestor st q h" if "0 \<le> h" "h \<le> nHeight e" for h
        using ancestor_trans [OF assms(1) Suc.prems(1) ancestor_pprev [OF assms(1) Suc.prems(1) Some]] that e(2) by simp
      with r(2) have "highest (\<lambda>h. \<exists>a. ancestor st q h = Some a \<and> Contains st c a) (nHeight e) (ancestor st q) r"
        by (elim highest_cong) auto
      then have "highest (\<lambda>h. \<exists>a. ancestor st q h = Some a \<and> Contains st c a) (nHeight d) (ancestor st q) r"
        by (rule highest_extend) (use e(2) self False in \<open>auto dest: antisym\<close>)
      with r(1) False Some Suc.prems(1) show ?thesis by simp
    qed
  qed
qed simp

text \<open>
  C25. \<open>FindFork\<close> returns the last common block: for every known block it terminates and gives
  the highest ancestor that is in the active chain, or a null pointer when none is.
\<close>

theorem FindFork_highest:
  assumes "node_chain st c" "st p = Some b"
  shows "\<exists>r. FindFork st c p = Some r \<and>
    highest (\<lambda>h. \<exists>a. ancestor st p h = Some a \<and> Contains st c a) (nHeight b) (ancestor st p) r"
proof -
  let ?P = "\<lambda>h. \<exists>a. ancestor st p h = Some a \<and> Contains st c a"
  have ok: "index_ok st" using node_chain_ok [OF assms(1)] by blast
  have b0: "0 \<le> nHeight b" by (rule index_okD(1) [OF ok assms(2)])
  have out: "\<not> ?P h" if "Height c < h" "h \<le> nHeight b" for h
  proof
    assume "?P h"
    then obtain a where a: "ancestor st p h = Some a" "Contains st c a" by blast
    have "0 \<le> h" using that(1) by (simp add: Height_def)
    from ancestor_Some [OF ok assms(2) this that(2)] a(1) obtain d where "st a = Some d" "nHeight d = h" by auto
    with a(2) that(1) show False by (auto simp: Contains_def chain_at_def Height_def split: if_splits)
  qed
  show ?thesis
  proof (cases "nHeight b > Height c")
    case False
    with fork_loop_highest [OF ok assms(2), of "nat (nHeight b) + 2" c] assms(2) show ?thesis by (simp add: FindFork_def)
  next
    case True
    show ?thesis
    proof (cases "Height c < 0")
      case neg: True
      then have "GetAncestor st p (Height c) = None" by (simp add: GetAncestor_def assms(2))
      moreover have "\<forall>h. 0 \<le> h \<and> h \<le> nHeight b \<longrightarrow> \<not> ?P h" using out neg by (metis less_le_trans)
      ultimately show ?thesis using True assms(2) by (simp add: FindFork_def highest_def)
    next
      case False
      then obtain q d where q: "ancestor st p (Height c) = Some q" "st q = Some d" "nHeight d = Height c"
        using ancestor_Some [OF ok assms(2), of "Height c"] True by auto
      have "nat (nHeight d) + 1 < nat (nHeight b) + 2" using True False q(3) by linarith
      from fork_loop_highest [OF ok q(2) this] obtain r where
        r: "fork_loop st c (nat (nHeight b) + 2) (Some q) = Some r"
          "highest (\<lambda>h. \<exists>a. ancestor st q h = Some a \<and> Contains st c a) (nHeight d) (ancestor st q) r" by blast
      have "ancestor st q h = ancestor st p h" if "0 \<le> h" "h \<le> nHeight d" for h
        using ancestor_trans [OF ok assms(2) q(1)] that q(3) by simp
      with r(2) have "highest ?P (nHeight d) (ancestor st p) r" by (elim highest_cong) auto
      then have "highest ?P (nHeight b) (ancestor st p) r"
        by (rule highest_extend) (use True q(3) out in auto)
      with r(1) True q(1) assms(2) show ?thesis by (simp add: FindFork_def GetAncestor_eq [OF ok])
    qed
  qed
qed

lemma common_loop_highest:
  assumes "index_ok st" "st a = Some x" "st b = Some y" "nHeight x = nHeight y" "nat (nHeight x) + 1 < fuel"
  shows "\<exists>r. common_loop st fuel (Some a) (Some b) = Some r \<and>
    highest (\<lambda>h. ancestor st a h = ancestor st b h) (nHeight x) (ancestor st a) r"
  using assms(2-5)
proof (induction fuel arbitrary: a b x y)
  case (Suc fuel)
  have x0: "0 \<le> nHeight x" by (rule index_okD(1) [OF assms(1) Suc.prems(1)])
  note self = ancestor_self [OF assms(1) Suc.prems(1)] ancestor_self [OF assms(1) Suc.prems(2)]
  show ?case
  proof (cases "a = b")
    case True
    with self x0 show ?thesis by (auto simp: highest_def)
  next
    case False
    show ?thesis
    proof (cases "nHeight x = 0")
      case True
      then have "pprev x = None" "pprev y = None"
        using root_no_prev [OF assms(1)] Suc.prems(1-3) by simp_all
      with True False Suc.prems self show ?thesis by (cases fuel) (auto simp: highest_def dest: antisym)
    next
      case nz: False
      obtain a' x' where a': "pprev x = Some a'" "st a' = Some x'" "nHeight x = nHeight x' + 1"
        using index_okD(2,3) [OF assms(1) Suc.prems(1)] x0 nz by fastforce
      obtain b' y' where b': "pprev y = Some b'" "st b' = Some y'" "nHeight y = nHeight y' + 1"
        using index_okD(2,3) [OF assms(1) Suc.prems(2)] x0 nz Suc.prems(3) by fastforce
      have "0 \<le> nHeight x'" by (rule index_okD(1) [OF assms(1) a'(2)])
      then have "nat (nHeight x') + 1 < fuel" "nHeight x' = nHeight y'"
        using Suc.prems(3,4) a'(3) b'(3) by linarith+
      then obtain r where r: "common_loop st fuel (Some a') (Some b') = Some r"
          "highest (\<lambda>h. ancestor st a' h = ancestor st b' h) (nHeight x') (ancestor st a') r"
        using Suc.IH [OF a'(2) b'(2)] by auto
      have "ancestor st a' h = ancestor st a h" "ancestor st b' h = ancestor st b h" if "0 \<le> h" "h \<le> nHeight x'" for h
        using ancestor_trans [OF assms(1) Suc.prems(1) ancestor_pprev [OF assms(1) Suc.prems(1) a'(1)]]
          ancestor_trans [OF assms(1) Suc.prems(2) ancestor_pprev [OF assms(1) Suc.prems(2) b'(1)]] that a'(3) b'(3) Suc.prems(3)
        by simp_all
      with r(2) have "highest (\<lambda>h. ancestor st a h = ancestor st b h) (nHeight x') (ancestor st a) r"
        by (elim highest_cong) auto
      then have "highest (\<lambda>h. ancestor st a h = ancestor st b h) (nHeight x) (ancestor st a) r"
        by (rule highest_extend) (use a'(3) self False Suc.prems(3) in \<open>auto dest: antisym\<close>)
      with r(1) False a' b' Suc.prems(1,2) show ?thesis by simp
    qed
  qed
qed simp

text \<open>
  C26. \<open>FindLastCommonAncestorBlockIndex\<close> finds the last common ancestor of any two blocks of the
  index: the loop ends, the final assertion holds, and the result is the highest block that is an
  ancestor of both, or null when the two belong to different roots.
\<close>

theorem FindLastCommonAncestor_highest:
  assumes "indexed st" "st pa = Some a" "st pb = Some b"
  shows "\<exists>r. FindLastCommonAncestorBlockIndex st pa pb = Some r \<and>
    highest (\<lambda>h. ancestor st pa h = ancestor st pb h) (min (nHeight a) (nHeight b)) (ancestor st pa) r"
proof -
  have ok: "index_ok st" by (rule indexed_ok [OF assms(1)])
  let ?m = "min (nHeight a) (nHeight b)"
  have m0: "0 \<le> ?m" using index_okD(1) [OF ok] assms(2,3) by simp
  obtain qa x where qa: "ancestor st pa ?m = Some qa" "st qa = Some x" "nHeight x = ?m"
    using ancestor_Some [OF ok assms(2) m0] by auto
  obtain qb y where qb: "ancestor st pb ?m = Some qb" "st qb = Some y" "nHeight y = ?m"
    using ancestor_Some [OF ok assms(3) m0] by auto
  obtain r where r: "common_loop st (nat ?m + 2) (Some qa) (Some qb) = Some r"
      "highest (\<lambda>h. ancestor st qa h = ancestor st qb h) (nHeight x) (ancestor st qa) r"
    using common_loop_highest [OF ok qa(2) qb(2), of "nat ?m + 2"] qa(3) qb(3) by auto
  have "ancestor st qa h = ancestor st pa h" "ancestor st qb h = ancestor st pb h" if "0 \<le> h" "h \<le> ?m" for h
    using ancestor_trans [OF ok assms(2) qa(1)] ancestor_trans [OF ok assms(3) qb(1)] that by simp_all
  with r(2) have h: "highest (\<lambda>h. ancestor st pa h = ancestor st pb h) ?m (ancestor st pa) r"
    unfolding qa(3) by (elim highest_cong) auto
  have "(if nHeight a > nHeight b then GetAncestor st pa (nHeight b) else Some pa) = Some qa"
    using qa(1) ancestor_self [OF ok assms(2)] by (auto simp: GetAncestor_eq [OF ok] min_def split: if_splits)
  moreover have "(if \<not> nHeight a > nHeight b \<and> nHeight b > nHeight a then GetAncestor st pb (nHeight a) else Some pb) = Some qb"
    using qb(1) ancestor_self [OF ok assms(3)] by (auto simp: GetAncestor_eq [OF ok] min_def split: if_splits)
  ultimately show ?thesis using r(1) h assms(2,3) by (simp add: FindLastCommonAncestorBlockIndex_def Let_def)
qed

section \<open>Locators\<close>

text \<open>The block hash is the pointer itself.\<close>

fun locator_loop ::
  "block_map \<Rightarrow> CChain \<Rightarrow> nat \<Rightarrow> uint256 option \<Rightarrow> int \<Rightarrow> uint256 list \<Rightarrow> uint256 list option" where
  "locator_loop st c 0 pindex nStep vHave = None"
| "locator_loop st c (Suc fuel) pindex nStep vHave =
     (case pindex of None \<Rightarrow> Some vHave
      | Some q \<Rightarrow>
         (case st q of None \<Rightarrow> None
          | Some b \<Rightarrow>
              let vHave = vHave @ [q]
              in if nHeight b = 0 then Some vHave
                 else let h = max (nHeight b - nStep) 0;
                          pindex = (if Contains st c q then chain_at c h else GetAncestor st q h)
                      in locator_loop st c fuel pindex (if length vHave > 10 then nStep * 2 else nStep) vHave))"

definition GetLocator :: "block_map \<Rightarrow> CChain \<Rightarrow> uint256 option \<Rightarrow> uint256 list option" where
  "GetLocator st c pindex =
     (let pindex = (case pindex of None \<Rightarrow> Tip c | Some q \<Rightarrow> Some q)
      in locator_loop st c
           (case Option.bind pindex st of None \<Rightarrow> 1 | Some b \<Rightarrow> nat (nHeight b) + 1) pindex 1 [])"

lemma chain_at_ancestor:
  assumes "index_ok st" "chain_ok st c" "Contains st c q" "st q = Some b" "0 \<le> h" "h \<le> nHeight b"
  shows "chain_at c h = ancestor st q h"
proof -
  have q: "chain_at c (nHeight b) = Some q" using assms(3,4) by (simp add: Contains_def)
  then obtain r rb where r: "st r = Some rb" "vChain c = path_to st r rb"
    using assms(2) by (auto simp: chain_ok_def chain_at_def split: if_splits)
  have at: "chain_at c g = ancestor st r g" for g
    using r index_okD(1) [OF assms(1) r(1)] by (auto simp: chain_at_def path_to_nth ancestor_def)
  show ?thesis using ancestor_trans [OF assms(1) r(1) q [unfolded at] assms(5,6)] by (simp add: at)
qed

text \<open>A locator descends from a block to the first one of its branch.\<close>

definition descends :: "block_map \<Rightarrow> uint256 \<Rightarrow> uint256 list \<Rightarrow> bool" where
  "descends st p v \<longleftrightarrow>
     v \<noteq> [] \<and> hd v = p \<and> (\<forall>q \<in> set v. \<exists>h. ancestor st p h = Some q) \<and>
     sorted_wrt (\<lambda>x y. nHeight (the (st y)) < nHeight (the (st x))) v \<and> nHeight (the (st (last v))) = 0"

lemma ancestor_height:
  assumes "index_ok st" "st p = Some b" "ancestor st p h = Some q"
  obtains c where "st q = Some c" "nHeight c = h" "0 \<le> h" "h \<le> nHeight b"
proof -
  have h: "0 \<le> h" "h \<le> nHeight b" using assms(2,3) by (auto simp: ancestor_def split: if_splits)
  obtain q' c where q': "ancestor st p h = Some q'" "st q' = Some c" "nHeight c = h"
    using ancestor_Some [OF assms(1,2) h] by blast
  have "q' = q" using q'(1) assms(3) by simp
  with q' h that show thesis by blast
qed

lemma descends_Cons:
  assumes "index_ok st" "st p = Some b" "ancestor st p h = Some q" "h < nHeight b" "descends st q v"
  shows "descends st p (p # v)"
proof -
  obtain c where c: "st q = Some c" "nHeight c = h" by (rule ancestor_height [OF assms(1-3)])
  have below: "nHeight (the (st x)) < nHeight b \<and> (\<exists>g. ancestor st p g = Some x)" if "x \<in> set v" for x
  proof -
    obtain g where g: "ancestor st q g = Some x" using assms(5) \<open>x \<in> set v\<close> unfolding descends_def by blast
    obtain d where d: "st x = Some d" "nHeight d = g" "0 \<le> g" "g \<le> nHeight c"
      by (rule ancestor_height [OF assms(1) c(1) g])
    have "ancestor st p g = Some x" using ancestor_trans [OF assms(1-3) d(3)] d(4) c(2) g by simp
    with d c(2) assms(4) show ?thesis by auto
  qed
  have "\<exists>g. ancestor st p g = Some x" if "x \<in> set (p # v)" for x
    using that below [of x] ancestor_self [OF assms(1,2)] by (cases "x = p") auto
  then show ?thesis
    using assms(5) below unfolding descends_def by (simp add: assms(2))
qed

lemma locator_loop_descends:
  assumes "index_ok st" "chain_ok st c" "st q = Some b" "nat (nHeight b) < fuel" "1 \<le> nStep"
  shows "\<exists>v. locator_loop st c fuel (Some q) nStep vHave = Some (vHave @ v) \<and> descends st q v"
  using assms(3-5)
proof (induction fuel arbitrary: q b nStep vHave)
  case (Suc fuel)
  have b0: "0 \<le> nHeight b" by (rule index_okD(1) [OF assms(1) Suc.prems(1)])
  show ?case
  proof (cases "nHeight b = 0")
    case True
    with Suc.prems(1) ancestor_self [OF assms(1) Suc.prems(1)] show ?thesis
      by (intro exI [of _ "[q]"]) (auto simp: descends_def)
  next
    case False
    define h where "h = max (nHeight b - nStep) 0"
    have h: "0 \<le> h" "h < nHeight b" using False b0 Suc.prems(3) by (auto simp: h_def)
    obtain q' c' where q': "ancestor st q h = Some q'" "st q' = Some c'" "nHeight c' = h"
      using ancestor_Some [OF assms(1) Suc.prems(1), of h] h by auto
    have nxt: "(if Contains st c q then chain_at c h else GetAncestor st q h) = Some q'"
      using q'(1) chain_at_ancestor [OF assms(1,2) _ Suc.prems(1), of h] h by (simp add: GetAncestor_eq [OF assms(1)])
    let ?s = "if length (vHave @ [q]) > 10 then nStep * 2 else nStep"
    have "nat (nHeight c') < fuel" "1 \<le> ?s" using Suc.prems(2,3) h q'(3) by (linarith, simp)
    then obtain v where v: "locator_loop st c fuel (Some q') ?s (vHave @ [q]) = Some ((vHave @ [q]) @ v)" "descends st q' v"
      using Suc.IH [OF q'(2)] by blast
    have "locator_loop st c (Suc fuel) (Some q) nStep vHave = locator_loop st c fuel (Some q') ?s (vHave @ [q])"
      using False Suc.prems(1) nxt by (cases "Contains st c q") (simp_all add: h_def Let_def)
    with v descends_Cons [OF assms(1) Suc.prems(1) q'(1) h(2) v(2)] show ?thesis by auto
  qed
qed simp

text \<open>
  C28. The locator of a known block is complete: it starts at the block, every entry is an ancestor
  of the block, heights strictly decrease, and it ends with the first block of the chain, so that
  two nodes on the same chain always find a common entry.
\<close>

theorem GetLocator_descends:
  assumes "node_chain st c" "st p = Some b"
  shows "\<exists>v. GetLocator st c (Some p) = Some v \<and> descends st p v"
proof -
  have ok: "index_ok st" "chain_ok st c" using node_chain_ok [OF assms(1)] by auto
  from locator_loop_descends [OF ok assms(2), of "nat (nHeight b) + 1" 1 "[]"] show ?thesis
    by (auto simp: GetLocator_def assms(2))
qed

section \<open>Median time and previous hashes\<close>

definition nMedianTimeSpan :: nat where "nMedianTimeSpan = 11"

fun times_back :: "block_map \<Rightarrow> nat \<Rightarrow> uint256 option \<Rightarrow> int list option" where
  "times_back st 0 pindex = Some []"
| "times_back st (Suc k) None = Some []"
| "times_back st (Suc k) (Some q) =
     (case st q of None \<Rightarrow> None
      | Some b \<Rightarrow> map_option (Cons (uint (bi_nTime b))) (times_back st k (pprev b)))"

definition GetMedianTimePast :: "block_map \<Rightarrow> uint256 \<Rightarrow> int option" where
  "GetMedianTimePast st p =
     map_option (\<lambda>ts. sort ts ! (length ts div 2)) (times_back st nMedianTimeSpan (Some p))"

fun hashes_back :: "block_map \<Rightarrow> nat \<Rightarrow> u32 \<Rightarrow> uint256 option \<Rightarrow> uint256 list option" where
  "hashes_back st 0 nMinHeight pindex = None"
| "hashes_back st (Suc fuel) nMinHeight pindex =
     (case pindex of None \<Rightarrow> Some []
      | Some q \<Rightarrow>
         (case st q of None \<Rightarrow> None
          | Some b \<Rightarrow> if of_int (nHeight b) > nMinHeight
                      then map_option (Cons q) (hashes_back st fuel nMinHeight (pprev b))
                      else Some []))"

definition GetPrevBlockHashes :: "block_map \<Rightarrow> uint256 \<Rightarrow> u32 \<Rightarrow> uint256 list option" where
  "GetPrevBlockHashes st p nMinHeight =
     (case st p of None \<Rightarrow> None
      | Some b \<Rightarrow> if of_int (nHeight b) \<le> nMinHeight then Some []
                  else hashes_back st (nat (nHeight b) + 2) nMinHeight (Some p))"

lemma times_back_total:
  assumes "index_ok st" "st p = Some b"
  shows "\<exists>ts. times_back st (Suc k) (Some p) = Some (uint (bi_nTime b) # ts) \<and> length ts \<le> k"
  using assms(2)
proof (induction k arbitrary: p b)
  case (Suc k)
  show ?case
  proof (cases "pprev b")
    case (Some q)
    with index_okD(2) [OF assms(1) Suc.prems] obtain c where "st q = Some c" by auto
    from Suc.IH [OF this] Some Suc.prems show ?thesis by auto
  qed (use Suc.prems in simp)
qed simp

lemma GetMedianTimePast_total:
  assumes "index_ok st" "st p = Some b"
  shows "\<exists>ts t. times_back st nMedianTimeSpan (Some p) = Some ts \<and> GetMedianTimePast st p = Some t \<and> t \<in> set ts"
proof -
  obtain ts where ts: "times_back st nMedianTimeSpan (Some p) = Some ts" "ts \<noteq> []"
    using times_back_total [OF assms, of 10] by (auto simp: nMedianTimeSpan_def eval_nat_numeral)
  then have "length ts div 2 < length (sort ts)" by (simp add: div_less_dividend)
  then have "sort ts ! (length ts div 2) \<in> set (sort ts)" by (rule nth_mem)
  with ts show ?thesis by (simp add: GetMedianTimePast_def)
qed

section \<open>Instances\<close>

text \<open>A chain of five blocks with a fork after the second.\<close>

definition sample_index :: block_map where
  "sample_index = AddToBlockIndex 13 2 60 (AddToBlockIndex 5 4 50 (AddToBlockIndex 4 3 40
     (AddToBlockIndex 3 2 30 (AddToBlockIndex 2 1 20 (AddToBlockIndex 1 0 10 Map.empty)))))"

definition sample_chain :: CChain where
  "sample_chain = \<lparr>vChain = [Some 1, Some 2, Some 3, Some 4, Some 5], gl_nChainHeight = 4\<rparr>"

lemma sample_indexed: "indexed sample_index"
  unfolding sample_index_def by (intro indexed.intros)

lemma sample_node_chain: "node_chain sample_index sample_chain"
proof -
  have "node_chain sample_index CChain_new"
    unfolding sample_index_def by (intro node_chain.header node_chain.start)
  moreover have "SetTip sample_index (Some 5) CChain_new = Some sample_chain" by code_simp
  moreover have "sample_index 5 \<noteq> None" by code_simp
  ultimately show ?thesis using node_chain.tip by blast
qed

lemma sample_entries:
  "nHeight (the (sample_index 5)) = 4" "nHeight (the (sample_index 13)) = 2"
  "\<exists>b. sample_index 5 = Some b" "\<exists>b. sample_index 13 = Some b"
proof -
  show "nHeight (the (sample_index 5)) = 4" "nHeight (the (sample_index 13)) = 2" by code_simp+
  have "sample_index 5 \<noteq> None" "sample_index 13 \<noteq> None" by code_simp+
  then show "\<exists>b. sample_index 5 = Some b" "\<exists>b. sample_index 13 = Some b" by auto
qed

theorem GetAncestor_skip_list_witness:
  "indexed sample_index \<and> GetAncestor sample_index 5 1 = Some 2 \<and> ancestor sample_index 5 1 = Some 2"
proof -
  have "GetAncestor sample_index 5 1 = Some 2" by code_simp
  with GetAncestor_skip_list [OF sample_indexed, of 5 1] sample_indexed show ?thesis by simp
qed

theorem SetTip_reorganizes_witness:
  "\<exists>c'. SetTip sample_index (Some 13) sample_chain = Some c' \<and> Tip c' = Some 13 \<and> \<not> Contains sample_index c' 3"
proof -
  obtain b where b: "sample_index 13 = Some b" using sample_entries by blast
  from SetTip_reorganizes [OF sample_node_chain b] obtain c' where
    c': "SetTip sample_index (Some 13) sample_chain = Some c'" "Tip c' = Some 13" by blast
  have "\<not> Contains sample_index (the (SetTip sample_index (Some 13) sample_chain)) 3" by code_simp
  with c' show ?thesis by simp
qed

theorem FindFork_highest_witness:
  "FindFork sample_index sample_chain 13 = Some (Some 2)
   \<and> highest (\<lambda>h. \<exists>a. ancestor sample_index 13 h = Some a \<and> Contains sample_index sample_chain a) 2
       (ancestor sample_index 13) (Some 2)"
proof -
  obtain b where b: "sample_index 13 = Some b" using sample_entries by blast
  have f: "FindFork sample_index sample_chain 13 = Some (Some 2)" by code_simp
  from FindFork_highest [OF sample_node_chain b] f b sample_entries(2) show ?thesis by simp
qed

theorem FindLastCommonAncestor_highest_witness:
  "FindLastCommonAncestorBlockIndex sample_index 5 13 = Some (Some 2)
   \<and> highest (\<lambda>h. ancestor sample_index 5 h = ancestor sample_index 13 h) 2 (ancestor sample_index 5) (Some 2)"
proof -
  obtain a b where b: "sample_index 5 = Some a" "sample_index 13 = Some b" using sample_entries by blast
  have f: "FindLastCommonAncestorBlockIndex sample_index 5 13 = Some (Some 2)" by code_simp
  from FindLastCommonAncestor_highest [OF sample_indexed b] f b sample_entries(1,2) show ?thesis by simp
qed

theorem GetLocator_descends_witness:
  "GetLocator sample_index sample_chain (Some 13) = Some [13, 2, 1] \<and> descends sample_index 13 [13, 2, 1]"
proof -
  obtain b where b: "sample_index 13 = Some b" using sample_entries by blast
  have f: "GetLocator sample_index sample_chain (Some 13) = Some [13, 2, 1]" by code_simp
  from GetLocator_descends [OF sample_node_chain b] f show ?thesis by simp
qed

end
