(* ===== verification/TicketDB.thy ===== *)
theory TicketDB
  imports TicketTypes Chain
begin

text \<open>
  The ticket databases of \<open>mnode/ticket-processor.cpp\<close>: one key-value store per ticket kind
  (\<open>CDBWrapper\<close>), in which a ticket is stored under its primary key, a prefixed secondary key
  leads to the primary key, and each of up to three prefixed auxiliary keys leads to the list of
  the primary keys of all tickets that share it. A stored value is tagged with the type it was
  written with; reading it as another type fails like a failed unserialization.
\<close>

section \<open>The key-value store\<close>

type_synonym ('k, 'v) db = "'k \<rightharpoonup> 'v"

definition db_get :: "('k, 'v) db \<Rightarrow> 'k \<Rightarrow> 'v option" where
  "db_get db key = db key"

definition db_Exists :: "('k, 'v) db \<Rightarrow> 'k \<Rightarrow> bool" where
  "db_Exists db key \<longleftrightarrow> db key \<noteq> None"

definition db_Write :: "'k \<Rightarrow> 'v \<Rightarrow> ('k, 'v) db \<Rightarrow> ('k, 'v) db" where
  "db_Write key value db = db(key \<mapsto> value)"

definition db_Erase :: "'k \<Rightarrow> ('k, 'v) db \<Rightarrow> ('k, 'v) db" where
  "db_Erase key db = db(key := None)"

interpretation kv: key_value db_get db_Write db_Erase
  by unfold_locales (auto simp: db_get_def db_Write_def db_Erase_def)

section \<open>Tickets and their keys\<close>

record CPastelTicket =
  tk_ID :: TicketID
  m_txid :: string
  m_nBlock :: u32
  KeyOne :: string
  KeyTwo :: "string option"
  MVKeyOne :: "string option"
  MVKeyTwo :: "string option"
  MVKeyThree :: "string option"
  tk_data :: bytes

definition TICKET_KEYTWO_PREFIX :: string where "TICKET_KEYTWO_PREFIX = ''@2@''"
definition TICKET_MVKEY_PREFIX :: string where "TICKET_MVKEY_PREFIX = ''@M@''"

definition RealKeyTwo :: "string \<Rightarrow> string" where "RealKeyTwo key = TICKET_KEYTWO_PREFIX @ key"
definition RealMVKey :: "string \<Rightarrow> string" where "RealMVKey key = TICKET_MVKEY_PREFIX @ key"

datatype db_value = VTicket CPastelTicket | VKey string | VKeys "string list"

type_synonym ticket_db = "(string, db_value) db"
type_synonym ticket_dbs = "TicketID \<rightharpoonup> ticket_db"

definition Read_ticket :: "ticket_db \<Rightarrow> string \<Rightarrow> CPastelTicket option" where
  "Read_ticket db key = (case db_get db key of Some (VTicket t) \<Rightarrow> Some t | _ \<Rightarrow> None)"

definition Read_key :: "ticket_db \<Rightarrow> string \<Rightarrow> string option" where
  "Read_key db key = (case db_get db key of Some (VKey k) \<Rightarrow> Some k | _ \<Rightarrow> None)"

definition Read_keys :: "ticket_db \<Rightarrow> string \<Rightarrow> string list option" where
  "Read_keys db key = (case db_get db key of Some (VKeys ks) \<Rightarrow> Some ks | _ \<Rightarrow> None)"

definition InitTicketDB :: ticket_dbs where
  "InitTicketDB = (\<lambda>_. Some Map.empty)"

section \<open>Updating\<close>

definition UpdateDB_MVK :: "CPastelTicket \<Rightarrow> string \<Rightarrow> ticket_dbs \<Rightarrow> ticket_dbs" where
  "UpdateDB_MVK ticket mvKey dbs =
     (let realMVKey = RealMVKey mvKey in
      case dbs (tk_ID ticket) of None \<Rightarrow> dbs
      | Some db \<Rightarrow>
          let mainKeys = (case Read_keys db realMVKey of None \<Rightarrow> [] | Some ks \<Rightarrow> ks)
          in if KeyOne ticket \<in> set mainKeys then dbs
             else dbs(tk_ID ticket \<mapsto> db_Write realMVKey (VKeys (mainKeys @ [KeyOne ticket])) db))"

definition UpdateDB_MVK_opt :: "CPastelTicket \<Rightarrow> string option \<Rightarrow> ticket_dbs \<Rightarrow> ticket_dbs" where
  "UpdateDB_MVK_opt ticket mvKey dbs = (case mvKey of None \<Rightarrow> dbs | Some k \<Rightarrow> UpdateDB_MVK ticket k dbs)"

definition stamped :: "string \<Rightarrow> u32 \<Rightarrow> CPastelTicket \<Rightarrow> CPastelTicket" where
  "stamped txid nBlockHeight ticket =
     (let ticket = (if txid \<noteq> [] then ticket\<lparr>m_txid := txid\<rparr> else ticket)
      in if nBlockHeight \<noteq> 0 then ticket\<lparr>m_nBlock := nBlockHeight\<rparr> else ticket)"

definition UpdateDB :: "CPastelTicket \<Rightarrow> string \<Rightarrow> u32 \<Rightarrow> ticket_dbs \<Rightarrow> (ticket_dbs \<times> CPastelTicket) option" where
  "UpdateDB ticket txid nBlockHeight dbs =
     (let ticket = stamped txid nBlockHeight ticket in
      case dbs (tk_ID ticket) of None \<Rightarrow> None
      | Some db \<Rightarrow>
          let db = db_Write (KeyOne ticket) (VTicket ticket) db;
              db = (case KeyTwo ticket of None \<Rightarrow> db
                    | Some k \<Rightarrow> db_Write (RealKeyTwo k) (VKey (KeyOne ticket)) db);
              dbs = dbs(tk_ID ticket \<mapsto> db);
              dbs = UpdateDB_MVK_opt ticket (MVKeyOne ticket) dbs;
              dbs = UpdateDB_MVK_opt ticket (MVKeyTwo ticket) dbs;
              dbs = UpdateDB_MVK_opt ticket (MVKeyThree ticket) dbs
          in Some (dbs, ticket))"

definition EraseTicketFromDB :: "CPastelTicket \<Rightarrow> ticket_dbs \<Rightarrow> ticket_dbs \<times> bool" where
  "EraseTicketFromDB ticket dbs =
     (case dbs (tk_ID ticket) of None \<Rightarrow> (dbs, False)
      | Some db \<Rightarrow> (dbs(tk_ID ticket \<mapsto> db_Erase (KeyOne ticket) db), True))"

section \<open>Looking tickets up\<close>

text \<open>
  What a look-up sees of the chain: the block index, the active chain with the global height, and
  the block the search is made from, if any. Heights are converted to \<open>int\<close>.
\<close>

record chain_context =
  ctx_index :: block_map
  ctx_chain :: CChain
  pindexPrev :: "uint256 option"

definition same_branch :: "chain_context \<Rightarrow> uint256 \<Rightarrow> u32 \<Rightarrow> bool" where
  "same_branch x prev h \<longleftrightarrow> GetAncestor (ctx_index x) prev (sint h) = chain_at (ctx_chain x) (sint h)"

definition IsBlockNewerThan :: "CPastelTicket \<Rightarrow> u32 \<Rightarrow> bool" where
  "IsBlockNewerThan t h \<longleftrightarrow> m_nBlock t > h"

definition CheckTicketExist :: "chain_context \<Rightarrow> ticket_dbs \<Rightarrow> CPastelTicket \<Rightarrow> bool" where
  "CheckTicketExist x dbs ticket =
     (case dbs (tk_ID ticket) of None \<Rightarrow> False
      | Some db \<Rightarrow>
          if \<not> db_Exists db (KeyOne ticket) then False
          else case pindexPrev x of None \<Rightarrow> True
          | Some prev \<Rightarrow>
             (case Read_ticket db (KeyOne ticket) of None \<Rightarrow> False
              | Some existing \<Rightarrow>
                  if m_nBlock existing = UINT32_MAX then False
                  else if m_nBlock existing > gl_nChainHeight (ctx_chain x) then False
                  else same_branch x prev (m_nBlock existing)))"

definition CheckTicketExistBySecondaryKey :: "chain_context \<Rightarrow> ticket_dbs \<Rightarrow> CPastelTicket \<Rightarrow> bool" where
  "CheckTicketExistBySecondaryKey x dbs ticket =
     (case KeyTwo ticket of None \<Rightarrow> False
      | Some k2 \<Rightarrow>
        (case dbs (tk_ID ticket) of None \<Rightarrow> False
         | Some db \<Rightarrow>
           (case Read_key db (RealKeyTwo k2) of None \<Rightarrow> False
            | Some mainKey \<Rightarrow>
                if \<not> db_Exists db mainKey then False
                else case pindexPrev x of None \<Rightarrow> True
                | Some prev \<Rightarrow>
                   (case Read_ticket db mainKey of None \<Rightarrow> False
                    | Some existing \<Rightarrow>
                        if m_nBlock existing = UINT32_MAX then False
                        else if m_nBlock existing > gl_nChainHeight (ctx_chain x) then False
                        else same_branch x prev (m_nBlock existing)))))"

text \<open>A ticket that was read is dropped when it is newer than the chain or on another branch.\<close>

definition visible :: "chain_context \<Rightarrow> CPastelTicket \<Rightarrow> bool" where
  "visible x t =
     (if IsBlockNewerThan t (gl_nChainHeight (ctx_chain x)) then False
      else case pindexPrev x of None \<Rightarrow> True
      | Some prev \<Rightarrow> if m_nBlock t = UINT32_MAX then False else same_branch x prev (m_nBlock t))"

definition FindTicket :: "chain_context \<Rightarrow> ticket_dbs \<Rightarrow> CPastelTicket \<Rightarrow> CPastelTicket option" where
  "FindTicket x dbs ticket =
     (case dbs (tk_ID ticket) of None \<Rightarrow> None
      | Some db \<Rightarrow>
         (case Read_ticket db (KeyOne ticket) of None \<Rightarrow> None
          | Some t \<Rightarrow> if visible x t then Some t else None))"

definition FindTicketBySecondaryKey :: "chain_context \<Rightarrow> ticket_dbs \<Rightarrow> CPastelTicket \<Rightarrow> CPastelTicket option" where
  "FindTicketBySecondaryKey x dbs ticket =
     (case KeyTwo ticket of None \<Rightarrow> None
      | Some k2 \<Rightarrow>
        (case dbs (tk_ID ticket) of None \<Rightarrow> None
         | Some db \<Rightarrow>
           (case Read_key db (RealKeyTwo k2) of None \<Rightarrow> None
            | Some mainKey \<Rightarrow>
              (case Read_ticket db mainKey of None \<Rightarrow> None
               | Some t \<Rightarrow> if visible x t then Some t else None))))"

definition getValueBySecondaryKey :: "ticket_dbs \<Rightarrow> CPastelTicket \<Rightarrow> string" where
  "getValueBySecondaryKey dbs ticket =
     (case KeyTwo ticket of None \<Rightarrow> []
      | Some k2 \<Rightarrow>
        (case dbs (tk_ID ticket) of None \<Rightarrow> []
         | Some db \<Rightarrow> (case Read_key db (RealKeyTwo k2) of None \<Rightarrow> [] | Some k \<Rightarrow> k)))"

definition read_visible :: "chain_context \<Rightarrow> ticket_db \<Rightarrow> string list \<Rightarrow> CPastelTicket list" where
  "read_visible x db keys = filter (visible x) (List.map_filter (Read_ticket db) keys)"

definition FindTicketsByMVKey :: "chain_context \<Rightarrow> ticket_dbs \<Rightarrow> TicketID \<Rightarrow> string \<Rightarrow> CPastelTicket list" where
  "FindTicketsByMVKey x dbs i mvKey =
     (case dbs i of None \<Rightarrow> []
      | Some db \<Rightarrow>
         (case Read_keys db (RealMVKey mvKey) of None \<Rightarrow> []
          | Some keys \<Rightarrow> read_visible x db keys))"

text \<open>The functor is called for one ticket after the other until it returns false.\<close>

fun process_until :: "('t \<Rightarrow> 's \<Rightarrow> bool \<times> 's) \<Rightarrow> 't list \<Rightarrow> 's \<Rightarrow> 's" where
  "process_until f [] s = s"
| "process_until f (t # ts) s = (case f t s of (go, s') \<Rightarrow> if go then process_until f ts s' else s')"

definition ProcessTicketsByMVKey ::
  "chain_context \<Rightarrow> ticket_dbs \<Rightarrow> TicketID \<Rightarrow> string \<Rightarrow> (CPastelTicket \<Rightarrow> 's \<Rightarrow> bool \<times> 's) \<Rightarrow> 's \<Rightarrow> 's" where
  "ProcessTicketsByMVKey x dbs i mvKey f s =
     (case dbs i of None \<Rightarrow> s
      | Some db \<Rightarrow>
          process_until f (read_visible x db (case Read_keys db (RealMVKey mvKey) of None \<Rightarrow> [] | Some ks \<Rightarrow> ks)) s)"

section \<open>Types and index of the databases\<close>

definition plain_key :: "string \<Rightarrow> bool" where
  "plain_key k \<longleftrightarrow> take 3 k \<noteq> TICKET_KEYTWO_PREFIX \<and> take 3 k \<noteq> TICKET_MVKEY_PREFIX"

definition mv_keys :: "CPastelTicket \<Rightarrow> string set" where
  "mv_keys t = set_option (MVKeyOne t) \<union> set_option (MVKeyTwo t) \<union> set_option (MVKeyThree t)"

text \<open>Every key holds a value of the type its form announces, under the right key.\<close>

definition db_typed :: "TicketID \<Rightarrow> ticket_db \<Rightarrow> bool" where
  "db_typed i db \<longleftrightarrow>
     (\<forall>k v. db k = Some v \<longrightarrow>
        (case v of VTicket t \<Rightarrow> plain_key k \<and> KeyOne t = k \<and> tk_ID t = i
         | VKey m \<Rightarrow> (\<exists>k2. k = RealKeyTwo k2) \<and> plain_key m
         | VKeys ks \<Rightarrow> (\<exists>mv. k = RealMVKey mv) \<and> distinct ks \<and> list_all plain_key ks))"

text \<open>Every stored ticket is listed under each of its auxiliary keys.\<close>

definition db_indexed :: "ticket_db \<Rightarrow> bool" where
  "db_indexed db \<longleftrightarrow>
     (\<forall>k t mv. db k = Some (VTicket t) \<longrightarrow> mv \<in> mv_keys t \<longrightarrow>
        (\<exists>ks. db (RealMVKey mv) = Some (VKeys ks) \<and> k \<in> set ks))"

definition dbs_ok :: "ticket_dbs \<Rightarrow> bool" where
  "dbs_ok dbs \<longleftrightarrow> (\<forall>i db. dbs i = Some db \<longrightarrow> db_typed i db \<and> db_indexed db)"

lemma real_keys [simp]:
  "RealKeyTwo a = RealKeyTwo b \<longleftrightarrow> a = b" "RealMVKey a = RealMVKey b \<longleftrightarrow> a = b"
  "RealKeyTwo a \<noteq> RealMVKey b" "RealMVKey b \<noteq> RealKeyTwo a"
  "\<not> plain_key (RealKeyTwo a)" "\<not> plain_key (RealMVKey a)"
  by (simp_all add: RealKeyTwo_def RealMVKey_def TICKET_KEYTWO_PREFIX_def TICKET_MVKEY_PREFIX_def plain_key_def)

lemma plain_not_real: "plain_key k \<Longrightarrow> k \<noteq> RealKeyTwo a \<and> k \<noteq> RealMVKey a"
  by auto

text \<open>One database at a time: adding a primary key to the list of an auxiliary key.\<close>

definition mv_add :: "string \<Rightarrow> string \<Rightarrow> ticket_db \<Rightarrow> ticket_db" where
  "mv_add m mv db =
     (let ks = (case Read_keys db (RealMVKey mv) of None \<Rightarrow> [] | Some ks \<Rightarrow> ks)
      in if m \<in> set ks then db else db(RealMVKey mv \<mapsto> VKeys (ks @ [m])))"

definition mv_list :: "CPastelTicket \<Rightarrow> string list" where
  "mv_list t = concat (map (case_option [] (\<lambda>k. [k])) [MVKeyOne t, MVKeyTwo t, MVKeyThree t])"

definition db_store :: "CPastelTicket \<Rightarrow> ticket_db \<Rightarrow> ticket_db" where
  "db_store t db =
     (let db = db(KeyOne t \<mapsto> VTicket t)
      in case KeyTwo t of None \<Rightarrow> db | Some k \<Rightarrow> db(RealKeyTwo k \<mapsto> VKey (KeyOne t)))"

lemma UpdateDB_MVK_opt_eq:
  "dbs (tk_ID t) = Some db \<Longrightarrow>
   UpdateDB_MVK_opt t mv dbs = dbs(tk_ID t \<mapsto> (case mv of None \<Rightarrow> db | Some k \<Rightarrow> mv_add (KeyOne t) k db))"
  by (auto simp: UpdateDB_MVK_opt_def UpdateDB_MVK_def mv_add_def Let_def db_Write_def fun_upd_idem_iff split: option.splits)

lemma stamped_fields [simp]:
  "tk_ID (stamped x h t) = tk_ID t" "KeyOne (stamped x h t) = KeyOne t" "KeyTwo (stamped x h t) = KeyTwo t"
  "mv_list (stamped x h t) = mv_list t" "mv_keys (stamped x h t) = mv_keys t"
  by (simp_all add: stamped_def Let_def mv_list_def mv_keys_def)

lemma set_mv_list: "set (mv_list t) = mv_keys t"
  by (cases "MVKeyOne t"; cases "MVKeyTwo t"; cases "MVKeyThree t")
    (auto simp: mv_list_def mv_keys_def)

lemma UpdateDB_eq:
  assumes "dbs (tk_ID t) = Some db"
  shows "UpdateDB t txid h dbs =
    Some (dbs(tk_ID t \<mapsto> fold (mv_add (KeyOne t)) (mv_list t) (db_store (stamped txid h t) db)), stamped txid h t)"
proof -
  let ?t = "stamped txid h t"
  have f: "fold (mv_add (KeyOne t)) (mv_list ?t) d =
      (case MVKeyThree ?t of None \<Rightarrow> id | Some k \<Rightarrow> mv_add (KeyOne t) k)
        ((case MVKeyTwo ?t of None \<Rightarrow> id | Some k \<Rightarrow> mv_add (KeyOne t) k)
          ((case MVKeyOne ?t of None \<Rightarrow> id | Some k \<Rightarrow> mv_add (KeyOne t) k) d))" for d
    by (cases "MVKeyOne ?t"; cases "MVKeyTwo ?t"; cases "MVKeyThree ?t") (simp_all add: mv_list_def)
  show ?thesis
    unfolding UpdateDB_def Let_def using assms f
    by (cases "MVKeyOne ?t"; cases "MVKeyTwo ?t"; cases "MVKeyThree ?t"; cases "KeyTwo t")
      (simp_all add: UpdateDB_MVK_opt_eq db_store_def db_Write_def Let_def)
qed

lemma db_typed_value:
  assumes "db_typed i db"
  shows "db (RealMVKey mv) = None \<or> (\<exists>ks. db (RealMVKey mv) = Some (VKeys ks) \<and> distinct ks \<and> list_all plain_key ks)"
proof (cases "db (RealMVKey mv)")
  case (Some v)
  with assms have "case v of VTicket t \<Rightarrow> plain_key (RealMVKey mv) \<and> KeyOne t = RealMVKey mv \<and> tk_ID t = i
      | VKey m \<Rightarrow> (\<exists>k2. RealMVKey mv = RealKeyTwo k2) \<and> plain_key m
      | VKeys ks \<Rightarrow> (\<exists>m. RealMVKey mv = RealMVKey m) \<and> distinct ks \<and> list_all plain_key ks"
    unfolding db_typed_def by blast
  with Some show ?thesis by (cases v) auto
qed simp

lemma typed_ticketD:
  assumes "db_typed i db" "db k = Some (VTicket t)"
  shows "plain_key k" "KeyOne t = k" "tk_ID t = i"
proof -
  have "case VTicket t of VTicket t \<Rightarrow> plain_key k \<and> KeyOne t = k \<and> tk_ID t = i
      | VKey m \<Rightarrow> (\<exists>k2. k = RealKeyTwo k2) \<and> plain_key m
      | VKeys ks \<Rightarrow> (\<exists>m. k = RealMVKey m) \<and> distinct ks \<and> list_all plain_key ks"
    using assms unfolding db_typed_def by blast
  then show "plain_key k" "KeyOne t = k" "tk_ID t = i" by auto
qed

lemma mv_add_listed:
  assumes "db_typed i db"
  shows "\<exists>ks. mv_add m mv db (RealMVKey mv) = Some (VKeys ks) \<and> m \<in> set ks"
  using db_typed_value [OF assms, of mv] by (auto simp: mv_add_def Read_keys_def db_get_def Let_def)

lemma mv_add_mono:
  "db (RealMVKey j) = Some (VKeys ks) \<Longrightarrow> \<exists>ks'. mv_add m mv db (RealMVKey j) = Some (VKeys ks') \<and> set ks \<subseteq> set ks'"
  by (auto simp: mv_add_def Read_keys_def db_get_def Let_def)

lemma mv_add_other: "(\<And>mv. k \<noteq> RealMVKey mv) \<Longrightarrow> mv_add m mv db k = db k"
  by (simp add: mv_add_def Let_def)

lemma mv_add_typed: "db_typed i db \<Longrightarrow> plain_key m \<Longrightarrow> db_typed i (mv_add m mv db)"
  using db_typed_value [of i db mv]
  by (auto simp: mv_add_def Read_keys_def db_get_def Let_def db_typed_def)

lemma fold_mv_add_typed: "db_typed i db \<Longrightarrow> plain_key m \<Longrightarrow> db_typed i (fold (mv_add m) mvs db)"
  by (induction mvs arbitrary: db) (simp_all add: mv_add_typed)

lemma fold_mv_add_mono:
  "db (RealMVKey j) = Some (VKeys ks) \<Longrightarrow>
   \<exists>ks'. fold (mv_add m) mvs db (RealMVKey j) = Some (VKeys ks') \<and> set ks \<subseteq> set ks'"
proof (induction mvs arbitrary: db ks)
  case (Cons a mvs)
  obtain ks' where "mv_add m a db (RealMVKey j) = Some (VKeys ks')" "set ks \<subseteq> set ks'"
    using mv_add_mono [of db j ks m a] Cons.prems by blast
  with Cons.IH [of "mv_add m a db" ks'] show ?case by fastforce
qed auto

lemma fold_mv_add_listed:
  "db_typed i db \<Longrightarrow> plain_key m \<Longrightarrow> mv \<in> set mvs \<Longrightarrow>
   \<exists>ks. fold (mv_add m) mvs db (RealMVKey mv) = Some (VKeys ks) \<and> m \<in> set ks"
proof (induction mvs arbitrary: db)
  case (Cons a mvs)
  show ?case
  proof (cases "mv = a")
    case True
    obtain ks where "mv_add m a db (RealMVKey a) = Some (VKeys ks)" "m \<in> set ks"
      using mv_add_listed [OF Cons.prems(1)] by blast
    with True fold_mv_add_mono [of "mv_add m a db" a ks m mvs] show ?thesis by auto
  next
    case False
    with Cons mv_add_typed show ?thesis by simp
  qed
qed simp

lemma fold_mv_add_other: "(\<And>mv. k \<noteq> RealMVKey mv) \<Longrightarrow> fold (mv_add m) mvs db k = db k"
  by (induction mvs arbitrary: db) (simp_all add: mv_add_other)

lemma db_store_typed: "db_typed i db \<Longrightarrow> plain_key (KeyOne t) \<Longrightarrow> tk_ID t = i \<Longrightarrow> db_typed i (db_store t db)"
  by (auto simp: db_store_def Let_def db_typed_def split: option.splits)

lemma db_store_other:
  "db_store t db (RealMVKey mv) = (if KeyOne t = RealMVKey mv then Some (VTicket t) else db (RealMVKey mv))"
  "plain_key k \<Longrightarrow> db_store t db k = (if k = KeyOne t then Some (VTicket t) else db k)"
  by (auto simp: db_store_def Let_def split: option.splits)

lemma UpdateDB_ok:
  assumes "dbs_ok dbs" "dbs (tk_ID t) = Some db" "plain_key (KeyOne t)"
  shows "dbs_ok (dbs(tk_ID t \<mapsto> fold (mv_add (KeyOne t)) (mv_list t) (db_store (stamped x h t) db)))"
proof -
  let ?s = "db_store (stamped x h t) db" and ?db = "fold (mv_add (KeyOne t)) (mv_list t) (db_store (stamped x h t) db)"
  have db: "db_typed (tk_ID t) db" "db_indexed db" using assms(1,2) by (auto simp: dbs_ok_def)
  have s: "db_typed (tk_ID t) ?s" using db_store_typed [OF db(1), of "stamped x h t"] assms(3) by simp
  note f = fold_mv_add_typed [OF s assms(3), of "mv_list t"]
  have "db_indexed ?db"
    unfolding db_indexed_def
  proof (intro allI impI)
    fix k u mv assume u: "?db k = Some (VTicket u)" and mv: "mv \<in> mv_keys u"
    have k: "plain_key k" "KeyOne u = k" using typed_ticketD [OF f u] by auto
    have "?s k = Some (VTicket u)" using u fold_mv_add_other [of k "KeyOne t" "mv_list t" ?s] plain_not_real [OF k(1)] by simp
    then consider (new) "k = KeyOne t" "u = stamped x h t" | (old) "k \<noteq> KeyOne t" "db k = Some (VTicket u)"
      using db_store_other(2) [OF k(1), of "stamped x h t" db] by (auto split: if_splits)
    then show "\<exists>ks. ?db (RealMVKey mv) = Some (VKeys ks) \<and> k \<in> set ks"
    proof cases
      case new
      then show ?thesis using fold_mv_add_listed [OF s assms(3)] mv by (simp add: set_mv_list)
    next
      case old
      then obtain ks where "db (RealMVKey mv) = Some (VKeys ks)" "k \<in> set ks"
        using db(2) mv unfolding db_indexed_def by blast
      moreover have "?s (RealMVKey mv) = db (RealMVKey mv)"
        using assms(3) by (auto simp: db_store_other(1))
      ultimately show ?thesis using fold_mv_add_mono [of ?s mv ks "KeyOne t" "mv_list t"] by auto
    qed
  qed
  with f assms(1) show ?thesis by (auto simp: dbs_ok_def)
qed

lemma EraseTicketFromDB_ok:
  assumes "dbs_ok dbs" "plain_key (KeyOne t)"
  shows "dbs_ok (fst (EraseTicketFromDB t dbs))"
proof (cases "dbs (tk_ID t)")
  case (Some db)
  then have db: "db_typed (tk_ID t) db" "db_indexed db" using assms(1) by (auto simp: dbs_ok_def)
  have "db_typed (tk_ID t) (db(KeyOne t := None))" using db(1) by (simp add: db_typed_def)
  moreover have "db_indexed (db(KeyOne t := None))"
    using db(2) plain_not_real [OF assms(2)] unfolding db_indexed_def by (metis fun_upd_apply option.distinct(1))
  ultimately show ?thesis
    using Some assms(1) by (simp add: dbs_ok_def EraseTicketFromDB_def db_Erase_def)
qed (use assms in \<open>simp add: EraseTicketFromDB_def\<close>)

inductive db_run :: "ticket_dbs \<Rightarrow> bool" where
  start: "db_run InitTicketDB"
| update: "db_run dbs \<Longrightarrow> plain_key (KeyOne t) \<Longrightarrow> UpdateDB t txid h dbs = Some (dbs', t') \<Longrightarrow> db_run dbs'"
| erase: "db_run dbs \<Longrightarrow> plain_key (KeyOne t) \<Longrightarrow> db_run (fst (EraseTicketFromDB t dbs))"

lemma db_run_ok: "db_run dbs \<Longrightarrow> dbs_ok dbs"
proof (induction rule: db_run.induct)
  case start
  show ?case by (simp add: dbs_ok_def InitTicketDB_def db_typed_def db_indexed_def)
next
  case (update dbs t txid h dbs' t')
  show ?case
  proof (cases "dbs (tk_ID t)")
    case None
    with update.hyps(3) show ?thesis by (simp add: UpdateDB_def)
  next
    case (Some db)
    then have "dbs' = dbs(tk_ID t \<mapsto> fold (mv_add (KeyOne t)) (mv_list t) (db_store (stamped txid h t) db))"
      using UpdateDB_eq [of dbs t db txid h] update.hyps(3) by simp
    with UpdateDB_ok [OF update.IH Some update.hyps(2)] show ?thesis by (simp only:)
  qed
qed (rule EraseTicketFromDB_ok)

text \<open>
  C16. The ticket databases stay well typed and complete: after any sequence of updates and
  erasures of tickets with plain primary keys, every stored value has the type its key announces,
  no list of primary keys has duplicates, and a search by an auxiliary key finds every stored
  ticket that carries the key and is visible from the given chain position.
\<close>

theorem ticket_dbs_typed_complete:
  assumes "db_run dbs" "dbs i = Some db"
  shows "db_typed i db \<and>
    (\<forall>k t mv. db k = Some (VTicket t) \<and> mv \<in> mv_keys t \<and> visible x t \<longrightarrow>
       t \<in> set (FindTicketsByMVKey x dbs i mv))"
proof (intro conjI allI impI)
  have ok: "db_typed i db" "db_indexed db" using db_run_ok [OF assms(1)] assms(2) by (auto simp: dbs_ok_def)
  show "db_typed i db" by (fact ok)
  fix k t mv assume t: "db k = Some (VTicket t) \<and> mv \<in> mv_keys t \<and> visible x t"
  then obtain ks where ks: "db (RealMVKey mv) = Some (VKeys ks)" "k \<in> set ks"
    using ok(2) unfolding db_indexed_def by blast
  then have "t \<in> set (List.map_filter (Read_ticket db) ks)"
    using t by (auto simp: List.map_filter_def Read_ticket_def db_get_def image_iff intro!: bexI [of _ k])
  with ks(1) t assms(2) show "t \<in> set (FindTicketsByMVKey x dbs i mv)"
    by (simp add: FindTicketsByMVKey_def read_visible_def Read_keys_def db_get_def)
qed

lemma UpdateDB_found:
  assumes "db_run dbs" "dbs (tk_ID t) = Some db" "plain_key (KeyOne t)" "visible x (stamped txid h t)"
  shows "\<exists>dbs'. UpdateDB t txid h dbs = Some (dbs', stamped txid h t) \<and>
    FindTicket x dbs' t = Some (stamped txid h t) \<and>
    (KeyTwo t \<noteq> None \<longrightarrow> FindTicketBySecondaryKey x dbs' t = Some (stamped txid h t)) \<and>
    (\<forall>mv \<in> mv_keys t. stamped txid h t \<in> set (FindTicketsByMVKey x dbs' (tk_ID t) mv)) \<and>
    (\<forall>u. plain_key (KeyOne u) \<and> (tk_ID u \<noteq> tk_ID t \<or> KeyOne u \<noteq> KeyOne t) \<longrightarrow> FindTicket x dbs' u = FindTicket x dbs u)"
proof -
  let ?t = "stamped txid h t" and ?s = "db_store (stamped txid h t) db"
  let ?db = "fold (mv_add (KeyOne t)) (mv_list t) ?s"
  let ?dbs = "dbs(tk_ID t \<mapsto> ?db)"
  have u: "UpdateDB t txid h dbs = Some (?dbs, ?t)" by (rule UpdateDB_eq) (rule assms(2))
  have ok: "dbs_ok dbs" by (rule db_run_ok [OF assms(1)])
  then have typed: "db_typed (tk_ID t) db" using assms(2) by (auto simp: dbs_ok_def)
  have s: "db_typed (tk_ID t) ?s" using db_store_typed [OF typed, of ?t] assms(3) by simp
  have plain: "?db k = ?s k" if "plain_key k" for k
    using fold_mv_add_other [of k] plain_not_real [OF that] by simp
  have one: "?db (KeyOne t) = Some (VTicket ?t)"
    using plain [OF assms(3)] db_store_other(2) [OF assms(3), of ?t db] by simp
  have two: "?db (RealKeyTwo k2) = Some (VKey (KeyOne t))" if "KeyTwo t = Some k2" for k2
    using fold_mv_add_other [of "RealKeyTwo k2" "KeyOne t" "mv_list t" ?s] that by (simp add: db_store_def Let_def)
  have mv: "?t \<in> set (FindTicketsByMVKey x ?dbs (tk_ID t) mv)" if m: "mv \<in> mv_keys t" for mv
  proof -
    obtain ks where ks: "?db (RealMVKey mv) = Some (VKeys ks)" "KeyOne t \<in> set ks"
      using fold_mv_add_listed [OF s assms(3), of mv "mv_list t"] m by (auto simp: set_mv_list)
    then have "?t \<in> set (List.map_filter (Read_ticket ?db) ks)"
      using one by (auto simp: List.map_filter_def Read_ticket_def db_get_def image_iff intro!: bexI [of _ "KeyOne t"])
    with ks(1) assms(4) show ?thesis
      by (simp add: FindTicketsByMVKey_def read_visible_def Read_keys_def db_get_def)
  qed
  have other: "FindTicket x ?dbs u = FindTicket x dbs u"
    if "plain_key (KeyOne u) \<and> (tk_ID u \<noteq> tk_ID t \<or> KeyOne u \<noteq> KeyOne t)" for u
    using that plain [of "KeyOne u"] db_store_other(2) [of "KeyOne u" ?t db] assms(2)
    by (auto simp: FindTicket_def Read_ticket_def db_get_def)
  show ?thesis
    using u one two mv other assms(4)
    by (intro exI [of _ ?dbs]) (auto simp: FindTicket_def FindTicketBySecondaryKey_def Read_ticket_def Read_key_def db_get_def)
qed

text \<open>
  C9. What is stored is found: in every reachable state an update of a ticket of a known kind
  succeeds, and afterwards the ticket, stamped with its transaction id and height, is returned by
  the primary key, by the secondary key and by each auxiliary key, provided it is visible from the
  given chain position; tickets under other primary keys are untouched.
\<close>

theorem UpdateDB_FindTicket:
  assumes "db_run dbs" "dbs (tk_ID t) = Some db" "plain_key (KeyOne t)" "visible x (stamped txid h t)"
  shows "\<exists>dbs'. UpdateDB t txid h dbs = Some (dbs', stamped txid h t) \<and>
    FindTicket x dbs' t = Some (stamped txid h t) \<and>
    (KeyTwo t \<noteq> None \<longrightarrow> FindTicketBySecondaryKey x dbs' t = Some (stamped txid h t)) \<and>
    (\<forall>mv \<in> mv_keys t. stamped txid h t \<in> set (FindTicketsByMVKey x dbs' (tk_ID t) mv)) \<and>
    (\<forall>u. plain_key (KeyOne u) \<and> (tk_ID u \<noteq> tk_ID t \<or> KeyOne u \<noteq> KeyOne t) \<longrightarrow> FindTicket x dbs' u = FindTicket x dbs u)"
  by (rule UpdateDB_found) (fact assms)+

section \<open>Instances\<close>

definition sample_ticket :: CPastelTicket where
  "sample_ticket = \<lparr>tk_ID = Offer, m_txid = [], m_nBlock = 0, KeyOne = ''k1'', KeyTwo = Some ''two'',
     MVKeyOne = Some ''owner'', MVKeyTwo = None, MVKeyThree = Some ''item'', tk_data = []\<rparr>"

definition sample_context :: chain_context where
  "sample_context = \<lparr>ctx_index = Map.empty, ctx_chain = \<lparr>vChain = [], gl_nChainHeight = 10\<rparr>, pindexPrev = None\<rparr>"

lemma sample_visible: "visible sample_context (stamped ''tx'' 7 sample_ticket)" "plain_key (KeyOne sample_ticket)"
  by code_simp+

theorem UpdateDB_FindTicket_witness:
  "\<exists>dbs'. UpdateDB sample_ticket ''tx'' 7 InitTicketDB = Some (dbs', stamped ''tx'' 7 sample_ticket)
     \<and> FindTicketBySecondaryKey sample_context dbs' sample_ticket = Some (stamped ''tx'' 7 sample_ticket)
     \<and> stamped ''tx'' 7 sample_ticket \<in> set (FindTicketsByMVKey sample_context dbs' Offer ''item'')"
proof -
  have "InitTicketDB (tk_ID sample_ticket) = Some Map.empty" by (simp add: InitTicketDB_def)
  from UpdateDB_FindTicket [OF db_run.start this sample_visible(2,1)] show ?thesis
    by (auto simp: sample_ticket_def mv_keys_def)
qed

theorem ticket_dbs_typed_complete_witness:
  "\<exists>dbs' db. db_run dbs' \<and> dbs' Offer = Some db \<and> db_typed Offer db
     \<and> db ''k1'' = Some (VTicket (stamped ''tx'' 7 sample_ticket))
     \<and> stamped ''tx'' 7 sample_ticket \<in> set (FindTicketsByMVKey sample_context dbs' Offer ''owner'')"
proof -
  let ?r = "UpdateDB sample_ticket ''tx'' 7 InitTicketDB"
  have r: "?r \<noteq> None" by (simp add: UpdateDB_def InitTicketDB_def Let_def)
  then obtain dbs' t' where u: "?r = Some (dbs', t')" by auto
  have run: "db_run dbs'" by (rule db_run.update [OF db_run.start sample_visible(2) u])
  have v: "(fst (the ?r)) Offer \<noteq> None \<and>
      the ((fst (the ?r)) Offer) ''k1'' = Some (VTicket (stamped ''tx'' 7 sample_ticket))" by code_simp
  then obtain db where db: "dbs' Offer = Some db" "db ''k1'' = Some (VTicket (stamped ''tx'' 7 sample_ticket))"
    using u by auto
  have "''owner'' \<in> mv_keys (stamped ''tx'' 7 sample_ticket)" by (simp add: mv_keys_def sample_ticket_def stamped_def Let_def)
  with ticket_dbs_typed_complete [OF run db(1), of sample_context] db run sample_visible(1) show ?thesis by blast
qed

end
