(* ===== verification/TicketProcessor.thy ===== *)
theory TicketProcessor
  imports TicketSend TicketFees TicketDB
begin

text \<open>
  The ticket processor of \<open>mnode/ticket-processor.cpp\<close> as a whole: creation of ticket objects,
  contextual validation of ticket transactions, and the way a ticket takes from a block into the
  ticket database and out of it again. Unserialization and the validity rules of the ticket classes
  are fields of the environment, as are the transaction and block look-ups and the hash of a
  transaction. A call that an exception leaves keeps the writes made before it: such operations
  return the databases with an optional result, \<^const>\<open>None\<close> for the exception.
\<close>

section \<open>Ticket objects\<close>

datatype ticket_class =
    CPastelIDRegTicket | CNFTRegTicket | CollectionRegTicket | CollectionActivateTicket | CNFTActivateTicket
  | COfferTicket | CAcceptTicket | CTransferTicket | CNFTRoyaltyTicket | CTakeDownTicket
  | CChangeUsernameTicket | CChangeEthereumAddressTicket | CActionRegTicket | CActionActivateTicket | CContractTicket

fun CreateTicket :: "TicketID \<Rightarrow> ticket_class" where
  "CreateTicket PastelID = CPastelIDRegTicket"
| "CreateTicket NFT = CNFTRegTicket"
| "CreateTicket CollectionReg = CollectionRegTicket"
| "CreateTicket CollectionAct = CollectionActivateTicket"
| "CreateTicket Activate = CNFTActivateTicket"
| "CreateTicket Offer = COfferTicket"
| "CreateTicket Accept = CAcceptTicket"
| "CreateTicket Transfer = CTransferTicket"
| "CreateTicket Royalty = CNFTRoyaltyTicket"
| "CreateTicket Down = CTakeDownTicket"
| "CreateTicket Username = CChangeUsernameTicket"
| "CreateTicket EthereumAddress = CChangeEthereumAddressTicket"
| "CreateTicket ActionReg = CActionRegTicket"
| "CreateTicket ActionActivate = CActionActivateTicket"
| "CreateTicket Contract = CContractTicket"

text \<open>The fields that are kept in memory only; writing a ticket to the database drops them.\<close>

record loaded_ticket = CPastelTicket +
  m_nSerializedSize :: u32
  m_nCompressedSize :: u32
  m_nMultiSigOutputsCount :: u32
  m_nMultiSigTxTotalFee :: CAmount

definition stored_part :: "loaded_ticket \<Rightarrow> CPastelTicket" where
  "stored_part t = CPastelTicket.truncate t"

text \<open>
  \<open>pr_unser\<close> reads a fresh object of the class: \<open>Inr\<close> is the ticket, \<open>Inl\<close> the partly read object that
  is left when reading throws. \<open>pr_fees\<close> gives the fields that fee validation reads, \<open>pr_IsValid\<close> the
  verdict of the class for a transaction origin and a previous block. \<open>pr_tx\<close> is \<open>GetTransaction\<close>
  (transaction, block hash or null for the memory pool, height), \<open>pr_block\<close> is
  \<open>ReadBlockFromDisk\<close>, \<open>pr_nTx\<close> the transaction count of an index entry.
\<close>

record processor_env =
  pr_zstd :: zstd
  pr_datacarrier :: bool
  pr_maxdata :: nat
  pr_Hash :: "bytes \<Rightarrow> uint256"
  pr_GetHash :: "CMutableTransaction \<Rightarrow> uint256"
  pr_GetHex :: "uint256 \<Rightarrow> string"
  pr_unser :: "ticket_class \<Rightarrow> bytes \<Rightarrow> loaded_ticket + loaded_ticket"
  pr_IsValid :: "nat \<Rightarrow> uint256 option \<Rightarrow> loaded_ticket \<Rightarrow> ticket_validation_t"
  pr_fees :: "loaded_ticket \<Rightarrow> fee_ticket"
  pr_tx :: "uint256 \<Rightarrow> (CMutableTransaction \<times> uint256 \<times> u32) option"
  pr_block :: "uint256 \<Rightarrow> CMutableTransaction list option"
  pr_nTx :: "uint256 \<Rightarrow> u32"

definition txid_of :: "processor_env \<Rightarrow> CMutableTransaction \<Rightarrow> string" where
  "txid_of env tx = pr_GetHex env (pr_GetHash env tx)"

definition pre_parse ::
  "processor_env \<Rightarrow> CMutableTransaction \<Rightarrow> (preparse_error + (TicketID \<times> CCompressedDataStream)) \<times> nat \<times> CAmount" where
  "pre_parse env tx =
     preParseTicket (pr_zstd env) (pr_datacarrier env) (pr_maxdata env) (pr_Hash env) True (vout tx) CCompressedDataStream_new"

definition set_multisig :: "nat \<Rightarrow> CAmount \<Rightarrow> loaded_ticket \<Rightarrow> loaded_ticket" where
  "set_multisig nCount nFee t = t\<lparr>m_nMultiSigOutputsCount := of_nat nCount, m_nMultiSigTxTotalFee := nFee\<rparr>"

definition set_sizes :: "CCompressedDataStream \<Rightarrow> loaded_ticket \<Rightarrow> loaded_ticket" where
  "set_sizes s t =
     (let t = t\<lparr>m_nSerializedSize := of_nat (m_nSavedDecompressedSize s)\<rparr>
      in if m_bCompressed s then t\<lparr>m_nCompressedSize := of_nat (m_nSavedCompressedSize s)\<rparr> else t)"

section \<open>Validation of ticket transactions\<close>

text \<open>
  A call returns, lets an exception escape, or ends the process. The message of a transaction that
  is not a ticket is left out.
\<close>

datatype 'a outcome = Returns 'a | Throws | Terminates

definition ValidateIfTicketTransaction ::
  "processor_env \<Rightarrow> nat \<Rightarrow> u32 \<Rightarrow> CMutableTransaction \<Rightarrow> uint256 option \<Rightarrow> ticket_validation_t outcome" where
  "ValidateIfTicketTransaction env txOrigin height tx prev =
     (case pre_parse env tx of
        (Inl PreParseThrows, _, _) \<Rightarrow> Throws
      | (Inl e, _, _) \<Rightarrow> Returns (tv_default\<lparr>tv_state := NOT_TICKET\<rparr>)
      | (Inr (ticket_id, data_stream), nCount, nFee) \<Rightarrow>
         (case pr_unser env (CreateTicket ticket_id) (content data_stream) of
            Inl _ \<Rightarrow> Returns (tv_invalid ''Failed to parse and unpack ticket'')
          | Inr ticket \<Rightarrow>
              let ticket = set_multisig nCount nFee (ticket\<lparr>m_txid := txid_of env tx, m_nBlock := height\<rparr>);
                  tv = pr_IsValid env txOrigin prev ticket
              in if IsNotValid tv then Returns tv
                 else (case ValidateTicketFees height (vout tx) (pr_fees env (set_sizes data_stream ticket)) of
                         None \<Rightarrow> Terminates
                       | Some tv \<Rightarrow> if IsNotValid tv then Returns tv else Returns setValid)))"

section \<open>From blocks to the database\<close>

text \<open>Pre-parsing is outside the \<open>try\<close> block, so its exception leaves the call.\<close>

definition ParseTicketAndUpdateDB ::
  "processor_env \<Rightarrow> CMutableTransaction \<Rightarrow> u32 \<Rightarrow> ticket_dbs \<Rightarrow> ticket_dbs \<times> bool option" where
  "ParseTicketAndUpdateDB env tx nBlockHeight dbs =
     (case pre_parse env tx of
        (Inl PreParseThrows, _, _) \<Rightarrow> (dbs, None)
      | (Inl e, _, _) \<Rightarrow> (dbs, Some False)
      | (Inr (ticket_id, data_stream), nCount, nFee) \<Rightarrow>
         (case pr_unser env (CreateTicket ticket_id) (content data_stream) of
            Inl _ \<Rightarrow> (dbs, Some False)
          | Inr ticket \<Rightarrow>
              let ticket = set_sizes data_stream (set_multisig nCount nFee ticket)
              in case UpdateDB (stored_part ticket) (txid_of env tx) nBlockHeight dbs of
                   None \<Rightarrow> (dbs, Some False)
                 | Some (dbs', _) \<Rightarrow> (dbs', Some True)))"

fun update_from_txs ::
  "processor_env \<Rightarrow> u32 \<Rightarrow> CMutableTransaction list \<Rightarrow> ticket_dbs \<Rightarrow> ticket_dbs \<times> unit option" where
  "update_from_txs env height [] dbs = (dbs, Some ())"
| "update_from_txs env height (tx # txs) dbs =
     (case ParseTicketAndUpdateDB env tx height dbs of
        (dbs', None) \<Rightarrow> (dbs', None)
      | (dbs', Some _) \<Rightarrow> update_from_txs env height txs dbs')"

definition UpdatedBlockTip ::
  "processor_env \<Rightarrow> block_map \<Rightarrow> uint256 option \<Rightarrow> ticket_dbs \<Rightarrow> ticket_dbs \<times> unit option" where
  "UpdatedBlockTip env st pBlockIndex dbs =
     (case pBlockIndex of None \<Rightarrow> (dbs, Some ())
      | Some p \<Rightarrow>
         (case pr_block env p of None \<Rightarrow> (dbs, Some ())
          | Some vtx \<Rightarrow>
             (case st p of None \<Rightarrow> (dbs, None)
              | Some b \<Rightarrow> update_from_txs env (of_int (nHeight b)) vtx dbs)))"

definition BLOCK_HAVE_DATA :: u32 where "BLOCK_HAVE_DATA = 8"

text \<open>
  The loop goes from the tip to the genesis block and so visits each height at most once. The
  progress messages are left out.
\<close>

fun repair_loop ::
  "processor_env \<Rightarrow> block_map \<Rightarrow> uint256 option \<Rightarrow> nat \<Rightarrow> uint256 option \<Rightarrow> ticket_dbs \<Rightarrow> ticket_dbs \<times> unit option" where
  "repair_loop env st genesis 0 pindex dbs = (dbs, None)"
| "repair_loop env st genesis (Suc fuel) pindex dbs =
     (case pindex of None \<Rightarrow> (dbs, Some ())
      | Some q \<Rightarrow>
          if pindex = genesis then (dbs, Some ())
          else case st q of None \<Rightarrow> (dbs, None)
          | Some b \<Rightarrow>
             (case (if nStatus b AND BLOCK_HAVE_DATA \<noteq> 0 then UpdatedBlockTip env st pindex dbs else (dbs, Some ())) of
                (dbs', None) \<Rightarrow> (dbs', None)
              | (dbs', Some _) \<Rightarrow> repair_loop env st genesis fuel (pprev b) dbs'))"

definition RepairTicketDB :: "processor_env \<Rightarrow> block_map \<Rightarrow> CChain \<Rightarrow> ticket_dbs \<Rightarrow> ticket_dbs \<times> unit option" where
  "RepairTicketDB env st c dbs =
     (case Tip c of None \<Rightarrow> (dbs, None)
      | Some p \<Rightarrow> repair_loop env st (Genesis c) (length (vChain c)) (Some p) dbs)"

section \<open>From transactions to tickets\<close>

datatype serialize_error = NoTransaction | ParseFailed preparse_error

definition SerializeTicketToStream ::
  "processor_env \<Rightarrow> uint256 \<Rightarrow>
   serialize_error + (CMutableTransaction \<times> uint256 \<times> u32 \<times> TicketID \<times> CCompressedDataStream \<times> nat \<times> CAmount)" where
  "SerializeTicketToStream env txid =
     (case pr_tx env txid of None \<Rightarrow> Inl NoTransaction
      | Some (tx, hashBlock, nTicketHeight) \<Rightarrow>
         (case pre_parse env tx of
            (Inl e, _, _) \<Rightarrow> Inl (ParseFailed e)
          | (Inr (ticket_id, s), nCount, nFee) \<Rightarrow> Inr (tx, hashBlock, nTicketHeight, ticket_id, s, nCount, nFee)))"

text \<open>
  \<open>Inl\<close> is the exception of \<open>GetTicket\<close>, \<^const>\<open>None\<close> the null pointer. The object exists before it is
  read, so a ticket that cannot be read is returned as far as it was read.
\<close>

definition GetTicket ::
  "processor_env \<Rightarrow> chain_context \<Rightarrow> uint256 \<Rightarrow> serialize_error + loaded_ticket option" where
  "GetTicket env x txid =
     (case SerializeTicketToStream env txid of Inl e \<Rightarrow> Inl e
      | Inr (tx, hashBlock, nTicketHeight, ticket_id, s, nCount, nFee) \<Rightarrow>
          let bInActiveChain = (hashBlock \<noteq> 0 \<and> Contains (ctx_index x) (ctx_chain x) hashBlock);
              height = (if hashBlock = 0 then UINT32_MAX
                        else if nTicketHeight = UINT32_MAX \<and> bInActiveChain
                        then of_int (nHeight (the (ctx_index x hashBlock))) else nTicketHeight);
              forked = (case pindexPrev x of None \<Rightarrow> False
                        | Some prev \<Rightarrow> bInActiveChain \<and> GetAncestor (ctx_index x) prev (sint height) \<noteq> Some hashBlock)
          in if forked then Inr None
             else case pr_unser env (CreateTicket ticket_id) (content s) of
                    Inl partial \<Rightarrow> Inr (Some partial)
                  | Inr t \<Rightarrow> Inr (Some (set_sizes s (set_multisig nCount nFee
                                  (t\<lparr>m_txid := txid_of env tx, m_nBlock := height\<rparr>)))))"

text \<open>The overload that asks for a kind throws, here \<^const>\<open>None\<close>, unless it finds a ticket of that kind.\<close>

definition GetTicket_of :: "processor_env \<Rightarrow> chain_context \<Rightarrow> uint256 \<Rightarrow> TicketID \<Rightarrow> loaded_ticket option" where
  "GetTicket_of env x txid ticketID =
     (case GetTicket env x txid of
        Inr (Some t) \<Rightarrow> if ticketID \<noteq> tk_ID t then None else Some t
      | _ \<Rightarrow> None)"

section \<open>Erasing tickets\<close>

datatype EraseTicketResult = NotFound | Success | CreateTicketError | EraseFromDBError

definition EraseIfTicketTransaction ::
  "processor_env \<Rightarrow> uint256 \<Rightarrow> ticket_dbs \<Rightarrow> ticket_dbs \<times> EraseTicketResult option" where
  "EraseIfTicketTransaction env txid dbs =
     (case SerializeTicketToStream env txid of
        Inl (ParseFailed PreParseThrows) \<Rightarrow> (dbs, None)
      | Inl e \<Rightarrow> (dbs, Some NotFound)
      | Inr (tx, hashBlock, nTicketHeight, ticket_id, s, nCount, nFee) \<Rightarrow>
         (case pr_unser env (CreateTicket ticket_id) (content s) of
            Inl _ \<Rightarrow> (dbs, None)
          | Inr ticket \<Rightarrow>
             (case EraseTicketFromDB (stored_part ticket) dbs of
                (dbs', ok) \<Rightarrow> (dbs', Some (if ok then Success else EraseFromDBError)))))"

fun erase_txs ::
  "processor_env \<Rightarrow> CMutableTransaction list \<Rightarrow> nat \<Rightarrow> ticket_dbs \<Rightarrow> ticket_dbs \<times> nat option" where
  "erase_txs env [] k dbs = (dbs, Some k)"
| "erase_txs env (tx # txs) k dbs =
     (case EraseIfTicketTransaction env (pr_GetHash env tx) dbs of
        (dbs', None) \<Rightarrow> (dbs', None)
      | (dbs', Some r) \<Rightarrow> erase_txs env txs (if r = Success then k + 1 else k) dbs')"

fun erase_blocks ::
  "processor_env \<Rightarrow> block_map \<Rightarrow> uint256 option list \<Rightarrow> nat \<Rightarrow> ticket_dbs \<Rightarrow> ticket_dbs \<times> nat option" where
  "erase_blocks env st [] k dbs = (dbs, Some k)"
| "erase_blocks env st (None # ps) k dbs = erase_blocks env st ps k dbs"
| "erase_blocks env st (Some p # ps) k dbs =
     (case st p of None \<Rightarrow> (dbs, None)
      | Some b \<Rightarrow>
          if pr_nTx env p = 0 \<or> nStatus b AND BLOCK_HAVE_DATA = 0 then erase_blocks env st ps k dbs
          else case pr_block env p of None \<Rightarrow> erase_blocks env st ps k dbs
          | Some vtx \<Rightarrow>
             (case erase_txs env vtx k dbs of
                (dbs', None) \<Rightarrow> (dbs', None)
              | (dbs', Some k') \<Rightarrow> erase_blocks env st ps k' dbs'))"

definition EraseTicketsFromDbByList ::
  "processor_env \<Rightarrow> block_map \<Rightarrow> uint256 option list \<Rightarrow> ticket_dbs \<Rightarrow> ticket_dbs \<times> nat option" where
  "EraseTicketsFromDbByList env st vBlockIndex dbs = erase_blocks env st vBlockIndex 0 dbs"

section \<open>Replaying blocks\<close>

text \<open>The tickets that the transactions of a block give, in order, as they are stored.\<close>

definition ticket_in :: "processor_env \<Rightarrow> u32 \<Rightarrow> CMutableTransaction \<Rightarrow> CPastelTicket option" where
  "ticket_in env h tx =
     (case fst (pre_parse env tx) of Inl _ \<Rightarrow> None
      | Inr (i, s) \<Rightarrow>
         (case pr_unser env (CreateTicket i) (content s) of Inl _ \<Rightarrow> None
          | Inr t \<Rightarrow> Some (stamped (txid_of env tx) h (stored_part t))))"

definition block_txs :: "processor_env \<Rightarrow> uint256 \<Rightarrow> CMutableTransaction list" where
  "block_txs env p = (case pr_block env p of None \<Rightarrow> [] | Some vtx \<Rightarrow> vtx)"

definition block_tickets :: "processor_env \<Rightarrow> block_map \<Rightarrow> uint256 \<Rightarrow> CPastelTicket list" where
  "block_tickets env st p = List.map_filter (ticket_in env (of_int (nHeight (the (st p))))) (block_txs env p)"

text \<open>No transaction of the block makes pre-parsing throw, and no ticket has a key that looks derived.\<close>

definition replayable :: "processor_env \<Rightarrow> block_map \<Rightarrow> uint256 \<Rightarrow> bool" where
  "replayable env st p \<longleftrightarrow>
     list_all (\<lambda>tx. fst (pre_parse env tx) \<noteq> Inl PreParseThrows) (block_txs env p) \<and>
     list_all (\<lambda>t. plain_key (KeyOne t)) (block_tickets env st p)"

definition ticket_at :: "ticket_dbs \<Rightarrow> TicketID \<Rightarrow> string \<Rightarrow> CPastelTicket option" where
  "ticket_at dbs i k = Option.bind (dbs i) (\<lambda>db. Read_ticket db k)"

definition has_key :: "TicketID \<Rightarrow> string \<Rightarrow> CPastelTicket \<Rightarrow> bool" where
  "has_key i k t \<longleftrightarrow> tk_ID t = i \<and> KeyOne t = k"

definition complete_dbs :: "ticket_dbs \<Rightarrow> bool" where
  "complete_dbs dbs \<longleftrightarrow> (\<forall>i. dbs i \<noteq> None)"

definition store :: "CPastelTicket \<Rightarrow> ticket_dbs \<Rightarrow> ticket_dbs" where
  "store t dbs = dbs(tk_ID t \<mapsto> fold (mv_add (KeyOne t)) (mv_list t) (db_store t (the (dbs (tk_ID t)))))"

lemma stored_part_set [simp]:
  "stored_part (set_sizes s t) = stored_part t" "stored_part (set_multisig k fee t) = stored_part t"
  by (simp_all add: stored_part_def set_sizes_def set_multisig_def CPastelTicket.truncate_def Let_def)

lemma complete_store: "complete_dbs dbs \<Longrightarrow> complete_dbs (store t dbs)"
  by (simp add: complete_dbs_def store_def)

lemma complete_fold_store: "complete_dbs dbs \<Longrightarrow> complete_dbs (fold store ts dbs)"
  by (induction ts arbitrary: dbs) (simp_all add: complete_store)

lemma UpdateDB_store:
  assumes "complete_dbs dbs"
  shows "UpdateDB t txid h dbs = Some (store (stamped txid h t) dbs, stamped txid h t)"
proof -
  obtain db where "dbs (tk_ID t) = Some db" using assms by (auto simp: complete_dbs_def)
  then show ?thesis by (simp add: UpdateDB_eq store_def)
qed

lemma ParseTicketAndUpdateDB_store:
  assumes "complete_dbs dbs" "fst (pre_parse env tx) \<noteq> Inl PreParseThrows"
  shows "ParseTicketAndUpdateDB env tx h dbs =
    (case ticket_in env h tx of None \<Rightarrow> (dbs, Some False) | Some t \<Rightarrow> (store t dbs, Some True))"
  using assms(2) UpdateDB_store [OF assms(1)]
  by (auto simp: ParseTicketAndUpdateDB_def ticket_in_def Let_def
      split: prod.splits sum.splits preparse_error.splits)

lemma update_from_txs_store:
  assumes "complete_dbs dbs" "list_all (\<lambda>tx. fst (pre_parse env tx) \<noteq> Inl PreParseThrows) txs"
  shows "update_from_txs env h txs dbs = (fold store (List.map_filter (ticket_in env h) txs) dbs, Some ())"
  using assms
proof (induction txs arbitrary: dbs)
  case (Cons tx txs)
  then show ?case
    by (cases "ticket_in env h tx") (simp_all add: ParseTicketAndUpdateDB_store complete_store map_filter_simps)
qed (simp add: map_filter_simps)

lemma UpdatedBlockTip_store:
  assumes "complete_dbs dbs" "replayable env st p" "st p = Some b"
  shows "UpdatedBlockTip env st (Some p) dbs = (fold store (block_tickets env st p) dbs, Some ())"
  using assms update_from_txs_store [OF assms(1)]
  by (auto simp: UpdatedBlockTip_def block_tickets_def block_txs_def replayable_def map_filter_simps split: option.splits)

lemma ticket_at_store:
  assumes "complete_dbs dbs" "plain_key k"
  shows "ticket_at (store t dbs) i k = (if has_key i k t then Some t else ticket_at dbs i k)"
proof -
  obtain db where db: "dbs (tk_ID t) = Some db" using assms(1) by (auto simp: complete_dbs_def)
  have "fold (mv_add (KeyOne t)) (mv_list t) (db_store t db) k = (if k = KeyOne t then Some (VTicket t) else db k)"
    using assms(2) plain_not_real by (simp add: fold_mv_add_other db_store_other)
  then show ?thesis using db by (auto simp: ticket_at_def store_def has_key_def Read_ticket_def db_get_def)
qed

lemma ticket_at_fold_store:
  assumes "complete_dbs dbs" "plain_key k"
  shows "ticket_at (fold store ts dbs) i k =
    (case find (has_key i k) (rev ts) of Some t \<Rightarrow> Some t | None \<Rightarrow> ticket_at dbs i k)"
proof (induction ts rule: rev_induct)
  case (snoc t ts)
  then show ?case using ticket_at_store [OF complete_fold_store [OF assms(1)] assms(2)] by simp
qed simp

text \<open>
  C17. Connecting a block stores its tickets with the latest one winning: after the block has been
  processed, a primary key leads to the last ticket of the block that has it, and to what it led
  to before when no ticket of the block has it.
\<close>

theorem UpdatedBlockTip_latest:
  assumes "complete_dbs dbs" "replayable env st p" "st p = Some b" "plain_key k"
  shows "snd (UpdatedBlockTip env st (Some p) dbs) = Some () \<and>
    ticket_at (fst (UpdatedBlockTip env st (Some p) dbs)) i k =
      (case find (has_key i k) (rev (block_tickets env st p)) of Some t \<Rightarrow> Some t | None \<Rightarrow> ticket_at dbs i k)"
  using ticket_at_fold_store [OF assms(1,4)] UpdatedBlockTip_store [of dbs env st p b] assms by simp

section \<open>Repairing the database\<close>

definition has_data :: "block_map \<Rightarrow> uint256 \<Rightarrow> bool" where
  "has_data st p \<longleftrightarrow> nStatus (the (st p)) AND BLOCK_HAVE_DATA \<noteq> 0"

text \<open>The blocks with data above the genesis block on the way to \<open>p\<close>, lowest first.\<close>

definition blocks_to :: "block_map \<Rightarrow> uint256 \<Rightarrow> CBlockIndex \<Rightarrow> uint256 list" where
  "blocks_to st p b = filter (has_data st) (map the (tl (path_to st p b)))"

lemma path_to_step:
  assumes "index_ok st" "st p = Some b" "pprev b = Some q" "st q = Some c"
  shows "path_to st p b = path_to st q c @ [Some p]"
proof -
  have h: "nHeight b = nHeight c + 1" "0 \<le> nHeight c"
    using index_okD(2) [OF assms(1-3)] index_okD(1) [OF assms(1,4)] assms(4) by auto
  have q: "ancestor st p (nHeight c) = Some q" using ancestor_pprev [OF assms(1-3)] h by simp
  have "ancestor st q (int i) = ancestor st p (int i)" if "i < nat (nHeight c) + 1" for i
    using that h by (intro ancestor_trans [OF assms(1,2) q]) auto
  then have m: "path_to st q c = map (\<lambda>i. ancestor st p (int i)) [0..<nat (nHeight c) + 1]"
    unfolding path_to_def by (intro map_cong) auto
  have "nat (nHeight b) + 1 = Suc (nat (nHeight c) + 1)" "int (nat (nHeight c) + 1) = nHeight b"
    using h by linarith+
  moreover have "ancestor st p (nHeight b) = Some p" using assms(2) h by (simp add: ancestor_def)
  ultimately have "path_to st p b = map (\<lambda>i. ancestor st p (int i)) [0..<nat (nHeight c) + 1] @ [Some p]"
    unfolding path_to_def by (simp only: upt_Suc_append [OF le0] map_append list.map)
  then show ?thesis by (simp only: m)
qed

lemma blocks_to_step:
  assumes "index_ok st" "st p = Some b" "pprev b = Some q" "st q = Some c"
  shows "blocks_to st p b = blocks_to st q c @ (if has_data st p then [p] else [])"
proof -
  have "path_to st q c \<noteq> []" using length_path_to [of st q c] by (metis add_is_0 length_0_conv one_neq_zero)
  then show ?thesis by (simp add: blocks_to_def path_to_step [OF assms])
qed

lemma repair_loop_store:
  assumes "index_ok st" "st p = Some b" "nat (nHeight b) < fuel" "complete_dbs dbs"
    and "list_all (replayable env st) (blocks_to st p b)"
  shows "repair_loop env st (ancestor st p 0) fuel (Some p) dbs =
    (fold store (concat (map (block_tickets env st) (rev (blocks_to st p b)))) dbs, Some ())"
  using assms(2-)
proof (induction fuel arbitrary: p b dbs)
  case (Suc fuel)
  show ?case
  proof (cases "pprev b")
    case None
    then have h: "nHeight b = 0" using assms(1) Suc.prems(1) unfolding index_ok_def by force
    then have "ancestor st p 0 = Some p" using Suc.prems(1) by (simp add: ancestor_def)
    then show ?thesis using h by (simp add: blocks_to_def path_to_def)
  next
    case (Some q)
    then obtain c where c: "st q = Some c" "nHeight b = nHeight c + 1"
      using index_okD(2) [OF assms(1) Suc.prems(1)] by blast
    have hc: "0 \<le> nHeight c" by (rule index_okD(1) [OF assms(1) c(1)])
    note step = blocks_to_step [OF assms(1) Suc.prems(1) Some c(1)]
    have g: "ancestor st q 0 = ancestor st p 0"
      using ancestor_trans [OF assms(1) Suc.prems(1) ancestor_pprev [OF assms(1) Suc.prems(1) Some], of 0] c hc by simp
    obtain r d where "ancestor st p 0 = Some r" "st r = Some d" "nHeight d = 0"
      using ancestor_Some [OF assms(1) Suc.prems(1), of 0] c hc by auto
    then have ne: "Some p \<noteq> ancestor st p 0" using Suc.prems(1) c hc by auto
    let ?dbs = "if has_data st p then fold store (block_tickets env st p) dbs else dbs"
    have "repair_loop env st (ancestor st q 0) fuel (Some q) ?dbs =
        (fold store (concat (map (block_tickets env st) (rev (blocks_to st q c)))) ?dbs, Some ())"
      using Suc.prems c hc step by (intro Suc.IH [OF c(1)]) (auto simp: complete_fold_store)
    moreover have "has_data st p \<Longrightarrow> replayable env st p" using Suc.prems(4) step by simp
    ultimately show ?thesis
      using ne g Suc.prems(1,3) Some step UpdatedBlockTip_store [of dbs env st p b]
      by (auto simp: has_data_def)
  qed
qed simp

lemma rev_concat_rev: "rev (concat (map f (rev xs))) = concat (map (rev \<circ> f) xs)"
  by (induction xs) simp_all

lemma path_to_ends:
  assumes "st p = Some b" "0 \<le> nHeight b"
  shows "path_to st p b ! 0 = ancestor st p 0" "path_to st p b ! nat (nHeight b) = Some p"
  using assms path_to_nth [of 0 b st p] path_to_nth [of "nat (nHeight b)" b st p] by (simp_all add: ancestor_def)

text \<open>
  C18. Repairing replays the chain from the tip down, so the earliest ticket wins: it ends, and a
  primary key then leads to the ticket of the lowest block above genesis that has it (the last one
  of that block), whatever later blocks and the database held. Connecting the same blocks one by
  one leaves the ticket of the highest block instead.
\<close>

theorem RepairTicketDB_earliest:
  assumes "index_ok st" "st p = Some b" "vChain c = path_to st p b" "complete_dbs dbs" "plain_key k"
    and "list_all (replayable env st) (blocks_to st p b)"
  shows "snd (RepairTicketDB env st c dbs) = Some () \<and>
    ticket_at (fst (RepairTicketDB env st c dbs)) i k =
      (case find (has_key i k) (concat (map (rev \<circ> block_tickets env st) (blocks_to st p b))) of
         Some t \<Rightarrow> Some t | None \<Rightarrow> ticket_at dbs i k)"
proof -
  have h: "0 \<le> nHeight b" by (rule index_okD(1) [OF assms(1,2)])
  have "RepairTicketDB env st c dbs = repair_loop env st (ancestor st p 0) (nat (nHeight b) + 1) (Some p) dbs"
    using path_to_ends [of st p b] assms(2) h by (simp add: RepairTicketDB_def Tip_def Genesis_def assms(3))
  also have "\<dots> = (fold store (concat (map (block_tickets env st) (rev (blocks_to st p b)))) dbs, Some ())"
    using assms by (intro repair_loop_store) simp_all
  finally show ?thesis by (simp add: ticket_at_fold_store [OF assms(4,5)] rev_concat_rev)
qed

section \<open>From the sender to the database\<close>

lemma db_run_complete: "db_run dbs \<Longrightarrow> complete_dbs dbs"
proof (induction rule: db_run.induct)
  case (update dbs t txid h dbs' t')
  then show ?case using UpdateDB_store [of dbs t txid h] complete_store by auto
qed (auto simp: complete_dbs_def InitTicketDB_def EraseTicketFromDB_def split: option.splits)

text \<open>
  C5. A ticket that one node sends is found by every node that has connected its block: when
  \<open>SendTicket\<close> succeeds and the receiving node reads the serialized ticket as \<open>t\<close>, processing the
  transaction at height \<open>h\<close> succeeds, and looking the ticket up by its primary key gives \<open>t\<close> with
  the transaction id and the height set. As for pre-parsing, no coin of the sender's wallet and no extra
  output may be a bare multisignature.
\<close>

theorem sent_ticket_found:
  assumes "SendTicket env tv (extra, amount) i ticket price addr = Inr tx" "zstd_laws (env_zstd env)"
    and "length ticket < 2 ^ 59" "vin (env_new_tx env) = []" "0 \<le> price" "price * COIN < 2 ^ 63"
    and "list_all (\<lambda>c. \<not> is_multisig (env_datacarrier env) (env_maxdata env) (scriptPubKey (out_txout c))) (env_coins env)"
    and "list_all (\<lambda>out. \<not> is_multisig (env_datacarrier env) (env_maxdata env) (scriptPubKey out)) extra"
    and "pr_zstd pe = env_zstd env" "pr_datacarrier pe = env_datacarrier env" "pr_maxdata pe = env_maxdata env"
    and "pr_Hash pe = env_Hash env" "pr_unser pe (CreateTicket i) ticket = Inr t" "db_run dbs"
    and "plain_key (KeyOne t)" "visible x (stamped (txid_of pe tx) h (stored_part t))"
  shows "\<exists>dbs'. ParseTicketAndUpdateDB pe tx h dbs = (dbs', Some True) \<and>
    FindTicket x dbs' (stored_part t) = Some (stamped (txid_of pe tx) h (stored_part t))"
proof -
  let ?t = "stored_part t"
  have f: "KeyOne ?t = KeyOne t" by (simp add: stored_part_def CPastelTicket.truncate_def)
  obtain s k where "pre_parse pe tx = (Inr (i, s), k, price * COIN)" "content s = ticket"
    using SendTicket_parsed [OF assms(1-8), of CCompressedDataStream_new] assms(9-12) by (auto simp: pre_parse_def)
  then have u: "ParseTicketAndUpdateDB pe tx h dbs =
      (case UpdateDB ?t (txid_of pe tx) h dbs of None \<Rightarrow> (dbs, Some False) | Some (dbs', _) \<Rightarrow> (dbs', Some True))"
    using assms(13) by (simp add: ParseTicketAndUpdateDB_def Let_def)
  obtain db where "dbs (tk_ID ?t) = Some db" using db_run_complete [OF assms(14)] by (auto simp: complete_dbs_def)
  from UpdateDB_found [OF assms(14) this _ assms(16)] assms(15) f u show ?thesis by auto
qed

section \<open>From the sender to validation\<close>

lemma setValid_not_invalid: "\<not> IsNotValid setValid"
  by (simp add: IsNotValid_def setValid_def)

lemma ValidateTicketFees_setValid: "ValidateTicketFees h outs t = Some tv \<Longrightarrow> IsNotValid tv \<longleftrightarrow> tv \<noteq> setValid"
  by (auto simp: ValidateTicketFees_def Let_def IsNotValid_def setValid_def tv_invalid_def split: option.splits sum.splits if_splits)

text \<open>
  C13. A node's own rules decide about a ticket that another node sends: when \<open>SendTicket\<close> succeeds with the
  price and the extra outputs that the ticket itself asks for, and the receiving node reads the serialized ticket as \<open>t\<close>,
  then validating the transaction there accepts it if and only if the rules of the ticket's class accept \<open>t\<close>
  with the transaction id, the height, the number of fake outputs and the price set; pre-parsing,
  unserializing and the fee check never reject it. The exceptions are those of the fee check: a take-down ticket needs a change of
  zero, and an activation ticket with a storage fee of zero is always rejected. The ticket has fewer bytes than its price
  has patoshis, no coin of the wallet and no extra output is a bare multisignature, and what the fee check
  reads of the ticket (\<open>ft\<close>) does not depend on the fields that are kept in memory only.
\<close>

theorem sent_ticket_valid_iff:
  assumes "SendTicket env tv (extra, amount) i ticket price addr = Inr tx" "zstd_laws (env_zstd env)"
    and "length ticket < 2 ^ 59" "vin (env_new_tx env) = []" "int (length ticket) + 74 \<le> price * COIN" "price * COIN < 2 ^ 63"
    and "list_all (\<lambda>c. \<not> is_multisig (env_datacarrier env) (env_maxdata env) (scriptPubKey (out_txout c))) (env_coins env)"
    and "list_all (\<lambda>out. \<not> is_multisig (env_datacarrier env) (env_maxdata env) (scriptPubKey out)) extra"
    and "pr_zstd pe = env_zstd env" "pr_datacarrier pe = env_datacarrier env" "pr_maxdata pe = env_maxdata env"
    and "pr_Hash pe = env_Hash env" "pr_unser pe (CreateTicket i) ticket = Inr t"
    and "\<forall>s k fee. pr_fees pe (set_sizes s (set_multisig k fee (t\<lparr>m_txid := txid_of pe tx, m_nBlock := h\<rparr>))) = ft"
    and "ft_id ft = i" "price = TicketPricePSL ft h" "GetExtraOutputs D h' q ft = Inr (extra, amount)"
    and "i = Transfer \<longrightarrow> offer_askedPrice q = Some (ft_pricePSL ft)"
  shows "ValidateIfTicketTransaction pe origin h tx prev = Returns setValid \<longleftrightarrow>
    \<not> IsNotValid (pr_IsValid pe origin prev
        (set_multisig (fst (snd (pre_parse pe tx))) (price * COIN) (t\<lparr>m_txid := txid_of pe tx, m_nBlock := h\<rparr>))) \<and>
    (if i = Down then nValue (vout tx ! fst (snd (pre_parse pe tx))) = 0 else is_activation i \<longrightarrow> ft_storageFee ft \<noteq> 0)"
proof -
  have 0: "0 \<le> price" using assms(5) by (simp add: COIN_def)
  obtain s b st where p: "pre_parse pe tx = (Inr (i, s), length (m_vOutScripts b), price * COIN)" "content s = ticket"
    and b: "BuildTransaction (env_fees env) (env_datacarrier env) (env_maxdata env) (env_Hash160 env) b (env_new_tx env) (env_coins env) = Inr st"
      "m_vOutScripts b \<noteq> []" "length (m_vOutScripts b) \<le> length ticket + 74" "m_nPriceInPSL b = price" "m_vExtraOutputs b = extra"
      "m_nExtraAmountInPat b = amount" "vout tx = vout (tx_out st)"
    using SendTicket_parsed [OF assms(1-4) 0 assms(6-8), of CCompressedDataStream_new] assms(9-12) by (auto simp: pre_parse_def)
  let ?t = "set_multisig (length (m_vOutScripts b)) (price * COIN) (t\<lparr>m_txid := txid_of pe tx, m_nBlock := h\<rparr>)"
  have "ValidateTicketFees h (vout tx) ft = Some setValid \<longleftrightarrow>
      (if ft_id ft = Down then nValue (vout tx ! length (m_vOutScripts b)) = 0 else is_activation (ft_id ft) \<longrightarrow> ft_storageFee ft \<noteq> 0)"
    unfolding b(7) using assms(3-6,15-18) b(2-6) by (intro BuildTransaction_fees_valid_iff [OF b(1)]) auto
  moreover have "ValidateIfTicketTransaction pe origin h tx prev = Returns setValid \<longleftrightarrow>
      \<not> IsNotValid (pr_IsValid pe origin prev ?t) \<and> ValidateTicketFees h (vout tx) ft = Some setValid"
    using ValidateTicketFees_setValid [of h "vout tx" ft] assms(13,14) p
    by (auto simp: ValidateIfTicketTransaction_def Let_def setValid_not_invalid split: option.splits if_splits)
  ultimately show ?thesis using p(1) assms(15) by simp
qed

section \<open>Instances\<close>

text \<open>A node that reads every ticket as the same offer, and a chain of three blocks that carry one.\<close>

definition sample_tx :: CMutableTransaction where
  "sample_tx = (case SendTicket sample_env setValid ([], 0) Offer (replicate 120 0) 1 None of
     Inr tx \<Rightarrow> tx | Inl _ \<Rightarrow> CMutableTransaction_default)"

definition sample_loaded :: loaded_ticket where
  "sample_loaded = CPastelTicket.extend sample_ticket
     \<lparr>m_nSerializedSize = 120, m_nCompressedSize = 0, m_nMultiSigOutputsCount = 0, m_nMultiSigTxTotalFee = 0\<rparr>"

definition sample_processor :: processor_env where
  "sample_processor = \<lparr>pr_zstd = zeros_zstd, pr_datacarrier = True, pr_maxdata = 80, pr_Hash = (\<lambda>_. 5),
     pr_GetHash = (\<lambda>_. 9), pr_GetHex = (\<lambda>_. ''tx''), pr_unser = (\<lambda>_ _. Inr sample_loaded),
     pr_IsValid = (\<lambda>_ _ _. setValid), pr_fees = (\<lambda>_. undefined), pr_tx = (\<lambda>_. None),
     pr_block = (\<lambda>p. if p = 2 \<or> p = 3 then Some [sample_tx] else None), pr_nTx = (\<lambda>_. 1)\<rparr>"

definition data_block :: "uint256 option \<Rightarrow> int \<Rightarrow> CBlockIndex" where
  "data_block prev h = \<lparr>pprev = prev, pskip = None, nHeight = h, nStatus = BLOCK_HAVE_DATA, bi_nTime = 0\<rparr>"

definition data_index :: block_map where
  "data_index = [1 \<mapsto> data_block None 0, 2 \<mapsto> data_block (Some 1) 1, 3 \<mapsto> data_block (Some 2) 2]"

definition data_chain :: CChain where
  "data_chain = \<lparr>vChain = [Some 1, Some 2, Some 3], gl_nChainHeight = 2\<rparr>"

lemma data_index_ok: "index_ok data_index"
  by (auto simp: index_ok_def data_index_def data_block_def split: if_splits)

lemma sample_sent:
  "SendTicket sample_env setValid ([], 0) Offer (replicate 120 0) 1 None = Inr sample_tx"
  "list_all (\<lambda>c. \<not> is_multisig True 80 (scriptPubKey (out_txout c))) sample_coins"
proof -
  let ?r = "SendTicket sample_env setValid ([], 0) Offer (replicate 120 0) 1 None"
  have "\<not> isl ?r" by code_simp
  then show "?r = Inr sample_tx" by (cases ?r) (simp_all add: sample_tx_def)
  show "list_all (\<lambda>c. \<not> is_multisig True 80 (scriptPubKey (out_txout c))) sample_coins" by code_simp
qed

lemma sample_pre_parse: "\<exists>s k fee. pre_parse sample_processor sample_tx = (Inr (Offer, s), k, fee)"
  using SendTicket_parsed [OF sample_sent(1), of CCompressedDataStream_new] sample_sent(2) zeros_zstd_laws
  by (auto simp: pre_parse_def sample_processor_def sample_env_def CMutableTransaction_default_def COIN_def)

lemma sample_stored:
  "stored_part sample_loaded = sample_ticket" "KeyOne sample_loaded = ''k1''" "KeyOne sample_ticket = ''k1''"
  "txid_of sample_processor sample_tx = ''tx''"
  by (simp_all add: stored_part_def sample_loaded_def CPastelTicket.truncate_def CPastelTicket.extend_def
      sample_ticket_def txid_of_def sample_processor_def)

lemma sample_key: "plain_key ''k1''" "has_key Offer ''k1'' (stamped x h sample_ticket)"
  by (code_simp, simp add: has_key_def sample_ticket_def stamped_def Let_def)

lemma sample_ticket_in: "ticket_in sample_processor h sample_tx = Some (stamped ''tx'' h sample_ticket)"
proof -
  have "pr_unser sample_processor c d = Inr sample_loaded" for c d by (simp add: sample_processor_def)
  then show ?thesis using sample_pre_parse sample_stored by (auto simp: ticket_in_def)
qed

lemma sample_block_txs: "block_txs sample_processor 2 = [sample_tx]" "block_txs sample_processor 3 = [sample_tx]"
  by (simp_all add: block_txs_def sample_processor_def)

lemma sample_block_tickets:
  "block_tickets sample_processor data_index 2 = [stamped ''tx'' 1 sample_ticket]"
  "block_tickets sample_processor data_index 3 = [stamped ''tx'' 2 sample_ticket]"
  by (simp_all add: block_tickets_def sample_block_txs sample_ticket_in map_filter_simps data_index_def data_block_def)

lemma sample_replayable: "replayable sample_processor data_index 2" "replayable sample_processor data_index 3"
  using sample_pre_parse
  by (auto simp: replayable_def sample_block_tickets sample_block_txs sample_stored sample_key)

lemma data_chain_path:
  "data_index 3 = Some (data_block (Some 2) 2)"
  "vChain data_chain = path_to data_index 3 (data_block (Some 2) 2)"
  "blocks_to data_index 3 (data_block (Some 2) 2) = [2, 3]"
  by code_simp+

lemma complete_InitTicketDB: "complete_dbs InitTicketDB"
  by (simp add: complete_dbs_def InitTicketDB_def)

theorem UpdatedBlockTip_latest_witness:
  "ticket_at (fst (UpdatedBlockTip sample_processor data_index (Some 3) InitTicketDB)) Offer ''k1'' =
     Some (stamped ''tx'' 2 sample_ticket)"
  using UpdatedBlockTip_latest [OF complete_InitTicketDB sample_replayable(2) data_chain_path(1) sample_key(1), of Offer]
  by (simp add: sample_block_tickets sample_key)

theorem RepairTicketDB_earliest_witness:
  "ticket_at (fst (RepairTicketDB sample_processor data_index data_chain InitTicketDB)) Offer ''k1'' =
     Some (stamped ''tx'' 1 sample_ticket)"
  using RepairTicketDB_earliest [OF data_index_ok data_chain_path(1,2) complete_InitTicketDB sample_key(1),
      of sample_processor Offer]
  by (simp add: data_chain_path sample_replayable sample_block_tickets sample_key)

text \<open>An offer sent for its price by a wallet with one coin, to nodes whose rules accept and reject it.\<close>

definition offer_env :: ticket_env where
  "offer_env = sample_env\<lparr>env_coins := [\<lparr>out_txid = 1, out_i = 0, out_txout = \<lparr>nValue = 2000000, scriptPubKey = [OP_DUP]\<rparr>, fSpendable = True\<rparr>]\<rparr>"

definition offer_fees :: fee_ticket where
  "offer_fees = sample_transfer\<lparr>ft_id := Offer\<rparr>"

definition offer_processor :: "ticket_validation_t \<Rightarrow> processor_env" where
  "offer_processor tv = sample_processor\<lparr>pr_fees := (\<lambda>_. offer_fees), pr_IsValid := (\<lambda>_ _ _. tv)\<rparr>"

lemma offer_sent:
  "\<exists>tx. SendTicket offer_env setValid ([], 0) Offer (replicate 120 0) 10 None = Inr tx"
  "list_all (\<lambda>c. \<not> is_multisig True 80 (scriptPubKey (out_txout c))) (env_coins offer_env)"
  "TicketPricePSL offer_fees 7 = 10"
proof -
  let ?r = "SendTicket offer_env setValid ([], 0) Offer (replicate 120 0) 10 None"
  have "\<not> isl ?r" by code_simp
  then show "\<exists>tx. ?r = Inr tx" by (cases ?r) simp_all
  show "list_all (\<lambda>c. \<not> is_multisig True 80 (scriptPubKey (out_txout c))) (env_coins offer_env)" "TicketPricePSL offer_fees 7 = 10" by code_simp+
qed

theorem sent_ticket_valid_iff_witness:
  "\<exists>tx. SendTicket offer_env setValid ([], 0) Offer (replicate 120 0) 10 None = Inr tx \<and>
     ValidateIfTicketTransaction (offer_processor setValid) 0 7 tx None = Returns setValid \<and>
     ValidateIfTicketTransaction (offer_processor (tv_invalid ''unknown item'')) 0 7 tx None \<noteq> Returns setValid"
proof -
  obtain tx where tx: "SendTicket offer_env setValid ([], 0) Offer (replicate 120 0) 10 None = Inr tx" using offer_sent(1) by blast
  have "ValidateIfTicketTransaction (offer_processor tv) 0 7 tx None = Returns setValid \<longleftrightarrow> \<not> IsNotValid tv" for tv
    using sent_ticket_valid_iff [OF tx, of "offer_processor tv" sample_loaded 7 offer_fees _ _ sample_parties 0 None] zeros_zstd_laws offer_sent(2,3)
    by (simp add: offer_env_def offer_processor_def sample_env_def sample_processor_def CMutableTransaction_default_def COIN_def offer_fees_def
        GetExtraOutputs_def is_activation_def)
  then show ?thesis using tx setValid_not_invalid by (auto simp: IsNotValid_def tv_invalid_def)
qed

theorem sent_ticket_found_witness:
  "\<exists>dbs'. ParseTicketAndUpdateDB sample_processor sample_tx 7 InitTicketDB = (dbs', Some True)
     \<and> FindTicket sample_context dbs' sample_ticket = Some (stamped ''tx'' 7 sample_ticket)"
  using sent_ticket_found [OF sample_sent(1), of sample_processor sample_loaded InitTicketDB sample_context 7]
    zeros_zstd_laws sample_sent(2) sample_stored sample_key sample_visible db_run.start
  by (simp add: sample_env_def sample_processor_def CMutableTransaction_default_def COIN_def)

end
