(* ===== verification/TicketMempool.thy ===== *)
theory TicketMempool
  imports TicketTracker TicketProcessor
begin

text \<open>
  Tickets in the memory pool (\<open>mnode/ticket-mempool-processor.cpp\<close>) on top of the tracker and
  the look-up of the pool (\<open>CTxMemPool::batch_lookup\<close>). A ticket object is held by a unique
  pointer; pointers are the addresses of the objects, so that the owner of an object can be
  spoken of. The pool maps ids to transactions and entry heights.
\<close>

section \<open>State and operations\<close>

type_synonym tx_pool = "uint256 \<rightharpoonup> CMutableTransaction \<times> u32"

definition batch_lookup :: "uint256 list \<Rightarrow> tx_pool \<Rightarrow> (CMutableTransaction \<times> u32) list" where
  "batch_lookup vTxid mapTx = List.map_filter mapTx vTxid"

record CPastelTicketMemPoolProcessor =
  m_TicketID :: TicketID
  m_vTicket :: "(nat \<times> loaded_ticket) list"

definition mempool_processor :: "TicketID \<Rightarrow> CPastelTicketMemPoolProcessor" where
  "mempool_processor ticket_id = \<lparr>m_TicketID = ticket_id, m_vTicket = []\<rparr>"

text \<open>
  One transaction: \<open>Inl\<close> for an exception, \<^const>\<open>None\<close> for one that is skipped. The stream is cleared
  before each transaction; what \<open>clear\<close> keeps of it is overwritten before it is read.
\<close>

definition mempool_ticket ::
  "processor_env \<Rightarrow> TicketID \<Rightarrow> CMutableTransaction \<times> u32 \<Rightarrow> unit + loaded_ticket option" where
  "mempool_ticket env ticket_id entry =
     (case entry of (tx, nBlockHeight) \<Rightarrow>
       (case pre_parse env tx of
          (Inl PreParseThrows, _, _) \<Rightarrow> Inl ()
        | (Inl e, _, _) \<Rightarrow> Inr None
        | (Inr (i, data_stream), nCount, nFee) \<Rightarrow>
            if i \<noteq> ticket_id then Inr None
            else case pr_unser env (CreateTicket i) (content data_stream) of
                   Inl _ \<Rightarrow> Inl ()
                 | Inr ticket \<Rightarrow>
                     Inr (Some (set_sizes data_stream (set_multisig nCount nFee
                       (ticket\<lparr>m_txid := txid_of env tx, m_nBlock := nBlockHeight\<rparr>))))))"

text \<open>\<open>alloc\<close> is the address that the next object gets; \<^const>\<open>None\<close> is an exception.\<close>

fun initialize_loop ::
  "processor_env \<Rightarrow> (CMutableTransaction \<times> u32) list \<Rightarrow> nat \<Rightarrow> CPastelTicketMemPoolProcessor \<Rightarrow>
   CPastelTicketMemPoolProcessor option" where
  "initialize_loop env [] alloc s = Some s"
| "initialize_loop env (entry # entries) alloc s =
     (case mempool_ticket env (m_TicketID s) entry of
        Inl _ \<Rightarrow> None
      | Inr None \<Rightarrow> initialize_loop env entries alloc s
      | Inr (Some t) \<Rightarrow> initialize_loop env entries (alloc + 1) (s\<lparr>m_vTicket := m_vTicket s @ [(alloc, t)]\<rparr>))"

definition Initialize ::
  "processor_env \<Rightarrow> tx_pool \<Rightarrow> CTicketTxMemPoolTracker \<Rightarrow> nat \<Rightarrow> CPastelTicketMemPoolProcessor \<Rightarrow>
   CPastelTicketMemPoolProcessor option" where
  "Initialize env pool tracker alloc s =
     (let vTxid = getTicketTransactions (m_TicketID s) tracker
      in if vTxid = [] then Some s else initialize_loop env (batch_lookup vTxid pool) alloc s)"

text \<open>\<open>KeyTwo\<close> of a class without secondary key is the empty string.\<close>

definition key_two :: "loaded_ticket \<Rightarrow> string" where
  "key_two t = (case KeyTwo t of None \<Rightarrow> [] | Some k \<Rightarrow> k)"

definition mempool_FindTicket :: "CPastelTicketMemPoolProcessor \<Rightarrow> loaded_ticket \<Rightarrow> loaded_ticket option" where
  "mempool_FindTicket s ticket = map_option snd (find (\<lambda>(_, tkt). KeyOne ticket = KeyOne tkt) (m_vTicket s))"

definition mempool_FindTicketBySecondaryKey ::
  "CPastelTicketMemPoolProcessor \<Rightarrow> loaded_ticket \<Rightarrow> loaded_ticket option" where
  "mempool_FindTicketBySecondaryKey s ticket =
     (if KeyTwo ticket = None then None
      else map_option snd (find (\<lambda>(_, tkt). key_two ticket = key_two tkt) (m_vTicket s)))"

definition TicketExists :: "CPastelTicketMemPoolProcessor \<Rightarrow> string \<Rightarrow> bool" where
  "TicketExists s sKeyOne \<longleftrightarrow> list_ex (\<lambda>(_, tkt). sKeyOne = KeyOne tkt) (m_vTicket s)"

definition TicketExistsBySecondaryKey :: "CPastelTicketMemPoolProcessor \<Rightarrow> string \<Rightarrow> bool" where
  "TicketExistsBySecondaryKey s sKeyTwo \<longleftrightarrow> list_ex (\<lambda>(_, tkt). sKeyTwo = key_two tkt) (m_vTicket s)"

text \<open>
  The result vector gets a pointer per match: the object created for it is replaced by
  \<open>reset(tkt.get())\<close>, which makes the pointer own the object of the processor.
\<close>

definition ListTickets ::
  "CPastelTicketMemPoolProcessor \<Rightarrow> string \<Rightarrow> string option \<Rightarrow> (nat \<times> loaded_ticket) list \<Rightarrow>
   (nat \<times> loaded_ticket) list \<times> bool" where
  "ListTickets s sKeyOne psKeyTwo vTicket =
     (let vTicket = vTicket @ filter (\<lambda>(_, tkt). sKeyOne = KeyOne tkt \<and>
            (case psKeyTwo of None \<Rightarrow> True | Some k \<Rightarrow> k = key_two tkt)) (m_vTicket s)
      in (vTicket, vTicket \<noteq> []))"

section \<open>The processor sees the tickets of the pool\<close>

lemma initialize_loop_tickets:
  assumes "initialize_loop env entries alloc s = Some s'"
  shows "m_TicketID s' = m_TicketID s"
    and "map snd (m_vTicket s') = map snd (m_vTicket s) @
      List.map_filter (\<lambda>e. case mempool_ticket env (m_TicketID s) e of Inl _ \<Rightarrow> None | Inr r \<Rightarrow> r) entries"
  using assms
  by (induction env entries alloc s rule: initialize_loop.induct)
    (auto simp: map_filter_simps split: sum.splits option.splits)

lemma in_map_filter: "x \<in> set (List.map_filter f xs) \<longleftrightarrow> (\<exists>y \<in> set xs. f y = Some x)"
  by (force simp: map_filter_def image_iff)

lemma case_sum_Some: "(case r of Inl _ \<Rightarrow> None | Inr x \<Rightarrow> x) = Some t \<longleftrightarrow> r = Inr (Some t)"
  by (cases r) simp_all

lemma mempool_ticket_kind:
  "mempool_ticket env i (tx, h) = Inr (Some t) \<Longrightarrow>
   ticket_kind (pr_zstd env) (pr_datacarrier env) (pr_maxdata env) (pr_Hash env) tx = Some i"
  by (auto simp: mempool_ticket_def ticket_kind_def pre_parse_def
      split: prod.splits sum.splits preparse_error.splits if_splits)

lemma Initialize_tickets:
  assumes "pool_run (ticket_kind (pr_zstd env) (pr_datacarrier env) (pr_maxdata env) (pr_Hash env)) GetHash after
      (map_option fst \<circ> pool) tracker"
    and "Initialize env pool tracker alloc (mempool_processor i) = Some s"
  shows "snd ` set (m_vTicket s) =
    {t. \<exists>txid entry. pool txid = Some entry \<and> mempool_ticket env i entry = Inr (Some t)}" (is "_ = ?T")
proof -
  let ?kind = "ticket_kind (pr_zstd env) (pr_datacarrier env) (pr_maxdata env) (pr_Hash env)"
  let ?ids = "getTicketTransactions i tracker"
  have ids: "set ?ids = {t. Option.bind (map_option fst (pool t)) ?kind = Some i}"
    using tracks_transactions(1) [OF pool_run_tracks [OF assms(1)], of i] by simp
  have "initialize_loop env (batch_lookup ?ids pool) alloc (mempool_processor i) = Some s"
    using assms(2) by (auto simp: Initialize_def mempool_processor_def Let_def batch_lookup_def map_filter_simps split: if_splits)
  from initialize_loop_tickets(2) [OF this]
  have "snd ` set (m_vTicket s) =
      set (List.map_filter (\<lambda>e. case mempool_ticket env i e of Inl _ \<Rightarrow> None | Inr r \<Rightarrow> r) (batch_lookup ?ids pool))"
    by (simp add: mempool_processor_def flip: set_map)
  also have "\<dots> = {t. \<exists>txid \<in> set ?ids. \<exists>entry. pool txid = Some entry \<and> mempool_ticket env i entry = Inr (Some t)}"
    by (simp only: batch_lookup_def set_eq_iff in_map_filter case_sum_Some mem_Collect_eq Bex_def) blast
  also have "\<dots> = ?T"
  proof -
    have "txid \<in> set ?ids" if "pool txid = Some entry" "mempool_ticket env i entry = Inr (Some t)" for txid entry t
      using that mempool_ticket_kind [of env i "fst entry" "snd entry" t] by (simp add: ids)
    then show ?thesis by blast
  qed
  finally show ?thesis .
qed

text \<open>
  C23. The key check against the memory pool is exact: after any sequence of pool notifications, a
  processor initialized for a kind reports a primary key as taken exactly when some transaction in
  the pool carries a ticket of that kind with that key.
\<close>

theorem TicketExists_iff_pool:
  assumes "pool_run (ticket_kind (pr_zstd env) (pr_datacarrier env) (pr_maxdata env) (pr_Hash env)) GetHash after
      (map_option fst \<circ> pool) tracker"
    and "Initialize env pool tracker alloc (mempool_processor i) = Some s"
  shows "TicketExists s k \<longleftrightarrow>
    (\<exists>txid entry t. pool txid = Some entry \<and> mempool_ticket env i entry = Inr (Some t) \<and> KeyOne t = k)"
proof -
  have "TicketExists s k \<longleftrightarrow> (\<exists>t \<in> snd ` set (m_vTicket s). KeyOne t = k)"
    by (force simp: TicketExists_def list_ex_iff)
  then show ?thesis unfolding Initialize_tickets [OF assms] by blast
qed

text \<open>
  Every ticket that listing the pool's tickets returns is owned twice: the address in the
  result is one of the addresses the processor still owns, so that destroying both destroys the
  object two times.
\<close>

lemma ListTickets_shares_ownership:
  "fst ` set (fst (ListTickets s sKeyOne psKeyTwo [])) \<subseteq> fst ` set (m_vTicket s)
   \<and> (snd (ListTickets s sKeyOne None []) \<longleftrightarrow> TicketExists s sKeyOne)"
  by (auto simp: ListTickets_def TicketExists_def Let_def list_ex_iff filter_empty_conv)

section \<open>Instances\<close>

theorem TicketExists_iff_pool_witness:
  "\<exists>s. Initialize sample_processor [9 \<mapsto> (sample_tx, 7)]
      (processTransaction (ticket_kind zeros_zstd True 80 (\<lambda>_. 5)) (\<lambda>_. 9) sample_tx tracker_new) 0
      (mempool_processor Offer) = Some s \<and> TicketExists s ''k1'' \<and> \<not> TicketExists s ''k2''"
proof -
  let ?kind = "ticket_kind zeros_zstd True 80 (\<lambda>_. 5)" and ?pool = "[9 \<mapsto> (sample_tx, 7 :: u32)]"
  let ?tracker = "processTransaction ?kind (\<lambda>_. 9) sample_tx tracker_new"
  have env: "pr_zstd sample_processor = zeros_zstd" "pr_datacarrier sample_processor" "pr_maxdata sample_processor = 80"
      "pr_Hash sample_processor = (\<lambda>_. 5)" "\<And>c d. pr_unser sample_processor c d = Inr sample_loaded"
    by (simp_all add: sample_processor_def)
  obtain st k fee where p: "pre_parse sample_processor sample_tx = (Inr (Offer, st), k, fee)"
    using sample_pre_parse by blast
  then have kind: "?kind sample_tx = Some Offer" using env by (simp add: ticket_kind_def pre_parse_def)
  obtain t where t: "mempool_ticket sample_processor Offer (sample_tx, 7) = Inr (Some t)" "KeyOne t = ''k1''"
    using p env by (simp add: mempool_ticket_def set_sizes_def set_multisig_def Let_def sample_stored)
  have "pool_run ?kind (\<lambda>_. 9) (\<lambda>_ _. None) (Map.empty(9 \<mapsto> sample_tx)) ?tracker"
    using pool_run.add [OF pool_run.start [of ?kind "\<lambda>_. 9" "\<lambda>_ _. None"], of sample_tx] by simp
  moreover have "map_option fst \<circ> ?pool = Map.empty(9 \<mapsto> sample_tx)" by (simp add: fun_eq_iff)
  ultimately have run: "pool_run ?kind (\<lambda>_. 9) (\<lambda>_ _. None) (map_option fst \<circ> ?pool) ?tracker" by simp
  have i: "Initialize sample_processor ?pool ?tracker 0 (mempool_processor Offer) =
      Some \<lparr>m_TicketID = Offer, m_vTicket = [(0, t)]\<rparr>" (is "_ = Some ?s")
    using kind t by (simp add: Initialize_def processTransaction_def tracker_new_def getTicketTransactions_def
        mempool_processor_def batch_lookup_def map_filter_simps)
  have "TicketExists ?s k \<longleftrightarrow> k = ''k1''" for k
    using TicketExists_iff_pool [of sample_processor "\<lambda>_. 9" "\<lambda>_ _. None" ?pool ?tracker 0 Offer ?s k] run i t env
    by (auto split: if_splits)
  with i show ?thesis by simp
qed

end
