(* ===== verification/MnodeSync.thy ===== *)
theory MnodeSync
  imports Consensus
begin

text \<open>
  Synchronization of the masternode data in stages (\<open>mnode/mnode-sync.cpp\<close>) and the record of the
  requests that peers have answered (\<open>mnode/mnode-requesttracker.cpp\<close>). The clock, the connected
  peers and what other components report are fields of the environment of a call; the clock stands
  still during a call. Messages and calls to other components are events. The two function-local
  static variables are fields of the state. Log output is left out.
\<close>

section \<open>The request tracker\<close>

type_synonym CNetAddr = bytes
type_synonym request_map = "(CNetAddr \<times> (string \<times> int) list) list"

definition requests_of :: "request_map \<Rightarrow> CNetAddr \<Rightarrow> (string \<times> int) list" where
  "requests_of m addr = (case map_of m addr of None \<Rightarrow> [] | Some e \<Rightarrow> e)"

definition AddFulfilledRequest :: "int \<Rightarrow> int \<Rightarrow> CNetAddr \<Rightarrow> string \<Rightarrow> request_map \<Rightarrow> request_map" where
  "AddFulfilledRequest now nFulfilledRequestExpireTime addr strRequest m =
     AList.update addr (AList.update strRequest (now + nFulfilledRequestExpireTime) (requests_of m addr)) m"

definition HasFulfilledRequest :: "int \<Rightarrow> CNetAddr \<Rightarrow> string \<Rightarrow> request_map \<Rightarrow> bool" where
  "HasFulfilledRequest now addr strRequest m =
     (case map_of m addr of None \<Rightarrow> False
      | Some e \<Rightarrow> (case map_of e strRequest of None \<Rightarrow> False | Some t \<Rightarrow> t > now))"

definition GetFulfilledRequestTime :: "CNetAddr \<Rightarrow> string \<Rightarrow> request_map \<Rightarrow> int" where
  "GetFulfilledRequestTime addr strRequest m =
     (case map_of m addr of None \<Rightarrow> -1
      | Some e \<Rightarrow> (case map_of e strRequest of None \<Rightarrow> -1 | Some t \<Rightarrow> t))"

definition RemoveFulfilledRequest :: "CNetAddr \<Rightarrow> string \<Rightarrow> request_map \<Rightarrow> request_map" where
  "RemoveFulfilledRequest addr strRequest m =
     (case map_of m addr of None \<Rightarrow> m | Some e \<Rightarrow> AList.update addr (AList.delete strRequest e) m)"

definition CheckAndRemove :: "int \<Rightarrow> request_map \<Rightarrow> request_map" where
  "CheckAndRemove now m =
     filter (\<lambda>(_, e). e \<noteq> []) (map (\<lambda>(addr, e). (addr, filter (\<lambda>(_, t). \<not> now > t) e)) m)"

definition tracker_Clear :: "request_map \<Rightarrow> request_map" where
  "tracker_Clear m = []"

section \<open>State\<close>

datatype MasternodeSyncState = Failed | Initial | Waiting | List | Winners | Governance | Finished

fun sync_integral :: "MasternodeSyncState \<Rightarrow> int" where
  "sync_integral Failed = -1"
| "sync_integral Initial = 0"
| "sync_integral Waiting = 1"
| "sync_integral List = 2"
| "sync_integral Winners = 3"
| "sync_integral Governance = 4"
| "sync_integral Finished = 999"

definition MasternodeSyncTickSeconds :: int where "MasternodeSyncTickSeconds = 6"
definition MasternodeSyncTimeoutSeconds :: int where "MasternodeSyncTimeoutSeconds = 30"

record CMasternodeSync =
  syncState :: MasternodeSyncState
  nRequestedMasternodeAttempt :: int
  nTimeAssetSyncStarted :: int
  nTimeLastBumped :: int
  nTimeLastFailure :: int
  nTimeLastProcess :: int
  nTimeLastSynced :: int
  nTimeIBDDone :: int
  nReSyncAttempt :: int
  nTick :: int
  fReachedBestHeader :: bool

record CNode =
  node_addr :: CNetAddr
  fMasternode :: bool
  fInbound :: bool

datatype sync_event =
    RelayScheduledMnb | RelayScheduledMnp | ManageState | ClearCache
  | Disconnect CNode | DsegUpdate CNode | PushPaymentSync CNode | RequestLowDataPaymentBlocks CNode
  | PushGovernanceSync CNode

record sync_world =
  w_sync :: CMasternodeSync
  w_tracker :: request_map
  w_events :: "sync_event list"

record sync_env =
  te_now :: int
  te_expire :: int
  te_nodes :: "CNode list"
  te_regtest :: bool
  te_masternode :: bool
  te_ibd :: bool
  te_enough :: bool
  te_check :: bool
  te_height :: u32
  te_top :: nat

definition IsFailed :: "CMasternodeSync \<Rightarrow> bool" where "IsFailed s \<longleftrightarrow> syncState s = Failed"
definition IsInitial :: "CMasternodeSync \<Rightarrow> bool" where "IsInitial s \<longleftrightarrow> syncState s = Initial"
definition IsSynced :: "CMasternodeSync \<Rightarrow> bool" where "IsSynced s \<longleftrightarrow> syncState s = Finished"
definition IsBlockchainSynced :: "CMasternodeSync \<Rightarrow> bool" where
  "IsBlockchainSynced s \<longleftrightarrow> sync_integral (syncState s) > sync_integral Waiting"
definition IsMasternodeListSynced :: "CMasternodeSync \<Rightarrow> bool" where
  "IsMasternodeListSynced s \<longleftrightarrow> sync_integral (syncState s) > sync_integral List"
definition IsWinnersListSynced :: "CMasternodeSync \<Rightarrow> bool" where
  "IsWinnersListSynced s \<longleftrightarrow> sync_integral (syncState s) > sync_integral Winners"
definition IsGovernanceSynced :: "CMasternodeSync \<Rightarrow> bool" where
  "IsGovernanceSynced s \<longleftrightarrow> sync_integral (syncState s) > sync_integral Governance"

definition emit :: "sync_event list \<Rightarrow> sync_world \<Rightarrow> sync_world" where
  "emit es w = w\<lparr>w_events := w_events w @ es\<rparr>"

definition with_sync :: "(CMasternodeSync \<Rightarrow> CMasternodeSync) \<Rightarrow> sync_world \<Rightarrow> sync_world" where
  "with_sync f w = w\<lparr>w_sync := f (w_sync w)\<rparr>"

section \<open>Operations\<close>

definition Fail :: "int \<Rightarrow> CMasternodeSync \<Rightarrow> CMasternodeSync" where
  "Fail now s = s\<lparr>nTimeLastFailure := now, syncState := Failed\<rparr>"

definition Reset :: "int \<Rightarrow> CMasternodeSync \<Rightarrow> CMasternodeSync" where
  "Reset now s = s\<lparr>syncState := Initial, nRequestedMasternodeAttempt := 0, nTimeAssetSyncStarted := now,
     nTimeLastBumped := now, nTimeLastFailure := 0, nTimeLastProcess := 0, nTimeLastSynced := 0,
     nTimeIBDDone := 0, nReSyncAttempt := 0\<rparr>"

definition CMasternodeSync_new :: "int \<Rightarrow> CMasternodeSync" where
  "CMasternodeSync_new now = \<lparr>syncState = Initial, nRequestedMasternodeAttempt = 0, nTimeAssetSyncStarted = now,
     nTimeLastBumped = now, nTimeLastFailure = 0, nTimeLastProcess = 0, nTimeLastSynced = 0,
     nTimeIBDDone = 0, nReSyncAttempt = 0, nTick = 0, fReachedBestHeader = False\<rparr>"

definition BumpAssetLastTime :: "int \<Rightarrow> CMasternodeSync \<Rightarrow> CMasternodeSync" where
  "BumpAssetLastTime now s = (if IsSynced s \<or> IsFailed s then s else s\<lparr>nTimeLastBumped := now\<rparr>)"

definition clear_node :: "CNode \<Rightarrow> request_map \<Rightarrow> request_map" where
  "clear_node n m =
     RemoveFulfilledRequest (node_addr n) ''full-sync''
       (RemoveFulfilledRequest (node_addr n) ''governance-payment-sync''
         (RemoveFulfilledRequest (node_addr n) ''masternode-payment-sync''
           (RemoveFulfilledRequest (node_addr n) ''masternode-list-sync'' m)))"

definition ClearFulfilledRequests :: "CNode list \<Rightarrow> request_map \<Rightarrow> request_map" where
  "ClearFulfilledRequests nodes m = fold clear_node nodes m"

text \<open>\<^const>\<open>None\<close> is the exception for a failed synchronization.\<close>

definition SwitchToNextAsset :: "sync_env \<Rightarrow> sync_world \<Rightarrow> sync_world option" where
  "SwitchToNextAsset env w =
     (let now = te_now env;
          next = (\<lambda>st w. with_sync (\<lambda>s. s\<lparr>syncState := st\<rparr>) w);
          clear = (\<lambda>w. w\<lparr>w_tracker := ClearFulfilledRequests (te_nodes env) (w_tracker w)\<rparr>);
          finish = (\<lambda>w. with_sync (\<lambda>s. BumpAssetLastTime now
                     (s\<lparr>nRequestedMasternodeAttempt := 0, nTimeAssetSyncStarted := now\<rparr>)) w)
      in case syncState (w_sync w) of
           Failed \<Rightarrow> None
         | Initial \<Rightarrow> Some (finish (next Waiting (clear w)))
         | Waiting \<Rightarrow> Some (finish (next List (clear w)))
         | List \<Rightarrow> Some (finish (next Winners w))
         | Winners \<Rightarrow> Some (finish (next Governance w))
         | Governance \<Rightarrow>
             let w = emit [RelayScheduledMnb, RelayScheduledMnp, ManageState] (next Finished w);
                 w = w\<lparr>w_tracker := fold (\<lambda>n. AddFulfilledRequest now (te_expire env) (node_addr n) ''full-sync'')
                         (te_nodes env) (w_tracker w)\<rparr>
             in Some (finish (with_sync (\<lambda>s. s\<lparr>nTimeLastSynced := now\<rparr>) w))
         | Finished \<Rightarrow> Some (finish w))"

definition CheckSyncTimeout :: "sync_env \<Rightarrow> sync_world \<Rightarrow> (sync_world \<times> bool) option" where
  "CheckSyncTimeout env w =
     (if te_now env - nTimeLastBumped (w_sync w) > MasternodeSyncTimeoutSeconds then
        if nRequestedMasternodeAttempt (w_sync w) = 0 then Some (with_sync (Fail (te_now env)) w, False)
        else map_option (\<lambda>w. (w, True)) (SwitchToNextAsset env w)
      else Some (w, True))"

subsection \<open>The peers\<close>

text \<open>What the body of the loop over the peers does next.\<close>

datatype peer_step = Continue sync_world | Return sync_world | PeerThrows

definition skip_peer :: "sync_env \<Rightarrow> CNode \<Rightarrow> bool" where
  "skip_peer env n \<longleftrightarrow> fMasternode n \<or> te_masternode env \<and> fInbound n"

definition has_request :: "sync_env \<Rightarrow> CNode \<Rightarrow> string \<Rightarrow> sync_world \<Rightarrow> bool" where
  "has_request env n r w = HasFulfilledRequest (te_now env) (node_addr n) r (w_tracker w)"

definition count_request :: "sync_env \<Rightarrow> CNode \<Rightarrow> string \<Rightarrow> sync_event list \<Rightarrow> sync_world \<Rightarrow> sync_world" where
  "count_request env n r es w =
     emit es (with_sync (\<lambda>s. s\<lparr>nRequestedMasternodeAttempt := nRequestedMasternodeAttempt s + 1\<rparr>)
       (w\<lparr>w_tracker := AddFulfilledRequest (te_now env) (te_expire env) (node_addr n) r (w_tracker w)\<rparr>))"

definition list_peer :: "sync_env \<Rightarrow> CNode \<Rightarrow> sync_world \<Rightarrow> peer_step" where
  "list_peer env n w =
     (case CheckSyncTimeout env w of
        None \<Rightarrow> PeerThrows
      | Some (w, False) \<Rightarrow> Return w
      | Some (w, True) \<Rightarrow>
          if has_request env n ''masternode-list-sync'' w then Continue w
          else Return (count_request env n ''masternode-list-sync'' [DsegUpdate n] w))"

definition winners_peer :: "sync_env \<Rightarrow> CNode \<Rightarrow> sync_world \<Rightarrow> peer_step" where
  "winners_peer env n w =
     (case CheckSyncTimeout env w of
        None \<Rightarrow> PeerThrows
      | Some (w, False) \<Rightarrow> Return w
      | Some (w, True) \<Rightarrow>
          if nRequestedMasternodeAttempt (w_sync w) > 1 \<and> te_enough env
          then case SwitchToNextAsset env w of None \<Rightarrow> PeerThrows | Some w \<Rightarrow> Return w
          else if has_request env n ''masternode-payment-sync'' w then Continue w
          else Return (count_request env n ''masternode-payment-sync''
                 [PushPaymentSync n, RequestLowDataPaymentBlocks n] w))"

text \<open>
  Without governance tickets the last branch is a conditional switch followed by an
  unconditional return.
\<close>

definition network_peer :: "sync_env \<Rightarrow> CNode \<Rightarrow> sync_world \<Rightarrow> peer_step" where
  "network_peer env n w =
     (if has_request env n ''full-sync'' w then Continue (emit [Disconnect n] w)
      else
        case (if syncState (w_sync w) = Waiting \<and>
                 te_now env - nTimeLastBumped (w_sync w) > MasternodeSyncTimeoutSeconds
              then SwitchToNextAsset env w else Some w) of
          None \<Rightarrow> PeerThrows
        | Some w \<Rightarrow>
            if syncState (w_sync w) = List then list_peer env n w
            else if syncState (w_sync w) = Winners then winners_peer env n w
            else if syncState (w_sync w) = Governance
            then case SwitchToNextAsset env w of None \<Rightarrow> PeerThrows | Some w \<Rightarrow> Return w
            else Return w)"

definition regtest_peer :: "CNode \<Rightarrow> sync_world \<Rightarrow> sync_world" where
  "regtest_peer n w =
     (let a = nRequestedMasternodeAttempt (w_sync w);
          set = (\<lambda>st es. emit es (with_sync (\<lambda>s. s\<lparr>syncState := st\<rparr>) w));
          w' = (if a \<le> 2 then w
                else if a < 4 then set List [DsegUpdate n]
                else if a < 6 then set Winners [PushPaymentSync n]
                else if a < 10 then set Governance [PushGovernanceSync n]
                else set Finished [])
      in with_sync (\<lambda>s. s\<lparr>nRequestedMasternodeAttempt := a + 1\<rparr>) w')"

fun sync_peers :: "sync_env \<Rightarrow> CNode list \<Rightarrow> sync_world \<Rightarrow> sync_world option" where
  "sync_peers env [] w = Some w"
| "sync_peers env (n # ns) w =
     (if skip_peer env n then sync_peers env ns w
      else if te_regtest env then Some (regtest_peer n w)
      else case network_peer env n w of
             Continue w \<Rightarrow> sync_peers env ns w
           | Return w \<Rightarrow> Some w
           | PeerThrows \<Rightarrow> None)"

subsection \<open>The timer\<close>

definition restart :: "sync_env \<Rightarrow> sync_world \<Rightarrow> sync_world option" where
  "restart env w = SwitchToNextAsset env (with_sync (Reset (te_now env)) w)"

text \<open>The check after synchronization; \<open>%\<close> is the remainder of truncating division.\<close>

definition check_synced :: "sync_env \<Rightarrow> sync_world \<Rightarrow> sync_world option" where
  "check_synced env w =
     (if \<not> te_check env then Some w
      else
        let MNSyncCheckInterval = 30;
            elapsed = te_now env - nTimeLastBumped (w_sync w);
            secsFromPrevious = elapsed - c_div elapsed (MNSyncCheckInterval * 60) * (MNSyncCheckInterval * 60)
        in if secsFromPrevious < 6 \<and> elapsed > MNSyncCheckInterval * 60 \<and> nReSyncAttempt (w_sync w) < 3 then
             if te_height env = 0 then Some w
             else if te_top env < 10 then
               let w = (if nReSyncAttempt (w_sync w) = 0 then emit [ClearCache] w else w);
                   w = with_sync (\<lambda>s. s\<lparr>nReSyncAttempt := nReSyncAttempt s + 1\<rparr>) w
               in restart env w
             else Some w
           else Some w)"

text \<open>\<^const>\<open>None\<close> is an exception.\<close>

definition sync_tick :: "sync_env \<Rightarrow> sync_world \<Rightarrow> sync_world option" where
  "sync_tick env w =
     (let now = te_now env; s = w_sync w
      in if nTimeLastProcess s \<noteq> 0 \<and> nTimeLastProcess s + 60 * 60 < now then restart env w
         else
           let w = with_sync (\<lambda>s. s\<lparr>nTimeLastProcess := now\<rparr>) w
           in if IsFailed s then (if nTimeLastFailure s + 60 < now then restart env w else Some w)
              else if IsSynced s then check_synced env w
              else if IsInitial s \<and> \<not> te_ibd env \<and> nTimeIBDDone s \<noteq> 0 \<and> now > nTimeIBDDone s + 10 * 60
              then restart env w
              else
                let w = (if IsInitial s \<and> \<not> te_ibd env \<and> nTimeIBDDone s = 0
                         then with_sync (\<lambda>s. s\<lparr>nTimeIBDDone := now\<rparr>) w else w)
                in sync_peers env (te_nodes env) w)"

definition ProcessTick :: "sync_env \<Rightarrow> sync_world \<Rightarrow> sync_world option" where
  "ProcessTick env w =
     (let t = nTick (w_sync w); w = with_sync (\<lambda>s. s\<lparr>nTick := t + 1\<rparr>) w
      in if t mod MasternodeSyncTickSeconds \<noteq> 0 then Some w else sync_tick env w)"

subsection \<open>Notifications\<close>

definition AcceptedBlockHeader :: "int \<Rightarrow> CMasternodeSync \<Rightarrow> CMasternodeSync" where
  "AcceptedBlockHeader now s = (if \<not> IsBlockchainSynced s then BumpAssetLastTime now s else s)"

definition NotifyHeaderTip :: "int \<Rightarrow> uint256 option \<Rightarrow> CMasternodeSync \<Rightarrow> CMasternodeSync" where
  "NotifyHeaderTip now pindexBestHeader s =
     (if IsFailed s \<or> IsSynced s \<or> pindexBestHeader = None then s
      else if \<not> IsBlockchainSynced s then BumpAssetLastTime now s else s)"

definition sync_UpdatedBlockTip ::
  "sync_env \<Rightarrow> uint256 option \<Rightarrow> uint256 option \<Rightarrow> bool \<Rightarrow> sync_world \<Rightarrow> sync_world option" where
  "sync_UpdatedBlockTip env pindexNew pindexBestHeader fInitialDownload w =
     (case pindexNew of None \<Rightarrow> Some w
      | Some p \<Rightarrow>
          if IsFailed (w_sync w) \<or> IsSynced (w_sync w) \<or> pindexBestHeader = None then Some w
          else
            let now = te_now env;
                w = (if \<not> IsBlockchainSynced (w_sync w) then with_sync (BumpAssetLastTime now) w else w)
            in if fInitialDownload then
                 Some (if IsBlockchainSynced (w_sync w) then with_sync (Reset now) w else w)
               else
                 let fReachedBestHeaderNew = (pindexBestHeader = Some p)
                 in if fReachedBestHeader (w_sync w) \<and> \<not> fReachedBestHeaderNew
                    then Some (with_sync (\<lambda>s. (Reset now s)\<lparr>fReachedBestHeader := False\<rparr>) w)
                    else
                      let w = with_sync (\<lambda>s. s\<lparr>fReachedBestHeader := fReachedBestHeaderNew\<rparr>) w
                      in if \<not> IsBlockchainSynced (w_sync w) \<and> fReachedBestHeaderNew
                         then SwitchToNextAsset env w else Some w)"

section \<open>Laws of the request tracker\<close>

definition req :: "request_map \<Rightarrow> CNetAddr \<Rightarrow> string \<Rightarrow> int option" where
  "req m a r = Option.bind (map_of m a) (\<lambda>e. map_of e r)"

lemma HasFulfilledRequest_req: "HasFulfilledRequest now a r m \<longleftrightarrow> (\<exists>t. req m a r = Some t \<and> t > now)"
  by (auto simp: HasFulfilledRequest_def req_def split: option.splits)

lemma req_Add: "req (AddFulfilledRequest now e a r m) b q = (if b = a \<and> q = r then Some (now + e) else req m b q)"
  by (auto simp: req_def AddFulfilledRequest_def requests_of_def al.get_put split: option.splits)

lemma req_Remove: "req (RemoveFulfilledRequest a r m) b q = (if b = a \<and> q = r then None else req m b q)"
  by (auto simp: req_def RemoveFulfilledRequest_def al.get_put al.get_del split: option.splits)

lemma req_clear_node:
  "req (clear_node n m) b q =
     (if b = node_addr n \<and> q \<in> {''full-sync'', ''governance-payment-sync'', ''masternode-payment-sync'', ''masternode-list-sync''}
      then None else req m b q)"
  by (auto simp: clear_node_def req_Remove)

lemma req_ClearFulfilledRequests:
  "q \<in> {''full-sync'', ''masternode-payment-sync'', ''masternode-list-sync''} \<Longrightarrow>
   req (ClearFulfilledRequests ns m) b q = (if b \<in> node_addr ` set ns then None else req m b q)"
  unfolding ClearFulfilledRequests_def by (induction ns arbitrary: m) (auto simp: req_clear_node)

section \<open>No call throws, and the retry counter never counts\<close>

lemmas sync_defs = with_sync_def emit_def Let_def BumpAssetLastTime_def IsSynced_def IsFailed_def IsInitial_def

lemma SwitchToNextAsset_Some:
  "syncState (w_sync w) \<noteq> Failed \<Longrightarrow> nReSyncAttempt (w_sync w) = 0 \<Longrightarrow>
   \<exists>w'. SwitchToNextAsset env w = Some w' \<and> nReSyncAttempt (w_sync w') = 0 \<and> syncState (w_sync w') \<noteq> Failed"
  by (cases "syncState (w_sync w)") (auto simp: SwitchToNextAsset_def sync_defs)

lemma restart_Some: "\<exists>w'. restart env w = Some w' \<and> nReSyncAttempt (w_sync w') = 0"
  using SwitchToNextAsset_Some [of "with_sync (Reset (te_now env)) w" env]
  by (auto simp: restart_def with_sync_def Reset_def)

lemma CheckSyncTimeout_Some:
  assumes "syncState (w_sync w) \<noteq> Failed" "nReSyncAttempt (w_sync w) = 0"
  shows "\<exists>w' b. CheckSyncTimeout env w = Some (w', b) \<and> nReSyncAttempt (w_sync w') = 0 \<and>
    (b \<longrightarrow> syncState (w_sync w') \<noteq> Failed)"
  using SwitchToNextAsset_Some [OF assms, of env] assms
  by (auto simp: CheckSyncTimeout_def Fail_def with_sync_def)

definition calm :: "sync_world \<Rightarrow> bool" where
  "calm w \<longleftrightarrow> nReSyncAttempt (w_sync w) = 0 \<and> syncState (w_sync w) \<noteq> Failed"

lemma count_request_calm: "calm (count_request env n r es w) = calm w"
  by (simp add: calm_def count_request_def sync_defs)

lemma list_peer_calm:
  assumes "calm w"
  shows "case list_peer env n w of Continue w' \<Rightarrow> calm w' | Return w' \<Rightarrow> nReSyncAttempt (w_sync w') = 0 | PeerThrows \<Rightarrow> False"
  using CheckSyncTimeout_Some [of w env] assms
  by (auto simp: calm_def list_peer_def count_request_def sync_defs split: bool.splits)

lemma winners_peer_calm:
  assumes "calm w"
  shows "case winners_peer env n w of Continue w' \<Rightarrow> calm w' | Return w' \<Rightarrow> nReSyncAttempt (w_sync w') = 0 | PeerThrows \<Rightarrow> False"
proof -
  obtain v b where c: "CheckSyncTimeout env w = Some (v, b)" "nReSyncAttempt (w_sync v) = 0" "b \<longrightarrow> calm v"
    using CheckSyncTimeout_Some [of w env] assms by (auto simp: calm_def)
  show ?thesis
  proof (cases b)
    case True
    then obtain u where "SwitchToNextAsset env v = Some u" "nReSyncAttempt (w_sync u) = 0"
      using SwitchToNextAsset_Some [of v env] c by (auto simp: calm_def)
    then show ?thesis using True c by (auto simp: winners_peer_def calm_def count_request_def sync_defs)
  qed (use c in \<open>simp add: winners_peer_def\<close>)
qed

lemma network_peer_calm:
  assumes "calm w"
  shows "case network_peer env n w of Continue w' \<Rightarrow> calm w' | Return w' \<Rightarrow> nReSyncAttempt (w_sync w') = 0 | PeerThrows \<Rightarrow> False"
proof -
  let ?x = "if syncState (w_sync w) = Waiting \<and> te_now env - nTimeLastBumped (w_sync w) > MasternodeSyncTimeoutSeconds
    then SwitchToNextAsset env w else Some w"
  have "\<exists>v. ?x = Some v \<and> calm v"
    using SwitchToNextAsset_Some [of w env] assms by (auto simp: calm_def)
  then obtain v where v: "?x = Some v" "calm v" by blast
  obtain u where u: "SwitchToNextAsset env v = Some u" "nReSyncAttempt (w_sync u) = 0"
    using SwitchToNextAsset_Some [of v env] v by (auto simp: calm_def)
  have e: "calm (emit es w)" for es using assms by (simp add: calm_def emit_def)
  show ?thesis
    unfolding network_peer_def v(1)
    using e list_peer_calm [OF v(2), of env n] winners_peer_calm [OF v(2), of env n] u v(2)
    by (simp add: calm_def)
qed

lemma sync_peers_calm: "calm w \<Longrightarrow> \<exists>w'. sync_peers env ns w = Some w' \<and> nReSyncAttempt (w_sync w') = 0"
proof (induction ns arbitrary: w)
  case (Cons n ns)
  have "nReSyncAttempt (w_sync (regtest_peer n w)) = 0"
    using Cons.prems by (simp add: regtest_peer_def calm_def sync_defs)
  then show ?case
    using Cons network_peer_calm [OF Cons.prems, of env n] by (auto split: peer_step.splits)
qed (simp add: calm_def)

lemma check_synced_Some:
  "nReSyncAttempt (w_sync w) = 0 \<Longrightarrow> \<exists>w'. check_synced env w = Some w' \<and> nReSyncAttempt (w_sync w') = 0"
  using restart_Some by (auto simp: check_synced_def Let_def)

lemma sync_tick_Some:
  assumes "nReSyncAttempt (w_sync w) = 0"
  shows "\<exists>w'. sync_tick env w = Some w' \<and> nReSyncAttempt (w_sync w') = 0"
proof -
  let ?w = "with_sync (\<lambda>s. s\<lparr>nTimeLastProcess := te_now env\<rparr>) w"
  let ?v = "if IsInitial (w_sync w) \<and> \<not> te_ibd env \<and> nTimeIBDDone (w_sync w) = 0
      then with_sync (\<lambda>s. s\<lparr>nTimeIBDDone := te_now env\<rparr>) ?w else ?w"
  have w: "nReSyncAttempt (w_sync ?w) = 0" using assms by (simp add: with_sync_def)
  have "calm ?v" if "\<not> IsFailed (w_sync w)" using assms that by (simp add: calm_def with_sync_def IsFailed_def)
  then show ?thesis
    unfolding sync_tick_def Let_def
    using restart_Some check_synced_Some [OF w] sync_peers_calm [of ?v] w by (simp split: if_split)
qed

text \<open>
  The states that the timer, the notifications, the other components and the commands \<open>mnsync next\<close> and
  \<open>mnsync reset\<close> can lead to. A command whose call throws leaves the state as it was.
\<close>

inductive sync_run :: "sync_world \<Rightarrow> bool" where
  start: "sync_run \<lparr>w_sync = CMasternodeSync_new now, w_tracker = m, w_events = []\<rparr>"
| tick: "sync_run w \<Longrightarrow> ProcessTick env w = Some w' \<Longrightarrow> sync_run w'"
| header: "sync_run w \<Longrightarrow> sync_run (with_sync (AcceptedBlockHeader now) w)"
| header_tip: "sync_run w \<Longrightarrow> sync_run (with_sync (NotifyHeaderTip now best) w)"
| block_tip: "sync_run w \<Longrightarrow> sync_UpdatedBlockTip env new best ibd w = Some w' \<Longrightarrow> sync_run w'"
| bump: "sync_run w \<Longrightarrow> sync_run (with_sync (BumpAssetLastTime now) w)"
| reset: "sync_run w \<Longrightarrow> sync_run (with_sync (Reset now) w)"
| next_asset: "sync_run w \<Longrightarrow> SwitchToNextAsset env w = Some w' \<Longrightarrow> sync_run w'"
| tracker: "sync_run w \<Longrightarrow> sync_run (w\<lparr>w_tracker := m\<rparr>)"

lemma ProcessTick_Some:
  "nReSyncAttempt (w_sync w) = 0 \<Longrightarrow> \<exists>w'. ProcessTick env w = Some w' \<and> nReSyncAttempt (w_sync w') = 0"
  using sync_tick_Some [of "with_sync (\<lambda>s. s\<lparr>nTick := nTick (w_sync w) + 1\<rparr>) w" env]
  by (auto simp: ProcessTick_def Let_def with_sync_def)

lemma UpdatedBlockTip_Some:
  assumes "nReSyncAttempt (w_sync w) = 0"
  shows "\<exists>w'. sync_UpdatedBlockTip env new best ibd w = Some w' \<and> nReSyncAttempt (w_sync w') = 0"
proof -
  have "\<exists>w'. SwitchToNextAsset env v = Some w' \<and> nReSyncAttempt (w_sync w') = 0"
    if "calm v" for v using SwitchToNextAsset_Some [of v env] that by (auto simp: calm_def)
  then show ?thesis using assms
    by (auto simp: sync_UpdatedBlockTip_def calm_def with_sync_def Let_def Reset_def BumpAssetLastTime_def IsFailed_def
        split: option.splits)
qed

lemma sync_run_counter: "sync_run w \<Longrightarrow> nReSyncAttempt (w_sync w) = 0"
proof (induction rule: sync_run.induct)
  case (tick w env w')
  then show ?case using ProcessTick_Some [of w env] by auto
next
  case (block_tip w env new best ibd w')
  then show ?case using UpdatedBlockTip_Some [of w env new best ibd] by auto
next
  case (next_asset w env w')
  then have "syncState (w_sync w) \<noteq> Failed" by (auto simp: SwitchToNextAsset_def Let_def)
  then show ?case using SwitchToNextAsset_Some [of w env] next_asset by auto
qed (simp_all add: CMasternodeSync_new_def with_sync_def AcceptedBlockHeader_def NotifyHeaderTip_def
    BumpAssetLastTime_def Reset_def)

text \<open>
  C19. In every state the synchronization can reach, a timer tick and a new block tip are handled
  without an exception, and the counter of repeated synchronizations is zero: the reset that
  starts a repetition also clears it, so the bound of three repetitions is never reached.
\<close>

theorem sync_never_throws:
  assumes "sync_run w"
  shows "nReSyncAttempt (w_sync w) = 0 \<and> (\<exists>w'. ProcessTick env w = Some w') \<and>
    (\<exists>w'. sync_UpdatedBlockTip env new best ibd w = Some w')"
  using sync_run_counter [OF assms] ProcessTick_Some UpdatedBlockTip_Some by blast

section \<open>Synchronization finishes\<close>

text \<open>
  The loop over the peers in each stage, for peers that are not skipped and were not fully
  synchronized with recently. \<open>quiet\<close> says what a call leaves as it is.
\<close>

definition unasked :: "CNode list \<Rightarrow> sync_world \<Rightarrow> bool" where
  "unasked ns w \<longleftrightarrow> (\<forall>n \<in> set ns. req (w_tracker w) (node_addr n) ''masternode-payment-sync'' = None)"

definition fresh_peers :: "int \<Rightarrow> CNode list \<Rightarrow> sync_world \<Rightarrow> bool" where
  "fresh_peers now ns w \<longleftrightarrow> (\<forall>n \<in> set ns. \<not> HasFulfilledRequest now (node_addr n) ''full-sync'' (w_tracker w))"

definition quiet :: "CNode list \<Rightarrow> sync_world \<Rightarrow> sync_world \<Rightarrow> bool" where
  "quiet ns w w' \<longleftrightarrow> nTick (w_sync w') = nTick (w_sync w) \<and> nTimeLastProcess (w_sync w') = nTimeLastProcess (w_sync w) \<and>
     (\<forall>now. fresh_peers now ns w \<longrightarrow> fresh_peers now ns w')"

abbreviation stage :: "sync_world \<Rightarrow> MasternodeSyncState" where "stage w \<equiv> syncState (w_sync w)"
abbreviation bumped :: "sync_world \<Rightarrow> int" where "bumped w \<equiv> nTimeLastBumped (w_sync w)"
abbreviation asked :: "sync_world \<Rightarrow> int" where "asked w \<equiv> nRequestedMasternodeAttempt (w_sync w)"
abbreviation timed_out :: "sync_env \<Rightarrow> sync_world \<Rightarrow> bool" where "timed_out env w \<equiv> te_now env - bumped w > 30"

lemma quiet_refl: "quiet ns w w"
  by (simp add: quiet_def)

lemma quiet_trans: "quiet ns u v \<Longrightarrow> quiet ns v w \<Longrightarrow> quiet ns u w"
  by (simp add: quiet_def)

lemma count_request_simps [simp]:
  "stage (count_request env n r es w) = stage w" "bumped (count_request env n r es w) = bumped w"
  "asked (count_request env n r es w) = asked w + 1"
  "w_tracker (count_request env n r es w) = AddFulfilledRequest (te_now env) (te_expire env) (node_addr n) r (w_tracker w)"
  by (simp_all add: count_request_def emit_def with_sync_def)

lemma count_request_quiet: "r \<noteq> ''full-sync'' \<Longrightarrow> quiet ns w (count_request env n r es w)"
  by (simp add: quiet_def fresh_peers_def HasFulfilledRequest_req req_Add) (simp add: count_request_def emit_def with_sync_def)

lemma count_request_unasked: "unasked ns w \<Longrightarrow> unasked ns (count_request env n ''masternode-list-sync'' es w)"
  by (simp add: unasked_def req_Add)

lemma switch_stage:
  "stage w = Waiting \<Longrightarrow> \<exists>w'. SwitchToNextAsset env w = Some w' \<and> stage w' = List \<and> bumped w' = te_now env \<and> asked w' = 0
     \<and> unasked (te_nodes env) w' \<and> quiet (te_nodes env) w w'
     \<and> (\<forall>n \<in> set (te_nodes env). req (w_tracker w') (node_addr n) ''masternode-list-sync'' = None)"
  "stage w = List \<Longrightarrow> \<exists>w'. SwitchToNextAsset env w = Some w' \<and> stage w' = Winners \<and> bumped w' = te_now env \<and> asked w' = 0
     \<and> w_tracker w' = w_tracker w \<and> quiet (te_nodes env) w w'"
  "stage w = Winners \<Longrightarrow> \<exists>w'. SwitchToNextAsset env w = Some w' \<and> stage w' = Governance \<and> bumped w' = te_now env \<and> asked w' = 0
     \<and> w_tracker w' = w_tracker w \<and> quiet (te_nodes env) w w'"
  "stage w = Governance \<Longrightarrow> \<exists>w'. SwitchToNextAsset env w = Some w' \<and> stage w' = Finished"
  by (auto simp: SwitchToNextAsset_def sync_defs quiet_def unasked_def fresh_peers_def req_ClearFulfilledRequests
      HasFulfilledRequest_req)

definition usable_peers :: "sync_env \<Rightarrow> CNode list \<Rightarrow> bool" where
  "usable_peers env ns \<longleftrightarrow> list_all (\<lambda>n. \<not> skip_peer env n) ns \<and> set ns \<subseteq> set (te_nodes env) \<and> \<not> te_regtest env"

lemma usable_peers_Cons [simp]:
  "usable_peers env (n # ns) \<longleftrightarrow> \<not> skip_peer env n \<and> n \<in> set (te_nodes env) \<and> usable_peers env ns"
  by (auto simp: usable_peers_def)

lemma usable_not_regtest: "usable_peers env ns \<Longrightarrow> \<not> te_regtest env"
  by (simp add: usable_peers_def)

lemma sync_peers_filter: "\<not> te_regtest env \<Longrightarrow> sync_peers env ns w = sync_peers env (filter (\<lambda>n. \<not> skip_peer env n) ns) w"
  by (induction env ns w rule: sync_peers.induct) (simp_all split: peer_step.splits)

text \<open>One peer, when it is not fully synchronized.\<close>

lemma fresh_has_request: "fresh_peers (te_now env) (te_nodes env) w \<Longrightarrow> n \<in> set (te_nodes env) \<Longrightarrow> \<not> has_request env n ''full-sync'' w"
  by (simp add: fresh_peers_def has_request_def)

lemma peers_governance:
  assumes "usable_peers env (n # ns)" "fresh_peers (te_now env) (te_nodes env) w" "stage w = Governance"
  shows "\<exists>w'. sync_peers env (n # ns) w = Some w' \<and> stage w' = Finished"
  using switch_stage(4) [OF assms(3), of env] assms fresh_has_request [OF assms(2)]
  by (auto simp: network_peer_def usable_not_regtest)

lemma peers_waiting:
  assumes "usable_peers env (n # ns)" "fresh_peers (te_now env) (te_nodes env) w" "stage w = Waiting" "\<not> timed_out env w"
  shows "sync_peers env (n # ns) w = Some w"
  using assms fresh_has_request [OF assms(2)] usable_not_regtest [of env ns]
  by (simp add: network_peer_def MasternodeSyncTimeoutSeconds_def)

lemma peers_waiting_timeout:
  assumes "usable_peers env (n # ns)" "fresh_peers (te_now env) (te_nodes env) w" "stage w = Waiting" "timed_out env w"
  shows "\<exists>w'. sync_peers env (n # ns) w = Some w' \<and> stage w' = List \<and> bumped w' = te_now env \<and> asked w' = 1
     \<and> unasked (te_nodes env) w' \<and> quiet (te_nodes env) w w'"
proof -
  obtain v where v: "SwitchToNextAsset env w = Some v" "stage v = List" "bumped v = te_now env" "asked v = 0"
      "unasked (te_nodes env) v" "quiet (te_nodes env) w v"
      "\<forall>n \<in> set (te_nodes env). req (w_tracker v) (node_addr n) ''masternode-list-sync'' = None"
    using switch_stage(1) [OF assms(3), of env] by blast
  let ?w = "count_request env n ''masternode-list-sync'' [DsegUpdate n] v"
  have n: "n \<in> set (te_nodes env)" "\<not> skip_peer env n" "\<not> te_regtest env" using assms(1) usable_not_regtest by auto
  have "CheckSyncTimeout env v = Some (v, True)" using v(3) by (simp add: CheckSyncTimeout_def MasternodeSyncTimeoutSeconds_def)
  then have "list_peer env n v = Return ?w"
    using v(7) n by (simp add: list_peer_def has_request_def HasFulfilledRequest_req)
  then have "sync_peers env (n # ns) w = Some ?w"
    using n v(1,2) assms(3,4) fresh_has_request [OF assms(2)] by (simp add: network_peer_def MasternodeSyncTimeoutSeconds_def)
  then show ?thesis using v count_request_unasked count_request_quiet quiet_trans by (intro exI [of _ ?w]) auto
qed

lemma peers_list:
  assumes "usable_peers env ns" "fresh_peers (te_now env) (te_nodes env) w" "stage w = List" "\<not> timed_out env w"
    and "unasked (te_nodes env) w"
  shows "\<exists>w'. sync_peers env ns w = Some w' \<and> stage w' = List \<and> bumped w' = bumped w \<and> asked w' \<ge> asked w
     \<and> unasked (te_nodes env) w' \<and> quiet (te_nodes env) w w'"
  using assms(1)
proof (induction ns)
  case (Cons n ns)
  let ?w = "count_request env n ''masternode-list-sync'' [DsegUpdate n] w"
  have "CheckSyncTimeout env w = Some (w, True)" using assms(4) by (simp add: CheckSyncTimeout_def MasternodeSyncTimeoutSeconds_def)
  then have "network_peer env n w = (if has_request env n ''masternode-list-sync'' w then Continue w else Return ?w)"
    using Cons.prems assms fresh_has_request [OF assms(2)] by (simp add: network_peer_def list_peer_def)
  moreover have "stage ?w = List \<and> unasked (te_nodes env) ?w \<and> quiet (te_nodes env) w ?w"
    using assms count_request_unasked count_request_quiet by auto
  ultimately show ?case using Cons by (auto simp: usable_not_regtest)
qed (use assms in \<open>auto simp: quiet_refl\<close>)

lemma peers_winners:
  assumes "usable_peers env ns" "fresh_peers (te_now env) (te_nodes env) w" "stage w = Winners" "\<not> timed_out env w"
    and "asked w \<ge> 1 \<or> asked w = 0 \<and> unasked (te_nodes env) w"
  shows "\<exists>w'. sync_peers env ns w = Some w' \<and> quiet (te_nodes env) w w' \<and>
     (stage w' = Winners \<and> bumped w' = bumped w \<and> (asked w' \<ge> 1 \<or> ns = [] \<and> w' = w) \<or>
      stage w' = Governance \<and> bumped w' = te_now env)"
  using assms(1)
proof (induction ns)
  case (Cons n ns)
  let ?w = "count_request env n ''masternode-payment-sync'' [PushPaymentSync n, RequestLowDataPaymentBlocks n] w"
  have n: "n \<in> set (te_nodes env)" "\<not> skip_peer env n" "\<not> te_regtest env" using Cons.prems usable_not_regtest by auto
  obtain v where v: "SwitchToNextAsset env w = Some v" "stage v = Governance" "bumped v = te_now env" "quiet (te_nodes env) w v"
    using switch_stage(3) [OF assms(3), of env] by blast
  have "CheckSyncTimeout env w = Some (w, True)" using assms(4) by (simp add: CheckSyncTimeout_def MasternodeSyncTimeoutSeconds_def)
  then have p: "network_peer env n w = (if asked w > 1 \<and> te_enough env then Return v
      else if has_request env n ''masternode-payment-sync'' w then Continue w else Return ?w)"
    using n v assms(3) fresh_has_request [OF assms(2)] by (simp add: network_peer_def winners_peer_def)
  have u: "unasked (te_nodes env) w \<Longrightarrow> \<not> has_request env n ''masternode-payment-sync'' w"
    using n by (simp add: unasked_def has_request_def HasFulfilledRequest_req)
  have "stage ?w = Winners \<and> bumped ?w = bumped w \<and> asked ?w \<ge> 1 \<and> quiet (te_nodes env) w ?w"
    using assms count_request_quiet by auto
  then show ?case using Cons p u v n assms(5) by (auto split: if_splits)
qed (use assms in \<open>auto simp: quiet_refl\<close>)

lemma peers_list_timeout:
  assumes "usable_peers env (n # ns)" "fresh_peers (te_now env) (te_nodes env) w" "stage w = List" "timed_out env w"
    and "asked w \<ge> 1" "unasked (te_nodes env) w"
  shows "\<exists>w'. sync_peers env (n # ns) w = Some w' \<and> quiet (te_nodes env) w w' \<and> bumped w' = te_now env \<and>
     (stage w' = Winners \<and> (asked w' \<ge> 1 \<or> asked w' = 0 \<and> unasked (te_nodes env) w') \<or> stage w' = Governance)"
proof -
  obtain v where v: "SwitchToNextAsset env w = Some v" "stage v = Winners" "bumped v = te_now env" "asked v = 0"
      "w_tracker v = w_tracker w" "quiet (te_nodes env) w v"
    using switch_stage(2) [OF assms(3), of env] by blast
  let ?w = "count_request env n ''masternode-list-sync'' [DsegUpdate n] v"
  have u: "unasked (te_nodes env) v" "fresh_peers (te_now env) (te_nodes env) v"
    using assms(2,6) v(5) by (simp_all add: unasked_def fresh_peers_def)
  have "CheckSyncTimeout env w = Some (v, True)"
    using assms(4,5) v(1) by (simp add: CheckSyncTimeout_def MasternodeSyncTimeoutSeconds_def)
  then have p: "network_peer env n w = (if has_request env n ''masternode-list-sync'' v then Continue v else Return ?w)"
    using assms fresh_has_request [OF assms(2)] by (simp add: network_peer_def list_peer_def)
  have n: "\<not> skip_peer env n" "\<not> te_regtest env" "usable_peers env ns" using assms(1) usable_not_regtest by auto
  show ?thesis
  proof (cases "has_request env n ''masternode-list-sync'' v")
    case True
    have "\<exists>w'. sync_peers env ns v = Some w' \<and> quiet (te_nodes env) v w' \<and>
        (stage w' = Winners \<and> bumped w' = bumped v \<and> (asked w' \<ge> 1 \<or> ns = [] \<and> w' = v) \<or>
         stage w' = Governance \<and> bumped w' = te_now env)"
      using u v(3,4) by (intro peers_winners [OF n(3) u(2) v(2)]) simp_all
    then obtain w' where w': "sync_peers env ns v = Some w'" "quiet (te_nodes env) v w'"
        "stage w' = Winners \<and> bumped w' = bumped v \<and> (asked w' \<ge> 1 \<or> ns = [] \<and> w' = v) \<or>
         stage w' = Governance \<and> bumped w' = te_now env" by blast
    have "sync_peers env (n # ns) w = Some w'" using True p n w'(1) by simp
    then show ?thesis using w'(3) quiet_trans [OF v(6) w'(2)] v(3,4) u(1) by auto
  next
    case False
    have "quiet (te_nodes env) v ?w" by (rule count_request_quiet) simp
    moreover have "sync_peers env (n # ns) w = Some ?w" using False p n by simp
    ultimately show ?thesis using v quiet_trans [OF v(6)] by (intro exI [of _ ?w]) simp
  qed
qed

lemma peers_winners_timeout:
  assumes "usable_peers env (n # ns)" "fresh_peers (te_now env) (te_nodes env) w" "stage w = Winners" "timed_out env w"
    and "asked w \<ge> 1"
  shows "\<exists>w'. sync_peers env (n # ns) w = Some w' \<and>
     (stage w' = Governance \<and> bumped w' = te_now env \<and> quiet (te_nodes env) w w' \<or> stage w' = Finished)"
proof -
  obtain v where v: "SwitchToNextAsset env w = Some v" "stage v = Governance" "bumped v = te_now env" "asked v = 0"
      "w_tracker v = w_tracker w" "quiet (te_nodes env) w v"
    using switch_stage(3) [OF assms(3), of env] by blast
  let ?w = "count_request env n ''masternode-payment-sync'' [PushPaymentSync n, RequestLowDataPaymentBlocks n] v"
  have u: "fresh_peers (te_now env) (te_nodes env) v" using assms(2) v(5) by (simp add: fresh_peers_def)
  have "CheckSyncTimeout env w = Some (v, True)"
    using assms(4,5) v(1) by (simp add: CheckSyncTimeout_def MasternodeSyncTimeoutSeconds_def)
  then have p: "network_peer env n w = (if has_request env n ''masternode-payment-sync'' v then Continue v else Return ?w)"
    using assms v fresh_has_request [OF assms(2)] by (simp add: network_peer_def winners_peer_def)
  have n: "\<not> skip_peer env n" "\<not> te_regtest env" "usable_peers env ns" using assms(1) usable_not_regtest by auto
  show ?thesis
  proof (cases "has_request env n ''masternode-payment-sync'' v")
    case True
    then have e: "sync_peers env (n # ns) w = sync_peers env ns v" using p n by simp
    show ?thesis
    proof (cases ns)
      case (Cons m ms)
      then obtain w' where "sync_peers env ns v = Some w'" "stage w' = Finished"
        using peers_governance [of env m ms v] u v(2) n(3) by blast
      then show ?thesis unfolding e by blast
    qed (use e v in auto)
  next
    case False
    have "quiet (te_nodes env) v ?w" by (rule count_request_quiet) simp
    moreover have "sync_peers env (n # ns) w = Some ?w" using False p n by simp
    ultimately show ?thesis using v quiet_trans [OF v(6)] by (intro exI [of _ ?w]) simp
  qed
qed

text \<open>
  The invariant of an undisturbed run that is not finished yet: \<open>p\<close> is the time of the last tick
  that was not skipped, and each stage is left at the first such tick more than thirty seconds
  after it was entered.
\<close>

definition stage_ok :: "CNode list \<Rightarrow> int \<Rightarrow> int \<Rightarrow> sync_world \<Rightarrow> bool" where
  "stage_ok ns t p w =
     (case stage w of
        Waiting \<Rightarrow> bumped w \<le> t \<and> p \<le> bumped w + 30
      | List \<Rightarrow> bumped w \<le> t + 36 \<and> p \<le> bumped w + 30 \<and> asked w \<ge> 1 \<and> unasked ns w
      | Winners \<Rightarrow> bumped w \<le> t + 72 \<and> p \<le> bumped w + 30 \<and> (asked w \<ge> 1 \<or> asked w = 0 \<and> unasked ns w \<and> p = bumped w)
      | Governance \<Rightarrow> bumped w \<le> t + 108 \<and> p = bumped w
      | _ \<Rightarrow> False)"

definition progress :: "CNode list \<Rightarrow> int \<Rightarrow> int \<Rightarrow> sync_world \<Rightarrow> bool" where
  "progress ns t now w \<longleftrightarrow> (\<exists>p. 1 \<le> now - p \<and> now - p \<le> 6 \<and> (nTick (w_sync w) - (now - p)) mod 6 = 0 \<and>
     (nTimeLastProcess (w_sync w) = 0 \<or> t - 3000 \<le> nTimeLastProcess (w_sync w)) \<and> fresh_peers t ns w \<and> stage_ok ns t p w)"

lemma stage_ok_bound: "stage_ok ns t p w \<Longrightarrow> p \<le> t + 108"
  by (cases "stage w") (simp_all add: stage_ok_def)

lemma progress_time: "progress ns t now w \<Longrightarrow> now \<le> t + 114"
  using stage_ok_bound unfolding progress_def by force

lemma stage_ok_cong:
  "stage w' = stage w \<Longrightarrow> bumped w' = bumped w \<Longrightarrow> asked w' = asked w \<Longrightarrow> w_tracker w' = w_tracker w \<Longrightarrow>
   stage_ok ns t p w' = stage_ok ns t p w"
  by (simp add: stage_ok_def unasked_def cong: MasternodeSyncState.case_cong)

lemma fresh_peers_mono: "fresh_peers t ns w \<Longrightarrow> t \<le> now \<Longrightarrow> fresh_peers now ns w"
  by (force simp: fresh_peers_def HasFulfilledRequest_req)

lemma fresh_peers_cong: "w_tracker w' = w_tracker w \<Longrightarrow> fresh_peers t ns w' = fresh_peers t ns w"
  by (simp add: fresh_peers_def)

lemma tick_phase: "1 \<le> d \<Longrightarrow> d \<le> 6 \<Longrightarrow> (y - d) mod 6 = 0 \<Longrightarrow> y mod 6 = 0 \<Longrightarrow> d = 6" for d y :: int
  by presburger

lemma tick_start: "(y - ((y - 1) mod 6 + 1)) mod 6 = 0" for y :: int
  by presburger

lemma tick_skip: "(y - d) mod 6 = 0 \<Longrightarrow> y mod 6 \<noteq> 0 \<Longrightarrow> d \<noteq> 6" for d y :: int
  by presburger

lemma progressE:
  assumes "progress ns t now w"
  obtains p where "1 \<le> now - p" "now - p \<le> 6" "(nTick (w_sync w) - (now - p)) mod 6 = 0"
    "nTimeLastProcess (w_sync w) = 0 \<or> t - 3000 \<le> nTimeLastProcess (w_sync w)" "fresh_peers t ns w" "stage_ok ns t p w"
  using assms unfolding progress_def by (elim exE conjE) (rule that)

lemma progress_skip:
  assumes "progress ns t now w" "nTick (w_sync w) mod 6 \<noteq> 0"
  shows "progress ns t (now + 1) (with_sync (\<lambda>s. s\<lparr>nTick := nTick (w_sync w) + 1\<rparr>) w)" (is "progress _ _ _ ?w")
proof -
  obtain p where p: "1 \<le> now - p" "now - p \<le> 6" "(nTick (w_sync w) - (now - p)) mod 6 = 0"
    and r: "nTimeLastProcess (w_sync w) = 0 \<or> t - 3000 \<le> nTimeLastProcess (w_sync w)" "fresh_peers t ns w" "stage_ok ns t p w"
    using assms(1) by (rule progressE)
  have "now - p \<noteq> 6" by (rule tick_skip [OF p(3) assms(2)])
  then have c: "1 \<le> now + 1 - p" "now + 1 - p \<le> 6" using p(1,2) by linarith+
  have "nTick (w_sync ?w) - (now + 1 - p) = nTick (w_sync w) - (now - p)" by (simp add: with_sync_def)
  then have "(nTick (w_sync ?w) - (now + 1 - p)) mod 6 = 0" using p(3) by (simp only:)
  moreover have "stage_ok ns t p ?w" using r(3) stage_ok_cong [of ?w w] by (simp add: with_sync_def)
  moreover have "fresh_peers t ns ?w" using r(2) fresh_peers_cong [of ?w w] by (simp add: with_sync_def)
  ultimately show ?thesis unfolding progress_def using c r(1) by (intro exI [of _ p]) (simp add: with_sync_def)
qed

lemma sync_tick_peers:
  assumes "stage w \<notin> {Failed, Initial, Finished}" "nTimeLastProcess (w_sync w) = 0 \<or> nTimeLastProcess (w_sync w) + 3600 \<ge> te_now env"
  shows "sync_tick env w = sync_peers env (te_nodes env) (with_sync (\<lambda>s. s\<lparr>nTimeLastProcess := te_now env\<rparr>) w)"
  using assms by (auto simp: sync_tick_def Let_def IsFailed_def IsSynced_def IsInitial_def)

lemma peers_stage_ok_Waiting:
  assumes "usable_peers env (n # ns)" "fresh_peers (te_now env) (te_nodes env) w" "stage_ok (te_nodes env) t (te_now env - 6) w"
    and "stage w = Waiting"
  shows "\<exists>w'. sync_peers env (n # ns) w = Some w' \<and>
    (stage w' = Finished \<or> stage_ok (te_nodes env) t (te_now env) w' \<and> quiet (te_nodes env) w w')"
proof -
  have b: "bumped w \<le> t" "te_now env - 6 \<le> bumped w + 30" using assms(3,4) by (simp_all add: stage_ok_def)
  show ?thesis
  proof (cases "timed_out env w")
    case True
    from peers_waiting_timeout [OF assms(1,2) assms(4) True] obtain w' where w': "sync_peers env (n # ns) w = Some w'"
      "stage w' = List" "bumped w' = te_now env" "asked w' = 1" "unasked (te_nodes env) w'" "quiet (te_nodes env) w w'" by blast
    then have "stage_ok (te_nodes env) t (te_now env) w'" using b by (simp add: stage_ok_def)
    with w' show ?thesis by blast
  next
    case False
    then have "stage_ok (te_nodes env) t (te_now env) w" using b assms(4) by (simp add: stage_ok_def)
    with peers_waiting [OF assms(1,2) assms(4) False] quiet_refl show ?thesis by blast
  qed
qed

lemma peers_stage_ok_List:
  assumes "usable_peers env (n # ns)" "fresh_peers (te_now env) (te_nodes env) w" "stage_ok (te_nodes env) t (te_now env - 6) w"
    and "stage w = List"
  shows "\<exists>w'. sync_peers env (n # ns) w = Some w' \<and>
    (stage w' = Finished \<or> stage_ok (te_nodes env) t (te_now env) w' \<and> quiet (te_nodes env) w w')"
proof -
  have b: "bumped w \<le> t + 36" "te_now env - 6 \<le> bumped w + 30" "asked w \<ge> 1" "unasked (te_nodes env) w"
    using assms(3,4) by (simp_all add: stage_ok_def)
  show ?thesis
  proof (cases "timed_out env w")
    case True
    from peers_list_timeout [OF assms(1,2) assms(4) True b(3,4)] obtain w' where w': "sync_peers env (n # ns) w = Some w'"
      "quiet (te_nodes env) w w'" "bumped w' = te_now env"
      "stage w' = Winners \<and> (asked w' \<ge> 1 \<or> asked w' = 0 \<and> unasked (te_nodes env) w') \<or> stage w' = Governance" by blast
    then have "stage_ok (te_nodes env) t (te_now env) w'" using b by (auto simp: stage_ok_def)
    with w' show ?thesis by blast
  next
    case False
    from peers_list [OF assms(1,2) assms(4) False b(4)] obtain w' where w': "sync_peers env (n # ns) w = Some w'"
      "stage w' = List" "bumped w' = bumped w" "asked w' \<ge> asked w" "unasked (te_nodes env) w'" "quiet (te_nodes env) w w'" by blast
    then have "stage_ok (te_nodes env) t (te_now env) w'" using b False by (simp add: stage_ok_def)
    with w' show ?thesis by blast
  qed
qed

lemma peers_stage_ok_Winners:
  assumes "usable_peers env (n # ns)" "fresh_peers (te_now env) (te_nodes env) w" "stage_ok (te_nodes env) t (te_now env - 6) w"
    and "stage w = Winners"
  shows "\<exists>w'. sync_peers env (n # ns) w = Some w' \<and>
    (stage w' = Finished \<or> stage_ok (te_nodes env) t (te_now env) w' \<and> quiet (te_nodes env) w w')"
proof -
  have b: "bumped w \<le> t + 72" "te_now env - 6 \<le> bumped w + 30"
      "asked w \<ge> 1 \<or> asked w = 0 \<and> unasked (te_nodes env) w \<and> te_now env - 6 = bumped w"
    using assms(3,4) by (simp_all add: stage_ok_def)
  show ?thesis
  proof (cases "timed_out env w")
    case True
    then have "asked w \<ge> 1" using b(3) by auto
    from peers_winners_timeout [OF assms(1,2) assms(4) True this] obtain w' where w': "sync_peers env (n # ns) w = Some w'"
      "stage w' = Governance \<and> bumped w' = te_now env \<and> quiet (te_nodes env) w w' \<or> stage w' = Finished" by blast
    then have "stage w' = Finished \<or> stage_ok (te_nodes env) t (te_now env) w' \<and> quiet (te_nodes env) w w'"
      using b by (auto simp: stage_ok_def)
    with w' show ?thesis by blast
  next
    case False
    have "asked w \<ge> 1 \<or> asked w = 0 \<and> unasked (te_nodes env) w" using b(3) by blast
    from peers_winners [OF assms(1,2) assms(4) False this] obtain w' where w': "sync_peers env (n # ns) w = Some w'"
      "quiet (te_nodes env) w w'" "stage w' = Winners \<and> bumped w' = bumped w \<and> asked w' \<ge> 1 \<or>
       stage w' = Governance \<and> bumped w' = te_now env" by blast
    then have "stage_ok (te_nodes env) t (te_now env) w'" using b False by (auto simp: stage_ok_def)
    with w' show ?thesis by blast
  qed
qed

lemma peers_stage_ok:
  assumes "usable_peers env (n # ns)" "fresh_peers (te_now env) (te_nodes env) w" "stage_ok (te_nodes env) t (te_now env - 6) w"
  shows "\<exists>w'. sync_peers env (n # ns) w = Some w' \<and>
    (stage w' = Finished \<or> stage_ok (te_nodes env) t (te_now env) w' \<and> quiet (te_nodes env) w w')"
proof (cases "stage w")
  case Waiting then show ?thesis by (rule peers_stage_ok_Waiting [OF assms])
next
  case List then show ?thesis by (rule peers_stage_ok_List [OF assms])
next
  case Winners then show ?thesis by (rule peers_stage_ok_Winners [OF assms])
next
  case Governance then show ?thesis using peers_governance [OF assms(1,2)] by blast
qed (use assms(3) in \<open>simp_all add: stage_ok_def\<close>)

lemma progress_tick:
  assumes "progress (te_nodes env) t (te_now env) w" "t \<le> te_now env" "\<not> te_regtest env" "list_ex (\<lambda>n. \<not> skip_peer env n) (te_nodes env)"
  shows "\<exists>w'. ProcessTick env w = Some w' \<and> (stage w' = Finished \<or> progress (te_nodes env) t (te_now env + 1) w')"
proof (cases "nTick (w_sync w) mod 6 = 0")
  case False
  then have "ProcessTick env w = Some (with_sync (\<lambda>s. s\<lparr>nTick := nTick (w_sync w) + 1\<rparr>) w)"
    by (simp add: ProcessTick_def MasternodeSyncTickSeconds_def)
  with progress_skip [OF assms(1) False] show ?thesis by blast
next
  case True
  let ?now = "te_now env" and ?nodes = "te_nodes env"
  let ?w = "with_sync (\<lambda>s. s\<lparr>nTimeLastProcess := ?now\<rparr>) (with_sync (\<lambda>s. s\<lparr>nTick := nTick (w_sync w) + 1\<rparr>) w)"
  obtain p where p: "1 \<le> ?now - p" "?now - p \<le> 6" "(nTick (w_sync w) - (?now - p)) mod 6 = 0"
    and r: "nTimeLastProcess (w_sync w) = 0 \<or> t - 3000 \<le> nTimeLastProcess (w_sync w)" "fresh_peers t ?nodes w" "stage_ok ?nodes t p w"
    using assms(1) by (rule progressE)
  have "?now - p = 6" by (rule tick_phase [OF p True])
  then have p6: "p = ?now - 6" by simp
  have ok: "stage_ok ?nodes t (?now - 6) ?w" using r(3) p6 stage_ok_cong [of ?w w] by (simp add: with_sync_def)
  have f: "fresh_peers t ?nodes ?w" using r(2) fresh_peers_cong [of ?w w] by (simp add: with_sync_def)
  have "stage w \<notin> {Failed, Initial, Finished}" using r(3) by (auto simp: stage_ok_def)
  then have e: "ProcessTick env w = sync_peers env ?nodes ?w"
    using True r(1) progress_time [OF assms(1)]
    by (subst sync_tick_peers [symmetric]) (auto simp: ProcessTick_def MasternodeSyncTickSeconds_def with_sync_def Let_def)
  obtain n ns where ns: "filter (\<lambda>n. \<not> skip_peer env n) ?nodes = n # ns"
    using assms(4) by (cases "filter (\<lambda>n. \<not> skip_peer env n) ?nodes") (auto simp: list_ex_iff filter_empty_conv)
  have "usable_peers env (filter (\<lambda>n. \<not> skip_peer env n) ?nodes)"
    using assms(3) by (auto simp: usable_peers_def list_all_iff)
  then have us: "usable_peers env (n # ns)" unfolding ns .
  obtain w' where w': "sync_peers env (n # ns) ?w = Some w'"
      "stage w' = Finished \<or> stage_ok ?nodes t ?now w' \<and> quiet ?nodes ?w w'"
    using peers_stage_ok [OF us fresh_peers_mono [OF f assms(2)] ok] by blast
  have "progress ?nodes t (?now + 1) w'" if q: "stage_ok ?nodes t ?now w'" "quiet ?nodes ?w w'"
  proof -
    have "nTick (w_sync w') = nTick (w_sync w) + 1" "nTimeLastProcess (w_sync w') = ?now" "fresh_peers t ?nodes w'"
      using q(2) f by (simp_all add: quiet_def with_sync_def)
    then show ?thesis using q(1) True assms(2) unfolding progress_def by (intro exI [of _ ?now]) simp
  qed
  then show ?thesis using e w' sync_peers_filter [OF assms(3), of ?nodes ?w] ns by auto
qed

text \<open>The timer calls once a second; \<open>enough\<close> says at which calls there are enough payment votes.\<close>

primrec run_seconds :: "sync_env \<Rightarrow> int \<Rightarrow> (nat \<Rightarrow> bool) \<Rightarrow> nat \<Rightarrow> sync_world \<Rightarrow> sync_world option" where
  "run_seconds env t enough 0 w = Some w"
| "run_seconds env t enough (Suc k) w =
     Option.bind (run_seconds env t enough k w) (ProcessTick (env\<lparr>te_now := t + int k, te_enough := enough k\<rparr>))"

text \<open>
  C10. Synchronization finishes: from the moment it starts waiting for the chain tip, with at least
  one peer that may be asked and none it was fully synchronized with recently, and without other
  events, it reaches the finished state within 115 seconds, however many peers there are,
  whatever requests they have answered before and whether or not enough votes arrive.
\<close>

theorem sync_finishes:
  assumes "stage w = Waiting" "bumped w = t" "nTimeLastProcess (w_sync w) = 0 \<or> t - 3000 \<le> nTimeLastProcess (w_sync w)"
    and "\<not> te_regtest env" "list_ex (\<lambda>n. \<not> skip_peer env n) (te_nodes env)" "fresh_peers t (te_nodes env) w"
  shows "\<exists>k \<le> 115. \<exists>w'. run_seconds env t enough k w = Some w' \<and> IsSynced (w_sync w')"
proof (rule ccontr)
  assume none: "\<not> ?thesis"
  have "\<exists>w'. run_seconds env t enough k w = Some w' \<and> progress (te_nodes env) t (t + int k) w'" if "k \<le> 115" for k
    using that
  proof (induction k)
    case 0
    let ?d = "(nTick (w_sync w) - 1) mod 6 + 1"
    have "0 \<le> (nTick (w_sync w) - 1) mod 6" "(nTick (w_sync w) - 1) mod 6 < 6" by simp_all
    moreover have "stage_ok (te_nodes env) t (t - ?d) w" using assms(1,2) calculation by (simp add: stage_ok_def)
    ultimately have "progress (te_nodes env) t t w"
      unfolding progress_def using assms(3,6) tick_start [of "nTick (w_sync w)"] by (intro exI [of _ "t - ?d"]) simp
    then show ?case by simp
  next
    case (Suc k)
    then obtain v where v: "run_seconds env t enough k w = Some v" "progress (te_nodes env) t (t + int k) v" by auto
    let ?env = "env\<lparr>te_now := t + int k, te_enough := enough k\<rparr>"
    have "list_ex (\<lambda>n. \<not> skip_peer ?env n) (te_nodes ?env)" using assms(5) by (simp add: skip_peer_def)
    then obtain w' where w': "ProcessTick ?env v = Some w'"
        "stage w' = Finished \<or> progress (te_nodes env) t (t + int k + 1) w'"
      using progress_tick [of ?env t v] v(2) assms(4) by auto
    have "run_seconds env t enough (Suc k) w = Some w'" using v(1) w'(1) by simp
    with none Suc.prems have "stage w' \<noteq> Finished" unfolding IsSynced_def by blast
    with w' v(1) show ?case by (simp add: add_ac)
  qed
  from this [of 115] show False using progress_time by force
qed

section \<open>Instances\<close>

text \<open>A node with a masternode connection and one ordinary peer, at second 1000.\<close>

definition sample_sync_env :: sync_env where
  "sample_sync_env = \<lparr>te_now = 1000, te_expire = 3600,
     te_nodes = [\<lparr>node_addr = [1], fMasternode = True, fInbound = False\<rparr>, \<lparr>node_addr = [2], fMasternode = False, fInbound = False\<rparr>],
     te_regtest = False, te_masternode = False, te_ibd = False, te_enough = False, te_check = True, te_height = 5, te_top = 3\<rparr>"

definition sample_world :: sync_world where
  "sample_world = \<lparr>w_sync = (CMasternodeSync_new 1000)\<lparr>syncState := Waiting\<rparr>, w_tracker = [], w_events = []\<rparr>"

theorem sync_finishes_witness:
  "\<exists>k \<le> 115. \<exists>w'. run_seconds sample_sync_env 1000 (\<lambda>_. False) k sample_world = Some w' \<and> IsSynced (w_sync w')"
proof (rule sync_finishes)
  show "stage sample_world = Waiting" "bumped sample_world = 1000"
    "nTimeLastProcess (w_sync sample_world) = 0 \<or> 1000 - 3000 \<le> nTimeLastProcess (w_sync sample_world)"
    "\<not> te_regtest sample_sync_env" "list_ex (\<lambda>n. \<not> skip_peer sample_sync_env n) (te_nodes sample_sync_env)"
    "fresh_peers 1000 (te_nodes sample_sync_env) sample_world"
    by (simp_all add: sample_world_def CMasternodeSync_new_def sample_sync_env_def skip_peer_def fresh_peers_def
        HasFulfilledRequest_def)
qed

theorem sync_never_throws_witness:
  "\<exists>w'. ProcessTick sample_sync_env \<lparr>w_sync = CMasternodeSync_new 7, w_tracker = [], w_events = []\<rparr> = Some w'"
  using sync_never_throws [OF sync_run.start [of 7 "[]"], of sample_sync_env] by blast

end
