(* ===== verification/Coins.thy ===== *)
theory Coins
  imports Transaction
begin

text \<open>
  The set of unspent transaction outputs: the outputs of one transaction (\<open>CCoins\<close> of
  \<open>coins.h\<close>), the stack of caches over the coin database (\<open>CCoinsViewCache\<close> of \<open>coins.cpp\<close>,
  \<open>CCoinsViewDB\<close> of \<open>txdb/txdb.cpp\<close>). A view is a list of caches, the newest first, over a database.
  A failed assertion is \<^const>\<open>None\<close>; \<open>GetValueIn\<close> tells it from a thrown exception. A modifier is
  opened and closed by one operation, so that the flag that forbids two of them at a time is left out,
  as is the bookkeeping of memory use. Commitment trees are a type parameter.
\<close>

section \<open>The outputs of a transaction\<close>

record CCoins =
  fCoinBase :: bool
  c_vout :: "CTxOut list"
  c_nHeight :: int
  c_nVersion :: int

definition CCoins_new :: CCoins where
  "CCoins_new = \<lparr>fCoinBase = False, c_vout = [], c_nHeight = 0, c_nVersion = 0\<rparr>"

definition CCoins_Clear :: "CCoins \<Rightarrow> CCoins" where
  "CCoins_Clear c = c\<lparr>fCoinBase := False, c_vout := [], c_nHeight := 0, c_nVersion := 0\<rparr>"

fun drop_nulls :: "CTxOut list \<Rightarrow> CTxOut list" where
  "drop_nulls v = (if v \<noteq> [] \<and> CTxOut_IsNull (last v) then drop_nulls (butlast v) else v)"

declare drop_nulls.simps [simp del]

definition Cleanup :: "CCoins \<Rightarrow> CCoins" where
  "Cleanup c = c\<lparr>c_vout := drop_nulls (c_vout c)\<rparr>"

definition ClearUnspendable :: "CCoins \<Rightarrow> CCoins" where
  "ClearUnspendable c =
     Cleanup (c\<lparr>c_vout := map (\<lambda>out. if IsUnspendable (scriptPubKey out) then CTxOut_null else out) (c_vout c)\<rparr>)"

definition FromTx :: "CTransaction \<Rightarrow> int \<Rightarrow> CCoins" where
  "FromTx tx nHeightIn =
     ClearUnspendable \<lparr>fCoinBase = IsCoinBase tx, c_vout = vout tx, c_nHeight = nHeightIn, c_nVersion = nVersion tx\<rparr>"

definition IsAvailable :: "nat \<Rightarrow> CCoins \<Rightarrow> bool" where
  "IsAvailable nPos c \<longleftrightarrow> nPos < length (c_vout c) \<and> \<not> CTxOut_IsNull (c_vout c ! nPos)"

definition Spend :: "nat \<Rightarrow> CCoins \<Rightarrow> CCoins \<times> bool" where
  "Spend nPos c =
     (if nPos \<ge> length (c_vout c) \<or> CTxOut_IsNull (c_vout c ! nPos) then (c, False)
      else (Cleanup (c\<lparr>c_vout := (c_vout c)[nPos := CTxOut_null]\<rparr>), True))"

definition IsPruned :: "CCoins \<Rightarrow> bool" where
  "IsPruned c \<longleftrightarrow> list_all CTxOut_IsNull (c_vout c)"

definition CCoins_eq :: "CCoins \<Rightarrow> CCoins \<Rightarrow> bool" where
  "CCoins_eq a b \<longleftrightarrow>
     (if IsPruned a \<and> IsPruned b then True
      else fCoinBase a = fCoinBase b \<and> c_nHeight a = c_nHeight b \<and> c_nVersion a = c_nVersion b \<and> c_vout a = c_vout b)"

section \<open>Caches\<close>

record CCoinsCacheEntry =
  coins :: CCoins
  DIRTY :: bool
  FRESH :: bool

record 't CAnchorsCacheEntry =
  a_entered :: bool
  a_tree :: 't
  a_DIRTY :: bool

record CNullifiersCacheEntry =
  n_entered :: bool
  n_DIRTY :: bool

datatype ShieldedType = SPROUT | SAPLING

type_synonym CCoinsMap = "(uint256 \<times> CCoinsCacheEntry) list"
type_synonym 't CAnchorsMap = "(uint256 \<times> 't CAnchorsCacheEntry) list"
type_synonym CNullifiersMap = "(uint256 \<times> CNullifiersCacheEntry) list"

record 't CCoinsViewCache =
  hashBlock :: uint256
  cacheCoins :: CCoinsMap
  hashAnchor :: "ShieldedType \<Rightarrow> uint256"
  cacheAnchors :: "ShieldedType \<Rightarrow> 't CAnchorsMap"
  cacheNullifiers :: "ShieldedType \<Rightarrow> CNullifiersMap"

definition CCoinsViewCache_new :: "'t CCoinsViewCache" where
  "CCoinsViewCache_new =
     \<lparr>hashBlock = 0, cacheCoins = [], hashAnchor = (\<lambda>_. 0), cacheAnchors = (\<lambda>_. []), cacheNullifiers = (\<lambda>_. [])\<rparr>"

text \<open>The database; \<open>db_empty\<close> is the root of the empty tree of each kind with that tree.\<close>

record 't CCoinsViewDB =
  db_coins :: "uint256 \<rightharpoonup> CCoins"
  db_best :: uint256
  db_anchor :: "ShieldedType \<Rightarrow> uint256 option"
  db_anchors :: "ShieldedType \<Rightarrow> uint256 \<rightharpoonup> 't"
  db_nullifiers :: "ShieldedType \<Rightarrow> uint256 \<Rightarrow> bool"
  db_empty :: "ShieldedType \<Rightarrow> uint256 \<times> 't"

subsection \<open>Reading\<close>

text \<open>A cache keeps what it reads from the view below; an empty entry of that view makes it fresh.\<close>

fun GetCoins :: "'t CCoinsViewDB \<Rightarrow> 't CCoinsViewCache list \<Rightarrow> uint256 \<Rightarrow> CCoins option \<times> 't CCoinsViewCache list" where
  "GetCoins db [] txid = (db_coins db txid, [])"
| "GetCoins db (c # cs) txid =
     (case map_of (cacheCoins c) txid of
        Some e \<Rightarrow> (Some (coins e), c # cs)
      | None \<Rightarrow>
         (case GetCoins db cs txid of
            (None, cs') \<Rightarrow> (None, c # cs')
          | (Some tmp, cs') \<Rightarrow>
              (Some tmp, c\<lparr>cacheCoins := AList.update txid \<lparr>coins = tmp, DIRTY = False, FRESH = IsPruned tmp\<rparr> (cacheCoins c)\<rparr> # cs')))"

definition HaveCoins :: "'t CCoinsViewDB \<Rightarrow> 't CCoinsViewCache list \<Rightarrow> uint256 \<Rightarrow> bool \<times> 't CCoinsViewCache list" where
  "HaveCoins db cs txid =
     (case GetCoins db cs txid of
        (None, cs') \<Rightarrow> (False, cs')
      | (Some c, cs') \<Rightarrow> ((if cs = [] then True else c_vout c \<noteq> []), cs'))"

fun GetBestBlock :: "'t CCoinsViewDB \<Rightarrow> 't CCoinsViewCache list \<Rightarrow> uint256 \<times> 't CCoinsViewCache list" where
  "GetBestBlock db [] = (db_best db, [])"
| "GetBestBlock db (c # cs) =
     (if hashBlock c = 0 then case GetBestBlock db cs of (h, cs') \<Rightarrow> (h, c\<lparr>hashBlock := h\<rparr> # cs')
      else (hashBlock c, c # cs))"

fun GetBestAnchor :: "'t CCoinsViewDB \<Rightarrow> 't CCoinsViewCache list \<Rightarrow> ShieldedType \<Rightarrow> uint256 \<times> 't CCoinsViewCache list" where
  "GetBestAnchor db [] type = (case db_anchor db type of None \<Rightarrow> fst (db_empty db type) | Some h \<Rightarrow> h, [])"
| "GetBestAnchor db (c # cs) type =
     (if hashAnchor c type = 0
      then case GetBestAnchor db cs type of (h, cs') \<Rightarrow> (h, c\<lparr>hashAnchor := (hashAnchor c)(type := h)\<rparr> # cs')
      else (hashAnchor c type, c # cs))"

fun GetAnchorAt :: "'t CCoinsViewDB \<Rightarrow> 't CCoinsViewCache list \<Rightarrow> ShieldedType \<Rightarrow> uint256 \<Rightarrow> 't option \<times> 't CCoinsViewCache list" where
  "GetAnchorAt db [] type rt = (if rt = fst (db_empty db type) then Some (snd (db_empty db type)) else db_anchors db type rt, [])"
| "GetAnchorAt db (c # cs) type rt =
     (case map_of (cacheAnchors c type) rt of
        Some e \<Rightarrow> (if a_entered e then Some (a_tree e) else None, c # cs)
      | None \<Rightarrow>
         (case GetAnchorAt db cs type rt of
            (None, cs') \<Rightarrow> (None, c # cs')
          | (Some tree, cs') \<Rightarrow>
              (Some tree, c\<lparr>cacheAnchors := (cacheAnchors c)(type :=
                 AList.update rt \<lparr>a_entered = True, a_tree = tree, a_DIRTY = False\<rparr> (cacheAnchors c type))\<rparr> # cs')))"

fun GetNullifier :: "'t CCoinsViewDB \<Rightarrow> 't CCoinsViewCache list \<Rightarrow> ShieldedType \<Rightarrow> uint256 \<Rightarrow> bool \<times> 't CCoinsViewCache list" where
  "GetNullifier db [] type nf = (db_nullifiers db type nf, [])"
| "GetNullifier db (c # cs) type nf =
     (case map_of (cacheNullifiers c type) nf of
        Some e \<Rightarrow> (n_entered e, c # cs)
      | None \<Rightarrow>
         (case GetNullifier db cs type nf of (b, cs') \<Rightarrow>
            (b, c\<lparr>cacheNullifiers := (cacheNullifiers c)(type :=
               AList.update nf \<lparr>n_entered = b, n_DIRTY = False\<rparr> (cacheNullifiers c type))\<rparr> # cs')))"

text \<open>What the checks of a transaction read: an output it spends, the sum of them, and whether they are there.\<close>

definition GetOutputFor :: "'t CCoinsViewDB \<Rightarrow> 't CCoinsViewCache list \<Rightarrow> CTxIn \<Rightarrow> CTxOut option \<times> 't CCoinsViewCache list" where
  "GetOutputFor db cs input =
     (case GetCoins db cs (op_hash (prevout input)) of
        (None, cs') \<Rightarrow> (None, cs')
      | (Some c, cs') \<Rightarrow>
          let n = unat (op_n (prevout input)) in (if IsAvailable n c then Some (c_vout c ! n) else None, cs'))"

fun sum_inputs :: "'t CCoinsViewDB \<Rightarrow> CTxIn list \<Rightarrow> CAmount \<Rightarrow> 't CCoinsViewCache list \<Rightarrow> CAmount option \<times> 't CCoinsViewCache list" where
  "sum_inputs db [] nResult cs = (Some nResult, cs)"
| "sum_inputs db (txin # ins) nResult cs =
     (case GetOutputFor db cs txin of
        (None, cs') \<Rightarrow> (None, cs')
      | (Some out, cs') \<Rightarrow> sum_inputs db ins (nResult + nValue out) cs')"

datatype failure = assertion_failed | exception_thrown

definition GetValueIn :: "'t CCoinsViewDB \<Rightarrow> CTransaction \<Rightarrow> 't CCoinsViewCache list \<Rightarrow> (failure + CAmount) \<times> 't CCoinsViewCache list" where
  "GetValueIn db tx cs =
     (if IsCoinBase tx then (Inr 0, cs)
      else case sum_inputs db (vin tx) 0 cs of
             (None, cs') \<Rightarrow> (Inl assertion_failed, cs')
           | (Some nResult, cs') \<Rightarrow>
               (case GetShieldedValueIn tx of None \<Rightarrow> Inl exception_thrown | Some v \<Rightarrow> Inr (nResult + v), cs'))"

fun have_shielded :: "'t CCoinsViewDB \<Rightarrow> SpendDescription list \<Rightarrow> 't CCoinsViewCache list \<Rightarrow> bool \<times> 't CCoinsViewCache list" where
  "have_shielded db [] cs = (True, cs)"
| "have_shielded db (sd # sds) cs =
     (case GetNullifier db cs SAPLING (nullifier sd) of (spent, cs1) \<Rightarrow>
        if spent then (False, cs1)
        else case GetAnchorAt db cs1 SAPLING (anchor sd) of
               (None, cs2) \<Rightarrow> (False, cs2)
             | (Some tree, cs2) \<Rightarrow> have_shielded db sds cs2)"

definition HaveShieldedRequirements :: "'t CCoinsViewDB \<Rightarrow> CTransaction \<Rightarrow> 't CCoinsViewCache list \<Rightarrow> bool \<times> 't CCoinsViewCache list" where
  "HaveShieldedRequirements db tx cs = have_shielded db (vShieldedSpend tx) cs"

fun have_inputs :: "'t CCoinsViewDB \<Rightarrow> CTxIn list \<Rightarrow> 't CCoinsViewCache list \<Rightarrow> bool \<times> 't CCoinsViewCache list" where
  "have_inputs db [] cs = (True, cs)"
| "have_inputs db (txIn # ins) cs =
     (case GetCoins db cs (op_hash (prevout txIn)) of (r, cs') \<Rightarrow>
        if (case r of None \<Rightarrow> False | Some c \<Rightarrow> IsAvailable (unat (op_n (prevout txIn))) c) then have_inputs db ins cs'
        else (False, cs'))"

definition HaveInputs :: "'t CCoinsViewDB \<Rightarrow> CTransaction \<Rightarrow> 't CCoinsViewCache list \<Rightarrow> bool \<times> 't CCoinsViewCache list" where
  "HaveInputs db tx cs = (if IsCoinBase tx then (True, cs) else have_inputs db (vin tx) cs)"

subsection \<open>Modifying\<close>

text \<open>
  Opening a modifier gives the coins and leaves a dirty entry; closing it cleans the coins up and
  drops a fresh entry that is pruned.
\<close>

definition ModifyCoins ::
  "'t CCoinsViewDB \<Rightarrow> 't CCoinsViewCache \<Rightarrow> 't CCoinsViewCache list \<Rightarrow> uint256 \<Rightarrow>
   CCoinsCacheEntry \<times> 't CCoinsViewCache list" where
  "ModifyCoins db c cs txid =
     (case map_of (cacheCoins c) txid of
        Some e \<Rightarrow> (e\<lparr>DIRTY := True\<rparr>, cs)
      | None \<Rightarrow>
         (case GetCoins db cs txid of
            (None, cs') \<Rightarrow> (\<lparr>coins = CCoins_new, DIRTY = True, FRESH = True\<rparr>, cs')
          | (Some tmp, cs') \<Rightarrow> (\<lparr>coins = tmp, DIRTY = True, FRESH = IsPruned tmp\<rparr>, cs')))"

definition ModifyNewCoins :: CCoinsCacheEntry where
  "ModifyNewCoins = \<lparr>coins = CCoins_new, DIRTY = True, FRESH = True\<rparr>"

definition EndModify :: "uint256 \<Rightarrow> CCoinsCacheEntry \<Rightarrow> 't CCoinsViewCache \<Rightarrow> 't CCoinsViewCache" where
  "EndModify txid e c =
     (let e = e\<lparr>coins := Cleanup (coins e)\<rparr>
      in if FRESH e \<and> IsPruned (coins e) then c\<lparr>cacheCoins := AList.delete txid (cacheCoins c)\<rparr>
         else c\<lparr>cacheCoins := AList.update txid e (cacheCoins c)\<rparr>)"

definition SetBestBlock :: "uint256 \<Rightarrow> 't CCoinsViewCache \<Rightarrow> 't CCoinsViewCache" where
  "SetBestBlock h c = c\<lparr>hashBlock := h\<rparr>"

definition SetNullifiers :: "CTransaction \<Rightarrow> bool \<Rightarrow> 't CCoinsViewCache \<Rightarrow> 't CCoinsViewCache" where
  "SetNullifiers tx spent c =
     c\<lparr>cacheNullifiers := (cacheNullifiers c)(SAPLING :=
        fold (\<lambda>sd. AList.update (nullifier sd) \<lparr>n_entered = spent, n_DIRTY = True\<rparr>) (vShieldedSpend tx)
          (cacheNullifiers c SAPLING))\<rparr>"

definition PushAnchor ::
  "'t CCoinsViewDB \<Rightarrow> ('t \<Rightarrow> uint256) \<Rightarrow> ShieldedType \<Rightarrow> 't \<Rightarrow> 't CCoinsViewCache \<Rightarrow> 't CCoinsViewCache list \<Rightarrow>
   't CCoinsViewCache list" where
  "PushAnchor db root type tree c cs =
     (case GetBestAnchor db (c # cs) type of
        (currentRoot, c # cs) \<Rightarrow>
          if currentRoot \<noteq> root tree then
            c\<lparr>cacheAnchors := (cacheAnchors c)(type :=
                AList.update (root tree) \<lparr>a_entered = True, a_tree = tree, a_DIRTY = True\<rparr> (cacheAnchors c type)),
              hashAnchor := (hashAnchor c)(type := root tree)\<rparr> # cs
          else c # cs
      | (_, []) \<Rightarrow> [])"

definition PopAnchor ::
  "'t CCoinsViewDB \<Rightarrow> ShieldedType \<Rightarrow> uint256 \<Rightarrow> 't CCoinsViewCache \<Rightarrow> 't CCoinsViewCache list \<Rightarrow>
   't CCoinsViewCache list option" where
  "PopAnchor db type newrt c cs =
     (case GetBestAnchor db (c # cs) type of
        (currentRoot, cs) \<Rightarrow>
          if currentRoot \<noteq> newrt then
            (case GetAnchorAt db cs type currentRoot of
               (Some tree, c # cs) \<Rightarrow>
                 (case map_of (cacheAnchors c type) currentRoot of None \<Rightarrow> None
                  | Some e \<Rightarrow>
                      Some (c\<lparr>cacheAnchors := (cacheAnchors c)(type :=
                                AList.update currentRoot (e\<lparr>a_entered := False, a_DIRTY := True\<rparr>) (cacheAnchors c type)),
                              hashAnchor := (hashAnchor c)(type := newrt)\<rparr> # cs))
             | _ \<Rightarrow> None)
          else Some cs)"

subsection \<open>Flushing\<close>

definition merge_coins :: "uint256 \<times> CCoinsCacheEntry \<Rightarrow> CCoinsMap \<Rightarrow> CCoinsMap option" where
  "merge_coins it ours =
     (case it of (txid, e) \<Rightarrow>
        if DIRTY e then
          (case map_of ours txid of
             None \<Rightarrow>
               if \<not> IsPruned (coins e) then
                 (if FRESH e then Some (AList.update txid \<lparr>coins = coins e, DIRTY = True, FRESH = True\<rparr> ours) else None)
               else Some ours
           | Some itUs \<Rightarrow>
               if FRESH itUs \<and> IsPruned (coins e) then Some (AList.delete txid ours)
               else Some (AList.update txid (itUs\<lparr>coins := coins e, DIRTY := True\<rparr>) ours))
        else Some ours)"

fun batch_coins :: "CCoinsMap \<Rightarrow> CCoinsMap \<Rightarrow> CCoinsMap option" where
  "batch_coins [] ours = Some ours"
| "batch_coins (it # mapCoins) ours =
     (case merge_coins it ours of None \<Rightarrow> None | Some ours' \<Rightarrow> batch_coins mapCoins ours')"

definition merge_anchor :: "uint256 \<times> 't CAnchorsCacheEntry \<Rightarrow> 't CAnchorsMap \<Rightarrow> 't CAnchorsMap" where
  "merge_anchor child_it ours =
     (case child_it of (rt, e) \<Rightarrow>
        if a_DIRTY e then
          (case map_of ours rt of
             None \<Rightarrow> AList.update rt \<lparr>a_entered = a_entered e, a_tree = a_tree e, a_DIRTY = True\<rparr> ours
           | Some p \<Rightarrow>
               if a_entered p \<noteq> a_entered e then AList.update rt (p\<lparr>a_entered := a_entered e, a_DIRTY := True\<rparr>) ours
               else ours)
        else ours)"

definition BatchWriteAnchors :: "'t CAnchorsMap \<Rightarrow> 't CAnchorsMap \<Rightarrow> 't CAnchorsMap" where
  "BatchWriteAnchors mapAnchors ours = fold merge_anchor mapAnchors ours"

definition merge_nullifier :: "uint256 \<times> CNullifiersCacheEntry \<Rightarrow> CNullifiersMap \<Rightarrow> CNullifiersMap" where
  "merge_nullifier child_it ours =
     (case child_it of (nf, e) \<Rightarrow>
        if n_DIRTY e then
          (case map_of ours nf of
             None \<Rightarrow> AList.update nf \<lparr>n_entered = n_entered e, n_DIRTY = True\<rparr> ours
           | Some p \<Rightarrow>
               if n_entered p \<noteq> n_entered e then AList.update nf (p\<lparr>n_entered := n_entered e, n_DIRTY := True\<rparr>) ours
               else ours)
        else ours)"

definition BatchWriteNullifiers :: "CNullifiersMap \<Rightarrow> CNullifiersMap \<Rightarrow> CNullifiersMap" where
  "BatchWriteNullifiers mapNullifiers ours = fold merge_nullifier mapNullifiers ours"

definition BatchWrite :: "'t CCoinsViewCache \<Rightarrow> 't CCoinsViewCache \<Rightarrow> 't CCoinsViewCache option" where
  "BatchWrite child c =
     (case batch_coins (cacheCoins child) (cacheCoins c) of None \<Rightarrow> None
      | Some m \<Rightarrow>
          Some \<lparr>hashBlock = hashBlock child, cacheCoins = m, hashAnchor = hashAnchor child,
                cacheAnchors = (\<lambda>t. BatchWriteAnchors (cacheAnchors child t) (cacheAnchors c t)),
                cacheNullifiers = (\<lambda>t. BatchWriteNullifiers (cacheNullifiers child t) (cacheNullifiers c t))\<rparr>)"

definition db_write_coins :: "uint256 \<times> CCoinsCacheEntry \<Rightarrow> (uint256 \<rightharpoonup> CCoins) \<Rightarrow> (uint256 \<rightharpoonup> CCoins)" where
  "db_write_coins it m =
     (case it of (txid, e) \<Rightarrow>
        if DIRTY e then (if IsPruned (coins e) then m(txid := None) else m(txid \<mapsto> coins e)) else m)"

definition db_write_anchor :: "uint256 \<Rightarrow> uint256 \<times> 't CAnchorsCacheEntry \<Rightarrow> (uint256 \<rightharpoonup> 't) \<Rightarrow> (uint256 \<rightharpoonup> 't)" where
  "db_write_anchor empty_root it m =
     (case it of (rt, e) \<Rightarrow>
        if a_DIRTY e then
          (if \<not> a_entered e then m(rt := None) else if rt \<noteq> empty_root then m(rt \<mapsto> a_tree e) else m)
        else m)"

definition db_write_nullifier :: "uint256 \<times> CNullifiersCacheEntry \<Rightarrow> (uint256 \<Rightarrow> bool) \<Rightarrow> uint256 \<Rightarrow> bool" where
  "db_write_nullifier it m = (case it of (nf, e) \<Rightarrow> if n_DIRTY e then m(nf := n_entered e) else m)"

definition DB_BatchWrite :: "'t CCoinsViewCache \<Rightarrow> 't CCoinsViewDB \<Rightarrow> 't CCoinsViewDB" where
  "DB_BatchWrite c db =
     db\<lparr>db_coins := fold db_write_coins (cacheCoins c) (db_coins db),
        db_best := (if hashBlock c \<noteq> 0 then hashBlock c else db_best db),
        db_anchor := (\<lambda>t. if hashAnchor c t \<noteq> 0 then Some (hashAnchor c t) else db_anchor db t),
        db_anchors := (\<lambda>t. fold (db_write_anchor (fst (db_empty db t))) (cacheAnchors c t) (db_anchors db t)),
        db_nullifiers := (\<lambda>t. fold db_write_nullifier (cacheNullifiers c t) (db_nullifiers db t))\<rparr>"

definition clear_cache :: "'t CCoinsViewCache \<Rightarrow> 't CCoinsViewCache" where
  "clear_cache c = c\<lparr>cacheCoins := [], cacheAnchors := (\<lambda>_. []), cacheNullifiers := (\<lambda>_. [])\<rparr>"

definition Flush ::
  "'t CCoinsViewDB \<Rightarrow> 't CCoinsViewCache \<Rightarrow> 't CCoinsViewCache list \<Rightarrow> ('t CCoinsViewDB \<times> 't CCoinsViewCache list) option" where
  "Flush db c cs =
     (case cs of
        [] \<Rightarrow> Some (DB_BatchWrite c db, [clear_cache c])
      | p # ps \<Rightarrow> map_option (\<lambda>p'. (db, clear_cache c # p' # ps)) (BatchWrite c p))"

section \<open>Cleaned coins\<close>

definition clean :: "CCoins \<Rightarrow> bool" where
  "clean c \<longleftrightarrow> c_vout c = [] \<or> \<not> CTxOut_IsNull (last (c_vout c))"

lemma drop_nulls_clean: "drop_nulls v = [] \<or> \<not> CTxOut_IsNull (last (drop_nulls v))"
proof (induction v rule: drop_nulls.induct)
  case (1 v)
  then show ?case by (simp add: drop_nulls.simps [of v])
qed

lemma drop_nulls_id: "v = [] \<or> \<not> CTxOut_IsNull (last v) \<Longrightarrow> drop_nulls v = v"
  by (subst drop_nulls.simps) auto

lemma drop_nulls_all: "list_all CTxOut_IsNull (drop_nulls v) \<longleftrightarrow> list_all CTxOut_IsNull v"
proof (induction v rule: drop_nulls.induct)
  case (1 v)
  show ?case
  proof (cases "v \<noteq> [] \<and> CTxOut_IsNull (last v)")
    case True
    then have "list_all CTxOut_IsNull v \<longleftrightarrow> list_all CTxOut_IsNull (butlast v)"
      by (cases v rule: rev_cases) auto
    then show ?thesis using True 1 by (simp add: drop_nulls.simps [of v])
  next
    case False
    then have "drop_nulls v = v" by (intro drop_nulls_id) blast
    then show ?thesis by simp
  qed
qed

lemma Cleanup_simps [simp]:
  "clean (Cleanup c)" "IsPruned (Cleanup c) = IsPruned c" "Cleanup (Cleanup c) = Cleanup c"
  using drop_nulls_clean [of "c_vout c"]
  by (simp_all add: clean_def Cleanup_def IsPruned_def drop_nulls_all drop_nulls_id)

lemma Cleanup_id: "clean c \<Longrightarrow> Cleanup c = c"
  by (simp add: Cleanup_def clean_def drop_nulls_id)

lemma clean_pruned: "clean c \<Longrightarrow> IsPruned c \<longleftrightarrow> c_vout c = []"
  using last_in_set [of "c_vout c"] by (cases "c_vout c = []") (auto simp: clean_def IsPruned_def list_all_iff)

lemma clean_new [simp]: "clean CCoins_new" "IsPruned CCoins_new"
  by (simp_all add: clean_def CCoins_new_def IsPruned_def)

section \<open>The view a stack of caches stands for\<close>

definition unspent :: "CCoins \<Rightarrow> CCoins option" where
  "unspent c = (if IsPruned c then None else Some c)"

fun view :: "'t CCoinsViewDB \<Rightarrow> 't CCoinsViewCache list \<Rightarrow> uint256 \<Rightarrow> CCoins option" where
  "view db [] k = Option.bind (db_coins db k) unspent"
| "view db (c # cs) k = (case map_of (cacheCoins c) k of Some e \<Rightarrow> unspent (coins e) | None \<Rightarrow> view db cs k)"

fun present :: "'t CCoinsViewCache list \<Rightarrow> uint256 \<Rightarrow> bool" where
  "present [] k = True"
| "present (c # cs) k = (map_of (cacheCoins c) k \<noteq> None)"

text \<open>
  What an entry of a cache says about the view below: a fresh one that there is nothing, a clean
  one that it is the same, and one that is not fresh that the cache below has an entry.
\<close>

definition entry_ok :: "(uint256 \<Rightarrow> CCoins option) \<Rightarrow> (uint256 \<Rightarrow> bool) \<Rightarrow> uint256 \<Rightarrow> CCoinsCacheEntry \<Rightarrow> bool" where
  "entry_ok below there k e \<longleftrightarrow> clean (coins e) \<and> (FRESH e \<longrightarrow> below k = None) \<and>
     (\<not> DIRTY e \<longrightarrow> unspent (coins e) = below k) \<and> (\<not> FRESH e \<longrightarrow> there k)"

definition cache_ok :: "(uint256 \<Rightarrow> CCoins option) \<Rightarrow> (uint256 \<Rightarrow> bool) \<Rightarrow> CCoinsMap \<Rightarrow> bool" where
  "cache_ok below there m \<longleftrightarrow> distinct (map fst m) \<and> (\<forall>k e. map_of m k = Some e \<longrightarrow> entry_ok below there k e)"

fun stack_ok :: "'t CCoinsViewDB \<Rightarrow> 't CCoinsViewCache list \<Rightarrow> bool" where
  "stack_ok db [] \<longleftrightarrow> (\<forall>k c. db_coins db k = Some c \<longrightarrow> clean c)"
| "stack_ok db (c # cs) \<longleftrightarrow> stack_ok db cs \<and> cache_ok (view db cs) (present cs) (cacheCoins c)"

lemma unspent_simps [simp]:
  "unspent CCoins_new = None" "unspent c = None \<longleftrightarrow> IsPruned c" "unspent c = Some d \<longleftrightarrow> \<not> IsPruned c \<and> d = c"
  by (auto simp: unspent_def)

lemma cache_ok_mono:
  "cache_ok below there m \<Longrightarrow> (\<And>k. there k \<Longrightarrow> there' k) \<Longrightarrow> cache_ok below there' m"
  by (auto simp: cache_ok_def entry_ok_def)

lemma cache_ok_update:
  "cache_ok below there m \<Longrightarrow> entry_ok below there k e \<Longrightarrow> cache_ok below there (AList.update k e m)"
  by (auto simp: cache_ok_def al.get_put distinct_update)

lemma cache_ok_delete: "cache_ok below there m \<Longrightarrow> cache_ok below there (AList.delete k m)"
  by (auto simp: cache_ok_def al.get_del distinct_delete split: if_splits)

lemma cache_ok_entry: "cache_ok below there m \<Longrightarrow> map_of m k = Some e \<Longrightarrow> entry_ok below there k e"
  by (simp add: cache_ok_def)

text \<open>Reading changes neither the view nor what is present, apart from what it brings in.\<close>

lemma GetCoins_ok:
  assumes "stack_ok db cs" "GetCoins db cs k = (r, cs')"
  shows "stack_ok db cs'" "view db cs' = view db cs" "Option.bind r unspent = view db cs k"
    and "r \<noteq> None \<Longrightarrow> present cs' k" "present cs j \<Longrightarrow> present cs' j" "r = Some c \<Longrightarrow> clean c"
    and "length cs' = length cs"
proof -
  have "stack_ok db cs' \<and> view db cs' = view db cs \<and> Option.bind r unspent = view db cs k \<and> (r \<noteq> None \<longrightarrow> present cs' k) \<and>
      (\<forall>j. present cs j \<longrightarrow> present cs' j) \<and> (\<forall>c. r = Some c \<longrightarrow> clean c) \<and> length cs' = length cs"
    using assms
  proof (induction cs arbitrary: cs' r)
    case (Cons c cs)
    show ?case
    proof (cases "map_of (cacheCoins c) k")
      case (Some e)
      then show ?thesis using Cons.prems cache_ok_entry [of "view db cs" "present cs" "cacheCoins c" k e]
        by (auto simp: entry_ok_def)
    next
      case None
      obtain q ds where q: "GetCoins db cs k = (q, ds)" by (cases "GetCoins db cs k")
      note ih = Cons.IH [OF _ q]
      have ok: "stack_ok db ds" "view db ds = view db cs" "Option.bind q unspent = view db cs k"
          "q \<noteq> None \<longrightarrow> present ds k" "\<forall>j. present cs j \<longrightarrow> present ds j" "\<forall>c. q = Some c \<longrightarrow> clean c" "length ds = length cs"
        using ih Cons.prems(1) by auto
      have top: "cache_ok (view db ds) (present ds) (cacheCoins c)"
        unfolding ok(2) using Cons.prems(1) ok(5) cache_ok_mono by auto
      have v: "view db (c # ds) = view db (c # cs)" using ok(2) by (intro ext) (simp split: option.splits)
      show ?thesis
      proof (cases q)
        case (Some t)
        let ?e = "\<lparr>coins = t, DIRTY = False, FRESH = IsPruned t\<rparr>"
        let ?c = "c\<lparr>cacheCoins := AList.update k ?e (cacheCoins c)\<rparr>"
        have cs': "cs' = ?c # ds" "r = Some t" using Cons.prems(2) q None Some by simp_all
        have "entry_ok (view db ds) (present ds) k ?e"
          using ok Some by (auto simp: entry_ok_def unspent_def split: if_splits)
        then have "stack_ok db cs'" using ok(1) top by (simp add: cs' cache_ok_update)
        moreover have "view db (?c # ds) j = view db (c # ds) j" for j
          using ok(2,3) None Some by (simp add: al.get_put)
        then have "view db cs' = view db (c # cs)" unfolding cs' v [symmetric] by blast
        ultimately show ?thesis using ok None Some by (auto simp: cs' al.get_put)
      next
        case None': None
        then have cs': "cs' = c # ds" "r = None" using Cons.prems(2) q None by simp_all
        then show ?thesis using ok(1,3,7) top v None None' by simp
      qed
    qed
  qed auto
  then show "stack_ok db cs'" "view db cs' = view db cs" "Option.bind r unspent = view db cs k"
    "r \<noteq> None \<Longrightarrow> present cs' k" "present cs j \<Longrightarrow> present cs' j" "r = Some c \<Longrightarrow> clean c"
    "length cs' = length cs" by auto
qed

lemma ModifyCoins_ok:
  assumes "stack_ok db (c # cs)" "ModifyCoins db c cs k = (e, cs')"
  shows "stack_ok db (c # cs')" "view db cs' = view db cs" "unspent (coins e) = view db (c # cs) k" "clean (coins e)"
    and "DIRTY e" "FRESH e \<Longrightarrow> view db cs k = None" "\<not> FRESH e \<Longrightarrow> present cs' k" "length cs' = length cs"
proof -
  have "stack_ok db (c # cs') \<and> view db cs' = view db cs \<and> unspent (coins e) = view db (c # cs) k \<and> clean (coins e) \<and>
      DIRTY e \<and> (FRESH e \<longrightarrow> view db cs k = None) \<and> (\<not> FRESH e \<longrightarrow> present cs' k) \<and> length cs' = length cs"
  proof (cases "map_of (cacheCoins c) k")
    case (Some e')
    then have "entry_ok (view db cs) (present cs) k e'" using assms(1) by (auto intro: cache_ok_entry)
    then show ?thesis using assms Some by (auto simp: ModifyCoins_def entry_ok_def)
  next
    case None
    obtain q ds where q: "GetCoins db cs k = (q, ds)" by (cases "GetCoins db cs k")
    have s: "stack_ok db cs" using assms(1) by simp
    note g = GetCoins_ok [OF s q]
    have "cache_ok (view db ds) (present ds) (cacheCoins c)"
      unfolding g(2) using assms(1) g(5) cache_ok_mono by auto
    then show ?thesis using assms(2) None q g
      by (cases q) (auto simp: ModifyCoins_def unspent_def split: if_splits)
  qed
  then show "stack_ok db (c # cs')" "view db cs' = view db cs" "unspent (coins e) = view db (c # cs) k" "clean (coins e)"
    "DIRTY e" "FRESH e \<Longrightarrow> view db cs k = None" "\<not> FRESH e \<Longrightarrow> present cs' k" "length cs' = length cs" by blast+
qed

lemma EndModify_ok:
  assumes "stack_ok db (c # cs)" "DIRTY e" "FRESH e \<Longrightarrow> view db cs k = None" "\<not> FRESH e \<Longrightarrow> present cs k"
  shows "stack_ok db (EndModify k e c # cs)"
    and "view db (EndModify k e c # cs) = (view db (c # cs))(k := unspent (Cleanup (coins e)))"
proof -
  let ?e = "e\<lparr>coins := Cleanup (coins e)\<rparr>"
  have "entry_ok (view db cs) (present cs) k ?e" using assms(2-4) by (simp add: entry_ok_def)
  then show "stack_ok db (EndModify k e c # cs)"
    using assms(1) by (auto simp: EndModify_def Let_def cache_ok_update cache_ok_delete)
  show "view db (EndModify k e c # cs) = (view db (c # cs))(k := unspent (Cleanup (coins e)))"
    using assms(3) by (auto simp: EndModify_def Let_def fun_eq_iff al.get_put al.get_del unspent_def)
qed

lemma view_tail: "view db cs' = view db cs \<Longrightarrow> view db (c # cs') = view db (c # cs)"
  by (intro ext) (simp split: option.splits)

text \<open>One modification, as it changes the view.\<close>

lemma modify_view:
  assumes "stack_ok db (c # cs)" "ModifyCoins db c cs k = (e, cs')"
  shows "stack_ok db (EndModify k (e\<lparr>coins := x\<rparr>) c # cs')"
    and "view db (EndModify k (e\<lparr>coins := x\<rparr>) c # cs') = (view db (c # cs))(k := unspent (Cleanup x))"
    and "view db cs' = view db cs"
proof -
  note m = ModifyCoins_ok [OF assms]
  have e: "DIRTY (e\<lparr>coins := x\<rparr>)" "FRESH (e\<lparr>coins := x\<rparr>) \<Longrightarrow> view db cs' k = None" "\<not> FRESH (e\<lparr>coins := x\<rparr>) \<Longrightarrow> present cs' k"
    using m by simp_all
  show "stack_ok db (EndModify k (e\<lparr>coins := x\<rparr>) c # cs')" by (rule EndModify_ok(1) [OF m(1) e])
  show "view db (EndModify k (e\<lparr>coins := x\<rparr>) c # cs') = (view db (c # cs))(k := unspent (Cleanup x))"
    using EndModify_ok(2) [OF m(1) e] view_tail [OF m(2), of c] by simp
  show "view db cs' = view db cs" by (rule m(2))
qed

lemma modify_new_view:
  assumes "stack_ok db (c # cs)" "view db cs k = None"
  shows "stack_ok db (EndModify k (ModifyNewCoins\<lparr>coins := x\<rparr>) c # cs)"
    and "view db (EndModify k (ModifyNewCoins\<lparr>coins := x\<rparr>) c # cs) = (view db (c # cs))(k := unspent (Cleanup x))"
  using EndModify_ok [OF assms(1), of "ModifyNewCoins\<lparr>coins := x\<rparr>" k] assms(2) by (simp_all add: ModifyNewCoins_def)

section \<open>Flushing keeps the view\<close>

definition merged :: "CCoinsCacheEntry option \<Rightarrow> CCoinsCacheEntry option \<Rightarrow> CCoinsCacheEntry option" where
  "merged child ours =
     (case child of None \<Rightarrow> ours
      | Some e \<Rightarrow>
          if DIRTY e then
            (case ours of
               None \<Rightarrow> if IsPruned (coins e) then None else Some \<lparr>coins = coins e, DIRTY = True, FRESH = True\<rparr>
             | Some u \<Rightarrow> if FRESH u \<and> IsPruned (coins e) then None else Some (u\<lparr>coins := coins e, DIRTY := True\<rparr>))
          else ours)"

lemma batch_coins_merged:
  assumes "distinct (map fst m)" "\<And>k e. map_of m k = Some e \<Longrightarrow> \<not> FRESH e \<Longrightarrow> map_of ours k \<noteq> None"
    and "distinct (map fst ours)"
  shows "\<exists>ours'. batch_coins m ours = Some ours' \<and> distinct (map fst ours') \<and>
    (\<forall>k. map_of ours' k = merged (map_of m k) (map_of ours k))"
  using assms
proof (induction m arbitrary: ours)
  case (Cons it m)
  obtain j e where it: "it = (j, e)" by (cases it)
  have j: "map_of m j = None" using Cons.prems(1) it by (auto simp: map_of_eq_None_iff)
  have "\<exists>o1. merge_coins it ours = Some o1 \<and> distinct (map fst o1) \<and>
      (\<forall>k. map_of o1 k = (if k = j then merged (Some e) (map_of ours j) else map_of ours k))"
    using Cons.prems(2) [of j e] Cons.prems(3)
    by (auto simp: it merge_coins_def merged_def al.get_put al.get_del distinct_update distinct_delete split: option.splits)
  then obtain o1 where o1: "merge_coins it ours = Some o1" "distinct (map fst o1)"
      "\<And>k. map_of o1 k = (if k = j then merged (Some e) (map_of ours j) else map_of ours k)" by blast
  have "map_of o1 k \<noteq> None" if "map_of m k = Some e'" "\<not> FRESH e'" for k e'
    using that Cons.prems(2) [of k e'] o1(3) j it by auto
  then obtain ours' where "batch_coins m o1 = Some ours'" "distinct (map fst ours')"
      "\<forall>k. map_of ours' k = merged (map_of m k) (map_of o1 k)"
    using Cons.IH [of o1] Cons.prems(1) o1(2) by (auto simp: it)
  then show ?case using o1 j by (auto simp: it merged_def)
qed (simp add: merged_def)

lemma fold_db_write_coins:
  "distinct (map fst m) \<Longrightarrow> fold db_write_coins m d k =
     (case map_of m k of None \<Rightarrow> d k | Some e \<Rightarrow> if DIRTY e then unspent (coins e) else d k)"
proof (induction m arbitrary: d)
  case (Cons it m)
  obtain j e where it: "it = (j, e)" by (cases it)
  have "map_of m j = None" using Cons.prems it by (auto simp: map_of_eq_None_iff)
  then show ?case using Cons by (auto simp: it db_write_coins_def unspent_def split: option.splits)
qed simp

lemma merged_ok:
  assumes "map_of m k = Some e \<Longrightarrow> entry_ok (\<lambda>k. case map_of p k of Some u \<Rightarrow> unspent (coins u) | None \<Rightarrow> below k) (\<lambda>k. map_of p k \<noteq> None) k e"
    and "map_of p k = Some u \<Longrightarrow> entry_ok below there k u"
    and "map_of m k \<noteq> None \<Longrightarrow> e = the (map_of m k)" "map_of p k \<noteq> None \<Longrightarrow> u = the (map_of p k)"
  shows "merged (map_of m k) (map_of p k) = Some r \<Longrightarrow> entry_ok below there k r"
    and "(case merged (map_of m k) (map_of p k) of Some r \<Rightarrow> unspent (coins r) | None \<Rightarrow> below k) =
      (case map_of m k of Some e \<Rightarrow> unspent (coins e) | None \<Rightarrow> (case map_of p k of Some u \<Rightarrow> unspent (coins u) | None \<Rightarrow> below k))"
  using assms
  by (cases "map_of m k"; cases "map_of p k"; force simp: merged_def entry_ok_def unspent_def split: if_splits)+

lemma clear_cache_ok: "stack_ok db cs \<Longrightarrow> stack_ok db (clear_cache c # cs)" "view db (clear_cache c # cs) = view db cs"
  by (simp_all add: clear_cache_def cache_ok_def fun_eq_iff)

lemma Flush_db_ok:
  assumes "stack_ok db [c]"
  shows "\<exists>db' cs'. Flush db c [] = Some (db', cs') \<and> stack_ok db' cs' \<and> view db' cs' = view db [c] \<and> length cs' = 1"
proof -
  let ?db = "DB_BatchWrite c db"
  have d: "distinct (map fst (cacheCoins c))" using assms by (simp add: cache_ok_def)
  have e: "clean (coins e) \<and> (\<not> DIRTY e \<longrightarrow> unspent (coins e) = view db [] k)" if "map_of (cacheCoins c) k = Some e" for k e
    using assms that by (auto simp: cache_ok_def entry_ok_def)
  have k: "db_coins ?db k = (case map_of (cacheCoins c) k of None \<Rightarrow> db_coins db k
      | Some e \<Rightarrow> if DIRTY e then unspent (coins e) else db_coins db k)" for k
    using fold_db_write_coins [OF d] by (simp add: DB_BatchWrite_def)
  have s: "stack_ok ?db []" using e assms by (auto simp: k split: option.splits if_splits)
  have "view ?db [] j = view db [c] j" for j
    using e [of j] by (auto simp: k unspent_def split: option.splits if_splits)
  then have "view ?db [] = view db [c]" by (rule ext)
  then show ?thesis using s clear_cache_ok [where db = ?db and cs = "[]" and c = c] by (simp add: Flush_def)
qed

lemma Flush_cache_ok:
  assumes "stack_ok db (c # p # ps)"
  shows "\<exists>db' cs'. Flush db c (p # ps) = Some (db', cs') \<and> stack_ok db' cs' \<and> view db' cs' = view db (c # p # ps) \<and>
    length cs' = length ps + 2"
proof -
  let ?m = "cacheCoins c" and ?p = "cacheCoins p" and ?b = "view db ps"
  have mo: "entry_ok (view db (p # ps)) (present (p # ps)) k e" if "map_of ?m k = Some e" for k e
    using assms that cache_ok_entry by (metis stack_ok.simps(2))
  have po: "entry_ok ?b (present ps) k u" if "map_of ?p k = Some u" for k u
    using assms that cache_ok_entry by (metis stack_ok.simps(2))
  obtain m' where m': "batch_coins ?m ?p = Some m'" "distinct (map fst m')" "\<And>k. map_of m' k = merged (map_of ?m k) (map_of ?p k)"
    using batch_coins_merged [of ?m ?p] assms mo by (fastforce simp: cache_ok_def entry_ok_def)
  define q where "q = the (BatchWrite c p)"
  have q: "BatchWrite c p = Some q" "cacheCoins q = m'" using m'(1) by (simp_all add: q_def BatchWrite_def)
  have e: "map_of ?m k = Some e \<Longrightarrow> entry_ok (\<lambda>k. case map_of ?p k of Some u \<Rightarrow> unspent (coins u) | None \<Rightarrow> ?b k) (\<lambda>k. map_of ?p k \<noteq> None) k e" for k e
    using mo [of k e] by (simp add: entry_ok_def)
  have r: "merged (map_of ?m k) (map_of ?p k) = Some r \<Longrightarrow> entry_ok ?b (present ps) k r" for k r
    using merged_ok(1) [where m = ?m and p = ?p and k = k and e = "the (map_of ?m k)" and u = "the (map_of ?p k)" and below = ?b and there = "present ps" and r = r] e po by auto
  have v: "view db (q # ps) k = view db (c # p # ps) k" for k
    using merged_ok(2) [where m = ?m and p = ?p and k = k and e = "the (map_of ?m k)" and u = "the (map_of ?p k)" and below = ?b and there = "present ps"] e po by (simp add: q m' cong: option.case_cong)
  then have "view db (q # ps) = view db (c # p # ps)" by (rule ext)
  moreover have "stack_ok db (q # ps)" using assms r m'(2) by (simp add: q cache_ok_def m'(3))
  ultimately show ?thesis using clear_cache_ok [where db = db and cs = "q # ps" and c = c] q(1) by (simp add: Flush_def)
qed

lemma Flush_ok:
  assumes "stack_ok db (c # cs)"
  shows "\<exists>db' cs'. Flush db c cs = Some (db', cs') \<and> stack_ok db' cs' \<and> view db' cs' = view db (c # cs) \<and>
    length cs' = length cs + 1"
  using assms Flush_db_ok [of db c] Flush_cache_ok [of db c] by (cases cs) auto

text \<open>
  Every use of the caches: layers are added and dropped, read, modified through modifiers, filled
  with new transactions, and flushed into the layer or database below. \<open>other\<close> stands for changes of
  the remaining fields of a cache.
\<close>

inductive coins_run :: "'t CCoinsViewDB \<Rightarrow> 't CCoinsViewCache list \<Rightarrow> bool" where
  start: "stack_ok db [] \<Longrightarrow> coins_run db []"
| layer: "coins_run db cs \<Longrightarrow> coins_run db (CCoinsViewCache_new # cs)"
| discard: "coins_run db (c # cs) \<Longrightarrow> coins_run db cs"
| read: "coins_run db cs \<Longrightarrow> GetCoins db cs k = (r, cs') \<Longrightarrow> coins_run db cs'"
| modify: "coins_run db (c # cs) \<Longrightarrow> ModifyCoins db c cs k = (e, cs') \<Longrightarrow>
    coins_run db (EndModify k (e\<lparr>coins := x\<rparr>) c # cs')"
| modify_new: "coins_run db (c # cs) \<Longrightarrow> view db cs k = None \<Longrightarrow>
    coins_run db (EndModify k (ModifyNewCoins\<lparr>coins := x\<rparr>) c # cs)"
| flush: "coins_run db (c # cs) \<Longrightarrow> Flush db c cs = Some (db', cs') \<Longrightarrow> coins_run db' cs'"
| other: "coins_run db (c # cs) \<Longrightarrow> cacheCoins c' = cacheCoins c \<Longrightarrow> coins_run db (c' # cs)"

lemma coins_run_ok: "coins_run db cs \<Longrightarrow> stack_ok db cs"
proof (induction rule: coins_run.induct)
  case (layer db cs)
  then show ?case by (simp add: CCoinsViewCache_new_def cache_ok_def)
next
  case (read db cs k r cs')
  then show ?case using GetCoins_ok(1) by blast
next
  case (modify db c cs k e cs' x)
  then show ?case using modify_view(1) by blast
next
  case (modify_new db c cs k x)
  then show ?case using modify_new_view(1) by blast
next
  case (flush db c cs db' cs')
  then show ?case using Flush_ok [of db c cs] by auto
qed auto

text \<open>
  C3. A stack of coin caches behaves like one map from transactions to unspent outputs: in every
  reachable stack, reading returns the map's value and leaves the map as it is, a modification
  changes it at the modified transaction only, and flushing a cache into the view below never
  fails the assertion that guards it and leaves the map as it is. The marks for fresh and changed
  entries, and the entries that reading brings into the caches, are not visible.
\<close>

theorem coins_caches_refine_map:
  assumes "coins_run db (c # cs)"
  shows "Option.bind (fst (GetCoins db (c # cs) k)) unspent = view db (c # cs) k \<and>
    view db (snd (GetCoins db (c # cs) k)) = view db (c # cs) \<and>
    (\<exists>e cs'. ModifyCoins db c cs k = (e, cs') \<and> unspent (coins e) = view db (c # cs) k \<and>
      view db (EndModify k (e\<lparr>coins := x\<rparr>) c # cs') = (view db (c # cs))(k := unspent (Cleanup x))) \<and>
    (\<exists>db' cs'. Flush db c cs = Some (db', cs') \<and> view db' cs' = view db (c # cs))"
proof -
  note ok = coins_run_ok [OF assms]
  obtain r ds where g: "GetCoins db (c # cs) k = (r, ds)" by (cases "GetCoins db (c # cs) k")
  obtain e cs' where m: "ModifyCoins db c cs k = (e, cs')" by (cases "ModifyCoins db c cs k")
  show ?thesis
    using GetCoins_ok(2,3) [OF ok g] g m ModifyCoins_ok(3) [OF ok m] modify_view(2) [OF ok m, of x] Flush_ok [OF ok] by auto
qed

definition w_coins :: CCoins where
  "w_coins = \<lparr>fCoinBase = True, c_vout = [\<lparr>nValue = 5, scriptPubKey = []\<rparr>], c_nHeight = 7, c_nVersion = 4\<rparr>"

definition w_coins_db :: "unit CCoinsViewDB" where
  "w_coins_db =
     \<lparr>db_coins = (\<lambda>k. if k = 1 then Some w_coins else None), db_best = 9, db_anchor = (\<lambda>_. None), db_anchors = (\<lambda>_ _. None),
      db_nullifiers = (\<lambda>_ _. False), db_empty = (\<lambda>_. (3, ()))\<rparr>"

lemma w_coins_facts: "clean w_coins" "\<not> IsPruned w_coins"
  by (simp_all add: w_coins_def clean_def IsPruned_def CTxOut_IsNull_def)

lemma w_coins_run: "coins_run w_coins_db [CCoinsViewCache_new, CCoinsViewCache_new]"
  by (intro coins_run.layer coins_run.start) (simp add: w_coins_db_def w_coins_facts)

theorem coins_caches_refine_map_witness:
  "\<exists>e cs'. ModifyCoins w_coins_db CCoinsViewCache_new [CCoinsViewCache_new] 1 = (e, cs') \<and> coins e = w_coins \<and>
     view w_coins_db (EndModify 1 (e\<lparr>coins := CCoins_new\<rparr>) CCoinsViewCache_new # cs') 1 = None"
  using coins_caches_refine_map [OF w_coins_run, of 1 CCoins_new]
  by (auto simp: w_coins_db_def w_coins_facts CCoinsViewCache_new_def ModifyCoins_def fun_eq_iff)

end
