(* ===== verification/ConnectCoins.thy ===== *)
theory ConnectCoins
  imports Coins
begin

text \<open>
  How blocks change the unspent outputs: the loop of \<open>ConnectBlock\<close> over the transactions with its checks
  (\<open>CheckTxInputs\<close>, the counts of signature operations, fees) and updates (\<open>UpdateCoins\<close> with the undo data
  of \<open>undo.h\<close>), and \<open>DisconnectBlock\<close> with \<open>ApplyTxInUndo\<close> (all of \<open>main.cpp\<close>). The verification of
  scripts is an argument; the commitment trees and the address indices of these functions are left out.
  The undo data passes through the disk in \<open>CoinsFormat\<close>.
\<close>

section \<open>Spending and restoring\<close>

record CTxInUndo =
  u_txout :: CTxOut
  u_fCoinBase :: bool
  u_nHeight :: u32
  u_nVersion :: int

definition spend_undo :: "nat \<Rightarrow> CCoins \<Rightarrow> CTxInUndo" where
  "spend_undo nPos c =
     (let undo = \<lparr>u_txout = c_vout c ! nPos, u_fCoinBase = False, u_nHeight = 0, u_nVersion = 0\<rparr>;
          c' = fst (Spend nPos c)
      in if length (c_vout c') = 0
         then undo\<lparr>u_nHeight := of_int (c_nHeight c'), u_fCoinBase := fCoinBase c', u_nVersion := c_nVersion c'\<rparr>
         else undo)"

fun spend_inputs ::
  "'t CCoinsViewDB \<Rightarrow> CTxIn list \<Rightarrow> 't CCoinsViewCache \<Rightarrow> 't CCoinsViewCache list \<Rightarrow>
   ('t CCoinsViewCache \<times> 't CCoinsViewCache list \<times> CTxInUndo list) option" where
  "spend_inputs db [] c cs = Some (c, cs, [])"
| "spend_inputs db (txin # ins) c cs =
     (case ModifyCoins db c cs (op_hash (prevout txin)) of
        (e, cs') \<Rightarrow>
          let nPos = unat (op_n (prevout txin))
          in if nPos \<ge> length (c_vout (coins e)) \<or> CTxOut_IsNull (c_vout (coins e) ! nPos) then None
             else case spend_inputs db ins
                         (EndModify (op_hash (prevout txin)) (e\<lparr>coins := fst (Spend nPos (coins e))\<rparr>) c) cs' of
                    None \<Rightarrow> None
                  | Some (c'', cs'', undo) \<Rightarrow> Some (c'', cs'', spend_undo nPos (coins e) # undo))"

definition UpdateCoins ::
  "(CTransaction \<Rightarrow> uint256) \<Rightarrow> 't CCoinsViewDB \<Rightarrow> CTransaction \<Rightarrow> int \<Rightarrow> 't CCoinsViewCache \<Rightarrow> 't CCoinsViewCache list \<Rightarrow>
   ('t CCoinsViewCache \<times> 't CCoinsViewCache list \<times> CTxInUndo list) option" where
  "UpdateCoins GetHash db tx nHeight c cs =
     (case (if IsCoinBase tx then Some (c, cs, []) else spend_inputs db (vin tx) c cs) of
        None \<Rightarrow> None
      | Some (c, cs, undo) \<Rightarrow>
          Some (EndModify (GetHash tx) (ModifyNewCoins\<lparr>coins := FromTx tx nHeight\<rparr>) (SetNullifiers tx True c), cs, undo))"

text \<open>The vector is enlarged with null outputs; the sum of position and one is a 32-bit sum.\<close>

definition restore_output :: "CTxInUndo \<Rightarrow> u32 \<Rightarrow> CCoins \<Rightarrow> CCoins" where
  "restore_output undo n c =
     (let c = (if u_nHeight undo \<noteq> 0
               then \<lparr>fCoinBase = u_fCoinBase undo, c_vout = [], c_nHeight = sint (u_nHeight undo), c_nVersion = u_nVersion undo\<rparr>
               else c);
          v = (if length (c_vout c) < unat (n + 1)
               then c_vout c @ replicate (unat (n + 1) - length (c_vout c)) CTxOut_null else c_vout c)
      in c\<lparr>c_vout := v[unat n := u_txout undo]\<rparr>)"

definition undo_clean :: "CTxInUndo \<Rightarrow> u32 \<Rightarrow> CCoins \<Rightarrow> bool" where
  "undo_clean undo n c \<longleftrightarrow>
     (if u_nHeight undo \<noteq> 0 then IsPruned c else \<not> IsPruned c \<and> \<not> IsAvailable (unat n) c)"

definition ApplyTxInUndo ::
  "'t CCoinsViewDB \<Rightarrow> CTxInUndo \<Rightarrow> COutPoint \<Rightarrow> 't CCoinsViewCache \<Rightarrow> 't CCoinsViewCache list \<Rightarrow>
   't CCoinsViewCache \<times> 't CCoinsViewCache list \<times> bool" where
  "ApplyTxInUndo db undo out c cs =
     (case ModifyCoins db c cs (op_hash out) of
        (e, cs') \<Rightarrow> (EndModify (op_hash out) (e\<lparr>coins := restore_output undo (op_n out) (coins e)\<rparr>) c, cs',
                    undo_clean undo (op_n out) (coins e)))"

fun restore_inputs ::
  "'t CCoinsViewDB \<Rightarrow> (CTxIn \<times> CTxInUndo) list \<Rightarrow> 't CCoinsViewCache \<Rightarrow> 't CCoinsViewCache list \<Rightarrow> bool \<Rightarrow>
   't CCoinsViewCache \<times> 't CCoinsViewCache list \<times> bool" where
  "restore_inputs db [] c cs fClean = (c, cs, fClean)"
| "restore_inputs db ((input, undo) # us) c cs fClean =
     (case ApplyTxInUndo db undo (prevout input) c cs of
        (c', cs', ok) \<Rightarrow> restore_inputs db us c' cs' (fClean \<and> ok))"

text \<open>The removal of the outputs of a transaction, with the check that they are those of the block.\<close>

definition remove_outputs ::
  "(CTransaction \<Rightarrow> uint256) \<Rightarrow> 't CCoinsViewDB \<Rightarrow> CTransaction \<Rightarrow> int \<Rightarrow> 't CCoinsViewCache \<Rightarrow> 't CCoinsViewCache list \<Rightarrow>
   't CCoinsViewCache \<times> 't CCoinsViewCache list \<times> bool" where
  "remove_outputs GetHash db tx nHeight c cs =
     (case ModifyCoins db c cs (GetHash tx) of
        (e, cs') \<Rightarrow>
          let outs = ClearUnspendable (coins e); outsBlock = FromTx tx nHeight;
              outs = (if c_nVersion outsBlock < 0 then outs\<lparr>c_nVersion := c_nVersion outsBlock\<rparr> else outs)
          in (SetNullifiers tx False (EndModify (GetHash tx) (e\<lparr>coins := CCoins_Clear outs\<rparr>) c), cs', CCoins_eq outs outsBlock))"

text \<open>
  The loop of \<open>DisconnectBlock\<close> over the transactions after the first one, the last one first,
  each with its undo data; \<^const>\<open>None\<close> is the result \<open>FAILED\<close>.
\<close>

fun disconnect_txs ::
  "(CTransaction \<Rightarrow> uint256) \<Rightarrow> 't CCoinsViewDB \<Rightarrow> int \<Rightarrow> (CTransaction \<times> CTxInUndo list) list \<Rightarrow>
   't CCoinsViewCache \<Rightarrow> 't CCoinsViewCache list \<Rightarrow> bool \<Rightarrow> ('t CCoinsViewCache \<times> 't CCoinsViewCache list \<times> bool) option" where
  "disconnect_txs GetHash db nHeight [] c cs fClean = Some (c, cs, fClean)"
| "disconnect_txs GetHash db nHeight ((tx, vprevout) # txs) c cs fClean =
     (case remove_outputs GetHash db tx nHeight c cs of
        (c, cs, ok) \<Rightarrow>
          if length vprevout \<noteq> length (vin tx) then None
          else case restore_inputs db (rev (zip (vin tx) vprevout)) c cs (fClean \<and> ok) of
                 (c, cs, fClean) \<Rightarrow> disconnect_txs GetHash db nHeight txs c cs fClean)"

definition disconnect_coins ::
  "(CTransaction \<Rightarrow> uint256) \<Rightarrow> 't CCoinsViewDB \<Rightarrow> int \<Rightarrow> CTransaction list \<Rightarrow> CTxInUndo list list \<Rightarrow>
   't CCoinsViewCache \<Rightarrow> 't CCoinsViewCache list \<Rightarrow> ('t CCoinsViewCache \<times> 't CCoinsViewCache list \<times> bool) option" where
  "disconnect_coins GetHash db nHeight vtx vtxundo c cs =
     (if length vtxundo + 1 \<noteq> length vtx then None
      else case disconnect_txs GetHash db nHeight (rev (zip (tl vtx) vtxundo)) c cs True of
             None \<Rightarrow> None
           | Some (c, cs, fClean) \<Rightarrow>
              (case remove_outputs GetHash db (hd vtx) nHeight c cs of (c, cs, ok) \<Rightarrow> Some (c, cs, fClean \<and> ok)))"

text \<open>
  No transaction of the block may have unspent outputs already. Then the transactions are checked
  and applied in order; only those after the first keep undo data.
\<close>

datatype connect_error =
    bad_txns_BIP30 | bad_blk_sigops | bad_txns_inputs_missingorspent | bad_txns_shielded_requirements_not_met | inputs_unavailable
  | shielded_requirements_not_met | bad_txns_premature_spend_of_coinbase | bad_txns_inputvalues_outofrange | bad_txns_in_belowout | bad_txns_fee_negative
  | bad_txns_fee_outofrange | script_verify_failed | bad_cb_amount | failed failure

fun overwrites :: "(CTransaction \<Rightarrow> uint256) \<Rightarrow> 't CCoinsViewDB \<Rightarrow> CTransaction list \<Rightarrow> 't CCoinsViewCache list \<Rightarrow> bool \<times> 't CCoinsViewCache list" where
  "overwrites GetHash db [] cs = (False, cs)"
| "overwrites GetHash db (tx # txs) cs =
     (case GetCoins db cs (GetHash tx) of (r, cs') \<Rightarrow>
        if (case r of None \<Rightarrow> False | Some c \<Rightarrow> \<not> IsPruned c) then (True, cs') else overwrites GetHash db txs cs')"

definition MAX_BLOCK_SIGOPS :: u32 where "MAX_BLOCK_SIGOPS = 20000"
definition COINBASE_MATURITY :: int where "COINBASE_MATURITY = 100"

definition GetLegacySigOpCount :: "CTransaction \<Rightarrow> u32" where
  "GetLegacySigOpCount tx =
     sum_list (map (\<lambda>txin. of_nat (GetSigOpCount (scriptSig txin) False)) (vin tx)) +
     sum_list (map (\<lambda>txout. of_nat (GetSigOpCount (scriptPubKey txout) False)) (vout tx))"

fun p2sh_sigops :: "'t CCoinsViewDB \<Rightarrow> CTxIn list \<Rightarrow> u32 \<Rightarrow> 't CCoinsViewCache list \<Rightarrow> u32 option \<times> 't CCoinsViewCache list" where
  "p2sh_sigops db [] nSigOps cs = (Some nSigOps, cs)"
| "p2sh_sigops db (txIn # ins) nSigOps cs =
     (case GetOutputFor db cs txIn of
        (None, cs') \<Rightarrow> (None, cs')
      | (Some prev, cs') \<Rightarrow>
          p2sh_sigops db ins
            (if IsPayToScriptHash (scriptPubKey prev)
             then nSigOps + of_nat (GetSigOpCount_P2SH (scriptPubKey prev) (scriptSig txIn)) else nSigOps) cs')"

definition GetP2SHSigOpCount :: "'t CCoinsViewDB \<Rightarrow> CTransaction \<Rightarrow> 't CCoinsViewCache list \<Rightarrow> u32 option \<times> 't CCoinsViewCache list" where
  "GetP2SHSigOpCount db tx cs = (if IsCoinBase tx then (Some 0, cs) else p2sh_sigops db (vin tx) 0 cs)"

text \<open>The loop of \<open>CheckTxInputs\<close>; the position of a spent output is in range after \<open>HaveInputs\<close>.\<close>

fun check_inputs ::
  "'t CCoinsViewDB \<Rightarrow> int \<Rightarrow> CTxIn list \<Rightarrow> CAmount \<Rightarrow> 't CCoinsViewCache list \<Rightarrow> connect_error + CAmount \<times> 't CCoinsViewCache list" where
  "check_inputs db nSpendHeight [] nValueIn cs = Inr (nValueIn, cs)"
| "check_inputs db nSpendHeight (txIn # ins) nValueIn cs =
     (case GetCoins db cs (op_hash (prevout txIn)) of
        (None, cs') \<Rightarrow> Inl (failed assertion_failed)
      | (Some c, cs') \<Rightarrow>
          if fCoinBase c \<and> nSpendHeight - c_nHeight c < COINBASE_MATURITY then Inl bad_txns_premature_spend_of_coinbase
          else let v = nValue (c_vout c ! unat (op_n (prevout txIn))); nValueIn = nValueIn + v
               in if \<not> MoneyRange v \<or> \<not> MoneyRange nValueIn then Inl bad_txns_inputvalues_outofrange
                  else check_inputs db nSpendHeight ins nValueIn cs')"

definition CheckTxInputs :: "'t CCoinsViewDB \<Rightarrow> CTransaction \<Rightarrow> int \<Rightarrow> 't CCoinsViewCache list \<Rightarrow> connect_error + 't CCoinsViewCache list" where
  "CheckTxInputs db tx nSpendHeight cs =
     (case HaveInputs db tx cs of (have, cs) \<Rightarrow>
        if \<not> have then Inl inputs_unavailable
        else case HaveShieldedRequirements db tx cs of (met, cs) \<Rightarrow>
          if \<not> met then Inl shielded_requirements_not_met
          else case check_inputs db nSpendHeight (vin tx) 0 cs of
            Inl err \<Rightarrow> Inl err
          | Inr (nValueIn, cs) \<Rightarrow>
             (case GetShieldedValueIn tx of
                None \<Rightarrow> Inl (failed exception_thrown)
              | Some shielded \<Rightarrow>
                  let nValueIn = nValueIn + shielded
                  in if \<not> MoneyRange nValueIn then Inl bad_txns_inputvalues_outofrange
                     else case GetValueOut tx of
                       None \<Rightarrow> Inl (failed exception_thrown)
                     | Some nValueOut \<Rightarrow>
                         if nValueIn < nValueOut then Inl bad_txns_in_belowout
                         else if nValueIn - nValueOut < 0 then Inl bad_txns_fee_negative
                         else if \<not> MoneyRange (nValueIn - nValueOut) then Inl bad_txns_fee_outofrange
                         else Inr cs))"

text \<open>
  The checks of one transaction, with the counter of signature operations and the fees. The
  verification of scripts is an argument; it is given the coins of the view, and it always
  succeeds where the code skips it. (With script-checking threads the code collects the checks
  and rejects the block after the loop instead of inside it.) The height at
  which the outputs are spent is that of the block, since the view is at its predecessor. Amounts and their
  sums are integers: each is checked to be in range, and the fees of a block add up beyond 64 bits only
  if it spends thousands of times \<open>MAX_MONEY\<close>.
\<close>

type_synonym script_check = "CTransaction \<Rightarrow> (uint256 \<Rightarrow> CCoins option) \<Rightarrow> bool"

definition check_tx ::
  "script_check \<Rightarrow> 't CCoinsViewDB \<Rightarrow> int \<Rightarrow> CTransaction \<Rightarrow> u32 \<Rightarrow> 't CCoinsViewCache list \<Rightarrow>
   connect_error + 't CCoinsViewCache list \<times> u32 \<times> CAmount" where
  "check_tx ScriptCheck db nHeight tx nSigOps cs =
     (let nSigOps = nSigOps + GetLegacySigOpCount tx
      in if nSigOps > MAX_BLOCK_SIGOPS then Inl bad_blk_sigops
         else if IsCoinBase tx then Inr (cs, nSigOps, 0)
         else case HaveInputs db tx cs of (have, cs) \<Rightarrow>
           if \<not> have then Inl bad_txns_inputs_missingorspent
           else case HaveShieldedRequirements db tx cs of (met, cs) \<Rightarrow>
             if \<not> met then Inl bad_txns_shielded_requirements_not_met
             else case GetP2SHSigOpCount db tx cs of
               (None, cs) \<Rightarrow> Inl (failed assertion_failed)
             | (Some n, cs) \<Rightarrow>
                 if nSigOps + n > MAX_BLOCK_SIGOPS then Inl bad_blk_sigops
                 else case GetValueIn db tx cs of
                   (Inl f, cs) \<Rightarrow> Inl (failed f)
                 | (Inr valueIn, cs) \<Rightarrow>
                    (case GetValueOut tx of
                       None \<Rightarrow> Inl (failed exception_thrown)
                     | Some valueOut \<Rightarrow>
                        (case CheckTxInputs db tx nHeight cs of
                           Inl err \<Rightarrow> Inl err
                         | Inr cs \<Rightarrow>
                             if \<not> ScriptCheck tx (\<lambda>txid. fst (GetCoins db cs txid)) then Inl script_verify_failed
                             else Inr (cs, nSigOps + n, valueIn - valueOut))))"

definition connect_tx ::
  "(CTransaction \<Rightarrow> uint256) \<Rightarrow> script_check \<Rightarrow> 't CCoinsViewDB \<Rightarrow> int \<Rightarrow> CTransaction \<Rightarrow> u32 \<Rightarrow> 't CCoinsViewCache list \<Rightarrow>
   connect_error + 't CCoinsViewCache list \<times> CTxInUndo list \<times> u32 \<times> CAmount" where
  "connect_tx GetHash ScriptCheck db nHeight tx nSigOps cs =
     (case check_tx ScriptCheck db nHeight tx nSigOps cs of
        Inl err \<Rightarrow> Inl err
      | Inr ([], _) \<Rightarrow> Inl (failed assertion_failed)
      | Inr (c # cs, nSigOps, fee) \<Rightarrow>
         (case UpdateCoins GetHash db tx nHeight c cs of
            None \<Rightarrow> Inl (failed assertion_failed)
          | Some (c', cs', undo) \<Rightarrow> Inr (c' # cs', undo, nSigOps, fee)))"

fun connect_txs ::
  "(CTransaction \<Rightarrow> uint256) \<Rightarrow> script_check \<Rightarrow> 't CCoinsViewDB \<Rightarrow> int \<Rightarrow> CTransaction list \<Rightarrow> u32 \<Rightarrow> CAmount \<Rightarrow> 't CCoinsViewCache list \<Rightarrow>
   connect_error + 't CCoinsViewCache list \<times> CTxInUndo list list \<times> CAmount" where
  "connect_txs GetHash ScriptCheck db nHeight [] nSigOps nFees cs = Inr (cs, [], nFees)"
| "connect_txs GetHash ScriptCheck db nHeight (tx # txs) nSigOps nFees cs =
     (case connect_tx GetHash ScriptCheck db nHeight tx nSigOps cs of
        Inl err \<Rightarrow> Inl err
      | Inr (cs', undo, nSigOps, fee) \<Rightarrow>
         (case connect_txs GetHash ScriptCheck db nHeight txs nSigOps (nFees + fee) cs' of
            Inl err \<Rightarrow> Inl err
          | Inr (cs'', undos, nFees) \<Rightarrow> Inr (cs'', undo # undos, nFees)))"

definition connect_coins ::
  "(CTransaction \<Rightarrow> uint256) \<Rightarrow> script_check \<Rightarrow> 't CCoinsViewDB \<Rightarrow> int \<Rightarrow> CTransaction list \<Rightarrow> 't CCoinsViewCache list \<Rightarrow>
   connect_error + 't CCoinsViewCache list \<times> CTxInUndo list list \<times> CAmount" where
  "connect_coins GetHash ScriptCheck db nHeight vtx cs =
     (case overwrites GetHash db vtx cs of (over, cs) \<Rightarrow>
        if over then Inl bad_txns_BIP30
        else case connect_txs GetHash ScriptCheck db nHeight vtx 0 0 cs of
               Inl err \<Rightarrow> Inl err
             | Inr (cs, undos, nFees) \<Rightarrow> Inr (cs, tl undos, nFees))"

section \<open>Restoring undoes spending\<close>

definition proper :: "CTxOut list \<Rightarrow> bool" where
  "proper v \<longleftrightarrow> (\<forall>out \<in> set v. CTxOut_IsNull out \<longrightarrow> out = CTxOut_null)"

definition stored :: "CTxOut \<Rightarrow> bool" where
  "stored out \<longleftrightarrow> MoneyRange (nValue out) \<and> length (scriptPubKey out) \<le> MAX_SCRIPT_SIZE"

definition good_coins :: "CCoins \<Rightarrow> bool" where
  "good_coins c \<longleftrightarrow> clean c \<and> proper (c_vout c) \<and> list_all (\<lambda>out. CTxOut_IsNull out \<or> stored out) (c_vout c) \<and>
     length (c_vout c) < 2 ^ 28 \<and> 0 < c_nHeight c \<and> c_nHeight c < 2 ^ 31 \<and> 0 \<le> c_nVersion c \<and> c_nVersion c < 2 ^ 31"

definition undo_stored :: "CTxInUndo \<Rightarrow> bool" where
  "undo_stored u \<longleftrightarrow> stored (u_txout u) \<and> u_nHeight u < 2 ^ 31 \<and>
     (if u_nHeight u = 0 then u_nVersion u = 0 else 0 \<le> u_nVersion u \<and> u_nVersion u < 2 ^ 31)"

definition undo_ok :: "nat \<Rightarrow> CTxInUndo list \<Rightarrow> bool" where
  "undo_ok n us \<longleftrightarrow> length us = n \<and> list_all undo_stored us"

lemma null_IsNull [simp]: "CTxOut_IsNull CTxOut_null"
  by (simp add: CTxOut_IsNull_def CTxOut_null_def)

lemma drop_nulls_prefix: "\<exists>t. v = drop_nulls v @ t \<and> list_all CTxOut_IsNull t"
proof (induction v rule: drop_nulls.induct)
  case (1 v)
  show ?case
  proof (cases "v \<noteq> [] \<and> CTxOut_IsNull (last v)")
    case True
    then obtain t where "butlast v = drop_nulls (butlast v) @ t" "list_all CTxOut_IsNull t" using 1 by blast
    moreover have "drop_nulls v = drop_nulls (butlast v)" using True by (subst drop_nulls.simps) simp
    moreover have "v = butlast v @ [last v]" using True by simp
    ultimately show ?thesis using True by (intro exI [of _ "t @ [last v]"]) (metis append_assoc list_all_append list.pred_inject)
  next
    case False
    then have "drop_nulls v = v" by (intro drop_nulls_id) blast
    then show ?thesis by simp
  qed
qed

lemma drop_nulls_pad:
  assumes "proper v"
  shows "drop_nulls v @ replicate (length v - length (drop_nulls v)) CTxOut_null = v"
proof -
  obtain t where t: "v = drop_nulls v @ t" "list_all CTxOut_IsNull t" using drop_nulls_prefix by blast
  have "\<forall>out \<in> set t. out = CTxOut_null"
    using t assms unfolding proper_def list_all_iff by (metis Un_iff set_append)
  then have "t = replicate (length t) CTxOut_null" by (simp add: replicate_length_same)
  moreover have "length t = length v - length (drop_nulls v)" using t(1) by (metis add_diff_cancel_left' length_append)
  ultimately show ?thesis using t(1) by simp
qed

lemma length_drop_nulls: "length (drop_nulls v) \<le> length v"
  using drop_nulls_prefix [of v] by (auto dest!: arg_cong [of v _ length])

lemma set_drop_nulls: "set (drop_nulls v) \<subseteq> set v"
  using drop_nulls_prefix [of v] by (metis Un_upper1 set_append)

lemma proper_null_update: "proper v \<Longrightarrow> proper (v[n := CTxOut_null])"
  by (auto simp: proper_def dest!: subsetD [OF set_update_subset_insert])

text \<open>The vector of outputs, spent at a position and enlarged again.\<close>

lemma respend_vout:
  assumes "v \<noteq> []" "\<not> CTxOut_IsNull (last v)" "proper v" "n < length v" "\<not> CTxOut_IsNull (v ! n)"
  shows "let d = drop_nulls (v[n := CTxOut_null])
    in (if length d < n + 1 then d @ replicate (n + 1 - length d) CTxOut_null else d)[n := v ! n] = v"
proof (cases "n = length v - 1")
  case True
  let ?d = "drop_nulls (v[n := CTxOut_null])"
  have l: "length v = n + 1" using True assms(1,4) by linarith
  have pad: "?d @ replicate (n + 1 - length ?d) CTxOut_null = v[n := CTxOut_null]"
    using drop_nulls_pad [OF proper_null_update [OF assms(3)], of n] l by simp
  have "length ?d \<le> n + 1" using arg_cong [OF pad, of length] l by simp
  then have "(if length ?d < n + 1 then ?d @ replicate (n + 1 - length ?d) CTxOut_null else ?d) = v[n := CTxOut_null]"
    using pad by (cases "length ?d < n + 1") simp_all
  then show ?thesis using assms(4) by (simp add: Let_def)
next
  case False
  then have "last (v[n := CTxOut_null]) = last v" using assms(1) by (simp add: last_list_update)
  then have "drop_nulls (v[n := CTxOut_null]) = v[n := CTxOut_null]" using assms(2) by (intro drop_nulls_id) simp
  then show ?thesis using assms(4) by (simp add: Let_def)
qed

lemma unat_height: "0 < h \<Longrightarrow> h < 2 ^ 31 \<Longrightarrow> (of_int h :: u32) \<noteq> 0 \<and> sint (of_int h :: u32) = h" for h :: int
  by (simp add: signed_of_int signed_take_bit_int_eq_self word_of_int_eq_0_iff) (auto simp: zdvd_not_zless dest: zdvd_imp_le)

lemma restore_spend:
  assumes "good_coins c" "IsAvailable (unat p) c"
    and x: "if IsPruned (fst (Spend (unat p) c)) then IsPruned x else x = fst (Spend (unat p) c)"
  shows "restore_output (spend_undo (unat p) c) p x = c" "undo_clean (spend_undo (unat p) c) p x"
proof -
  let ?n = "unat p" and ?v = "c_vout c" and ?d = "drop_nulls ((c_vout c)[unat p := CTxOut_null])"
  have n: "?n < length ?v" "\<not> CTxOut_IsNull (?v ! ?n)" using assms(2) by (auto simp: IsAvailable_def)
  then have v: "?v \<noteq> []" by auto
  have l: "\<not> CTxOut_IsNull (last ?v)" "proper ?v" and h: "0 < c_nHeight c" "c_nHeight c < 2 ^ 31" "length ?v < 2 ^ 32"
    using assms(1) v by (auto simp: good_coins_def clean_def)
  have sp: "fst (Spend ?n c) = c\<lparr>c_vout := ?d\<rparr>" using n by (simp add: Spend_def Cleanup_def)
  have n1: "unat (p + 1) = ?n + 1" using n(1) h(3) by (simp add: unat_word_ariths)
  have res: "(if length ?d < unat (p + 1) then ?d @ replicate (unat (p + 1) - length ?d) CTxOut_null else ?d)[?n := ?v ! ?n] = ?v"
    using respend_vout [OF v l n] unfolding Let_def n1 .
  have pr: "IsPruned (fst (Spend ?n c)) \<longleftrightarrow> ?d = []"
    using clean_pruned [of "fst (Spend ?n c)"] drop_nulls_clean [of "(c_vout c)[unat p := CTxOut_null]"]
    by (simp add: sp clean_def)
  have "restore_output (spend_undo ?n c) p x = c \<and> undo_clean (spend_undo ?n c) p x"
  proof (cases "?d = []")
    case True
    have u: "spend_undo ?n c = \<lparr>u_txout = ?v ! ?n, u_fCoinBase = fCoinBase c, u_nHeight = of_int (c_nHeight c), u_nVersion = c_nVersion c\<rparr>"
      using True by (simp add: spend_undo_def sp)
    have r: "(replicate (?n + 1) CTxOut_null)[?n := ?v ! ?n] = ?v" using res unfolding True n1 by simp
    have "IsPruned x" using x pr True by simp
    then show ?thesis using r unat_height [OF h(1,2)] n1
      by (auto intro: CCoins.equality simp: restore_output_def u undo_clean_def Let_def)
  next
    case False
    then have x': "x = c\<lparr>c_vout := ?d\<rparr>" "\<not> IsPruned x" using x pr sp by simp_all
    obtain t where t: "(c_vout c)[?n := CTxOut_null] = ?d @ t" using drop_nulls_prefix by blast
    have "\<not> IsAvailable ?n x"
    proof
      assume a: "IsAvailable ?n x"
      then have "?d ! ?n = (?d @ t) ! ?n" by (simp add: IsAvailable_def x'(1) nth_append)
      also have "\<dots> = CTxOut_null" using n(1) by (simp flip: t)
      finally show False using a by (simp add: IsAvailable_def x'(1))
    qed
    then show ?thesis using False res x'
      by (auto intro!: CCoins.equality simp: restore_output_def spend_undo_def undo_clean_def sp Let_def split: if_splits)
  qed
  then show "restore_output (spend_undo (unat p) c) p x = c" "undo_clean (spend_undo (unat p) c) p x" by blast+
qed

text \<open>A view whose entries a spent output can be given back to.\<close>

definition good_view :: "(uint256 \<Rightarrow> CCoins option) \<Rightarrow> bool" where
  "good_view u \<longleftrightarrow> (\<forall>k c. u k = Some c \<longrightarrow> good_coins c)"

fun null_view :: "'t CCoinsViewDB \<Rightarrow> 't CCoinsViewCache list \<Rightarrow> ShieldedType \<Rightarrow> uint256 \<Rightarrow> bool" where
  "null_view db [] t nf = db_nullifiers db t nf"
| "null_view db (c # cs) t nf = (case map_of (cacheNullifiers c t) nf of Some e \<Rightarrow> n_entered e | None \<Rightarrow> null_view db cs t nf)"

lemma null_view_cong: "map cacheNullifiers cs' = map cacheNullifiers cs \<Longrightarrow> null_view db cs' = null_view db cs"
proof (induction cs arbitrary: cs')
  case (Cons c cs)
  then obtain c' ds where cs': "cs' = c' # ds" "cacheNullifiers c' = cacheNullifiers c" "map cacheNullifiers ds = map cacheNullifiers cs"
    by (cases cs') auto
  then have "null_view db ds = null_view db cs" using Cons.IH by blast
  then show ?case by (intro ext) (simp add: cs' cong: option.case_cong)
qed simp

lemma GetCoins_nullifiers: "map cacheNullifiers (snd (GetCoins db cs k)) = map cacheNullifiers cs"
  by (induction cs) (auto split: option.splits prod.splits)

lemma ModifyCoins_nullifiers: "ModifyCoins db c cs k = (e, cs') \<Longrightarrow> map cacheNullifiers cs' = map cacheNullifiers cs"
  using GetCoins_nullifiers [of db cs k] by (auto simp: ModifyCoins_def split: option.splits prod.splits)

lemma EndModify_nullifiers [simp]: "cacheNullifiers (EndModify k e c) = cacheNullifiers c"
  by (simp add: EndModify_def Let_def)

lemma modify_null_view:
  "ModifyCoins db c cs k = (e, cs') \<Longrightarrow> null_view db (EndModify k e' c # cs') = null_view db (c # cs)"
  by (rule null_view_cong) (simp add: ModifyCoins_nullifiers)

lemma Spend_available:
  assumes "IsAvailable n c" "good_coins c" "unspent (fst (Spend n c)) = Some d"
  shows "good_coins d"
proof -
  let ?v = "(c_vout c)[n := CTxOut_null]"
  have d: "d = c\<lparr>c_vout := drop_nulls ?v\<rparr>" using assms(1,3) by (auto simp: IsAvailable_def Spend_def Cleanup_def)
  have "list_all (\<lambda>out. CTxOut_IsNull out \<or> stored out) ?v"
    using assms(2) by (auto simp: good_coins_def list_all_iff dest!: subsetD [OF set_update_subset_insert])
  then have "list_all (\<lambda>out. CTxOut_IsNull out \<or> stored out) (drop_nulls ?v)" "proper (drop_nulls ?v)"
    using set_drop_nulls [of ?v] proper_null_update [of "c_vout c" n] assms(2) by (auto simp: list_all_iff proper_def good_coins_def)
  then show ?thesis using assms(2) length_drop_nulls [of ?v] drop_nulls_clean [of ?v] by (auto simp: d good_coins_def clean_def)
qed

lemma spend_undo_stored:
  assumes "IsAvailable n c" "good_coins c"
  shows "undo_stored (spend_undo n c)"
proof -
  have "stored (c_vout c ! n)" using assms by (auto simp: IsAvailable_def good_coins_def list_all_length)
  moreover have h: "0 < c_nHeight c" "c_nHeight c < 2 ^ 31" and v: "0 \<le> c_nVersion c" "c_nVersion c < 2 ^ 31"
    using assms(2) by (simp_all add: good_coins_def)
  have "(of_int (c_nHeight c) :: u32) < 2 ^ 31"
    using h by (simp add: word_less_def uint_word_of_int take_bit_int_eq_self)
  moreover have "c_nHeight (fst (Spend n c)) = c_nHeight c" "c_nVersion (fst (Spend n c)) = c_nVersion c"
    by (simp_all add: Spend_def Cleanup_def)
  ultimately show ?thesis using unat_height [OF h] v by (simp add: spend_undo_def undo_stored_def Let_def)
qed

lemma Spend_clean: "clean c \<Longrightarrow> Cleanup (fst (Spend n c)) = fst (Spend n c)"
  by (simp add: Spend_def Cleanup_id)

text \<open>A stack stands for a view of the coins and one of the nullifiers.\<close>

definition stands_for ::
  "'t CCoinsViewDB \<Rightarrow> 't CCoinsViewCache list \<Rightarrow> (uint256 \<Rightarrow> CCoins option) \<Rightarrow> (uint256 \<Rightarrow> bool) \<Rightarrow> bool" where
  "stands_for db cs u nfs \<longleftrightarrow> stack_ok db cs \<and> view db cs = u \<and> null_view db cs SAPLING = nfs"

lemma ApplyTxInUndo_spent:
  assumes "stands_for db (d # ds) (u(op_hash out := unspent (fst (Spend (unat (op_n out)) x)))) nfs"
    and "u (op_hash out) = Some x" "good_coins x" "IsAvailable (unat (op_n out)) x"
    and "ApplyTxInUndo db (spend_undo (unat (op_n out)) x) out d ds = (d', ds', ok)"
  shows "ok \<and> stands_for db (d' # ds') u nfs"
proof -
  let ?s = "fst (Spend (unat (op_n out)) x)" and ?k = "op_hash out"
  obtain e where e: "ModifyCoins db d ds ?k = (e, ds')"
      "d' = EndModify ?k (e\<lparr>coins := restore_output (spend_undo (unat (op_n out)) x) (op_n out) (coins e)\<rparr>) d"
      "ok = undo_clean (spend_undo (unat (op_n out)) x) (op_n out) (coins e)"
    using assms(5) by (auto simp: ApplyTxInUndo_def split: prod.splits)
  have s: "stack_ok db (d # ds)" "view db (d # ds) = u(?k := unspent ?s)" using assms(1) by (simp_all add: stands_for_def)
  have "unspent (coins e) = unspent ?s" using ModifyCoins_ok(3) [OF s(1) e(1)] s(2) by simp
  then have "if IsPruned ?s then IsPruned (coins e) else coins e = ?s" by (simp add: unspent_def split: if_splits)
  note r = restore_spend [OF assms(3,4) this]
  have "Cleanup x = x" "unspent x = Some x" using assms(2-4)
    by (auto simp: good_coins_def IsAvailable_def IsPruned_def list_all_length intro: Cleanup_id)
  then show ?thesis
    using modify_view(1,2) [OF s(1) e(1), of x] modify_null_view [OF e(1)] assms(1,2) r
    by (auto simp: stands_for_def e(2,3) s(2) fun_eq_iff)
qed

lemma restore_inputs_append:
  "restore_inputs db (xs @ ys) c cs b = (case restore_inputs db xs c cs b of (c', cs', b') \<Rightarrow> restore_inputs db ys c' cs' b')"
  by (induction xs arbitrary: c cs b) (auto split: prod.splits)

text \<open>
  What it means that inputs were spent from one view to another: any stack that stands for the
  second is brought back to one that stands for the first.
\<close>

definition undoes ::
  "'t CCoinsViewDB \<Rightarrow> (CTxIn \<times> CTxInUndo) list \<Rightarrow> (uint256 \<Rightarrow> CCoins option) \<Rightarrow> (uint256 \<Rightarrow> CCoins option) \<Rightarrow> bool" where
  "undoes db us u' u \<longleftrightarrow>
     (\<forall>d ds nfs b. stands_for db (d # ds) u' nfs \<longrightarrow>
        (\<exists>d' ds'. restore_inputs db us d ds b = (d', ds', b) \<and> stands_for db (d' # ds') u nfs))"

lemma undoes_append: "undoes db2 xs u'' u' \<Longrightarrow> undoes db2 ys u' u \<Longrightarrow> undoes db2 (xs @ ys) u'' u"
  unfolding undoes_def restore_inputs_append by (metis (mono_tags, lifting) case_prod_conv)

lemma undoes_one:
  assumes "u (op_hash (prevout i)) = Some x" "good_coins x" "IsAvailable (unat (op_n (prevout i))) x"
  shows "undoes db [(i, spend_undo (unat (op_n (prevout i))) x)]
    (u(op_hash (prevout i) := unspent (fst (Spend (unat (op_n (prevout i))) x)))) u"
  unfolding undoes_def
proof (intro allI impI)
  fix d ds nfs b
  let ?s = "spend_undo (unat (op_n (prevout i))) x"
  assume a: "stands_for db (d # ds) (u(op_hash (prevout i) := unspent (fst (Spend (unat (op_n (prevout i))) x)))) nfs"
  obtain d' ds' ok where r: "ApplyTxInUndo db ?s (prevout i) d ds = (d', ds', ok)" by (cases "ApplyTxInUndo db ?s (prevout i) d ds")
  show "\<exists>d' ds'. restore_inputs db [(i, ?s)] d ds b = (d', ds', b) \<and> stands_for db (d' # ds') u nfs"
    using ApplyTxInUndo_spent [where u = u, OF a assms r] r by simp
qed

definition available :: "(uint256 \<Rightarrow> CCoins option) \<Rightarrow> COutPoint \<Rightarrow> bool" where
  "available u out \<longleftrightarrow> (case u (op_hash out) of None \<Rightarrow> False | Some c \<Rightarrow> IsAvailable (unat (op_n out)) c)"

lemma available_not_pruned: "IsAvailable n c \<Longrightarrow> \<not> IsPruned c"
  by (auto simp: IsPruned_def IsAvailable_def list_all_length)

text \<open>Spending makes no output available, and the spent ones are not.\<close>

definition consumed :: "CTxIn list \<Rightarrow> (uint256 \<Rightarrow> CCoins option) \<Rightarrow> (uint256 \<Rightarrow> CCoins option) \<Rightarrow> bool" where
  "consumed ins u u' \<longleftrightarrow> (\<forall>p. available u' p \<longrightarrow> available u p) \<and> (\<forall>i \<in> set ins. \<not> available u' (prevout i))"

lemma IsAvailable_Spend:
  assumes "IsAvailable m (fst (Spend n c))"
  shows "IsAvailable m c" "IsAvailable n c \<Longrightarrow> m \<noteq> n"
proof -
  have "IsAvailable m c \<and> (IsAvailable n c \<longrightarrow> m \<noteq> n)"
  proof (cases "IsAvailable n c")
    case True
    let ?v = "(c_vout c)[n := CTxOut_null]"
    obtain t where t: "?v = drop_nulls ?v @ t" using drop_nulls_prefix by blast
    have "m < length (drop_nulls ?v)" "\<not> CTxOut_IsNull (drop_nulls ?v ! m)"
      using assms True by (auto simp: Spend_def Cleanup_def IsAvailable_def)
    moreover from this have "?v ! m = drop_nulls ?v ! m" "m < length ?v" using t length_drop_nulls [of ?v] by (metis nth_append, linarith)
    ultimately show ?thesis by (cases "m = n") (auto simp: IsAvailable_def)
  qed (use assms in \<open>auto simp: Spend_def IsAvailable_def\<close>)
  then show "IsAvailable m c" "IsAvailable n c \<Longrightarrow> m \<noteq> n" by blast+
qed

lemma consumed_one:
  assumes "u (op_hash (prevout i)) = Some c" "IsAvailable (unat (op_n (prevout i))) c"
  shows "consumed [i] u (u(op_hash (prevout i) := unspent (fst (Spend (unat (op_n (prevout i))) c))))"
  using assms IsAvailable_Spend [of _ "unat (op_n (prevout i))" c]
  by (auto simp: consumed_def available_def unspent_def split: option.splits if_splits)

lemma consumed_trans: "consumed xs u u' \<Longrightarrow> consumed ys u' u'' \<Longrightarrow> consumed (xs @ ys) u u''"
  by (auto simp: consumed_def)

lemma spend_inputs_undoes:
  assumes "stands_for db (c # cs) u nfs" "good_view u" "spend_inputs db ins c cs = Some (c', cs', us)"
  shows "\<exists>u'. stands_for db (c' # cs') u' nfs \<and> good_view u' \<and> (\<forall>k. u k = None \<longrightarrow> u' k = None) \<and> view db cs' = view db cs \<and>
    undo_ok (length ins) us \<and> undoes db2 (rev (zip ins us)) u' u \<and> consumed ins u u'"
  using assms
proof (induction ins arbitrary: c cs u us)
  case Nil
  then show ?case by (auto simp: undoes_def undo_ok_def consumed_def)
next
  case (Cons i ins)
  let ?k = "op_hash (prevout i)" and ?n = "unat (op_n (prevout i))"
  obtain e cs1 where e: "ModifyCoins db c cs ?k = (e, cs1)" by (cases "ModifyCoins db c cs ?k")
  let ?c1 = "EndModify ?k (e\<lparr>coins := fst (Spend ?n (coins e))\<rparr>) c" and ?u1 = "u(?k := unspent (fst (Spend ?n (coins e))))"
  from Cons.prems(3) obtain us' where av: "IsAvailable ?n (coins e)" and us': "spend_inputs db ins ?c1 cs1 = Some (c', cs', us')"
      "us = spend_undo ?n (coins e) # us'"
    by (auto simp: e Let_def IsAvailable_def split: if_splits option.splits)
  have s: "stack_ok db (c # cs)" "view db (c # cs) = u" using Cons.prems(1) by (simp_all add: stands_for_def)
  have x: "u ?k = Some (coins e)"
    using ModifyCoins_ok(3) [OF s(1) e] av s(2) by (auto simp: unspent_def IsPruned_def IsAvailable_def list_all_length split: if_splits)
  then have g: "good_coins (coins e)" using Cons.prems(2) by (simp add: good_view_def)
  have "stands_for db (?c1 # cs1) ?u1 nfs"
    using modify_view(1,2) [OF s(1) e] modify_null_view [OF e] Cons.prems(1) g s(2)
    by (simp add: stands_for_def Spend_clean good_coins_def)
  moreover have "good_view ?u1" using Cons.prems(2) Spend_available [OF av g] by (simp add: good_view_def)
  ultimately obtain u' where u': "stands_for db (c' # cs') u' nfs" "good_view u'" "\<forall>k. ?u1 k = None \<longrightarrow> u' k = None"
      "view db cs' = view db cs1" "undo_ok (length ins) us'" "undoes db2 (rev (zip ins us')) u' ?u1" "consumed ins ?u1 u'"
    using Cons.IH us'(1) by blast
  have "undoes db2 (rev (zip (i # ins) us)) u' u" using undoes_append [OF u'(6) undoes_one [where u = u, OF x g av]] by (simp add: us'(2))
  moreover have "consumed (i # ins) u u'" using consumed_trans [OF consumed_one [of u i, OF x av] u'(7)] by simp
  moreover have "\<forall>k. u k = None \<longrightarrow> u' k = None" using u'(3) x by (metis fun_upd_other option.distinct(1))
  ultimately show ?case using u'(1-6) modify_view(3) [OF s(1) e] us'(2) spend_undo_stored [OF av g] by (intro exI [of _ u']) (simp add: undo_ok_def)
qed

section \<open>Disconnecting undoes connecting\<close>

definition null_update :: "CTransaction \<Rightarrow> bool \<Rightarrow> (uint256 \<Rightarrow> bool) \<Rightarrow> uint256 \<Rightarrow> bool" where
  "null_update tx b nfs nf = (if nf \<in> nullifier ` set (vShieldedSpend tx) then b else nfs nf)"

lemma fold_nullifiers:
  "map_of (fold (\<lambda>sd. AList.update (nullifier sd) e) sds m) nf = (if nf \<in> nullifier ` set sds then Some e else map_of m nf)"
  by (induction sds arbitrary: m) (auto simp: al.get_put)

lemma SetNullifiers_stands_for:
  "stands_for db (c # cs) u nfs \<Longrightarrow> stands_for db ((SetNullifiers tx b c) # cs) u (null_update tx b nfs)"
  by (auto simp: stands_for_def SetNullifiers_def null_update_def fold_nullifiers fun_eq_iff)

lemma ClearUnspendable_clean [simp]: "clean (ClearUnspendable c)" "Cleanup (ClearUnspendable c) = ClearUnspendable c"
  by (simp_all add: ClearUnspendable_def)

lemma ClearUnspendable_idem: "ClearUnspendable (ClearUnspendable c) = ClearUnspendable c"
proof -
  let ?f = "\<lambda>out. if IsUnspendable (scriptPubKey out) then CTxOut_null else out"
  have "?f CTxOut_null = CTxOut_null" by simp
  then have "map ?f (drop_nulls (map ?f (c_vout c))) = drop_nulls (map ?f (c_vout c))"
    using set_drop_nulls [of "map ?f (c_vout c)"] by (intro map_idI) auto
  then show ?thesis using drop_nulls_clean by (simp add: ClearUnspendable_def Cleanup_def drop_nulls_id)
qed

lemma ClearUnspendable_pruned: "IsPruned c \<Longrightarrow> IsPruned (ClearUnspendable c)"
  by (simp add: ClearUnspendable_def) (auto simp: IsPruned_def list_all_iff)

lemma remove_outputs_added:
  assumes "stands_for db (d # ds) (u(GetHash tx := unspent (FromTx tx h))) nfs"
    and "remove_outputs GetHash db tx h d ds = (d', ds', ok)"
  shows "ok \<and> stands_for db (d' # ds') (u(GetHash tx := None)) (null_update tx False nfs)"
proof -
  let ?k = "GetHash tx"
  obtain e where e: "ModifyCoins db d ds ?k = (e, ds')" by (cases "ModifyCoins db d ds ?k") (use assms(2) in \<open>simp add: remove_outputs_def Let_def\<close>)
  define outs where "outs = (let outs = ClearUnspendable (coins e) in
    if c_nVersion (FromTx tx h) < 0 then outs\<lparr>c_nVersion := c_nVersion (FromTx tx h)\<rparr> else outs)"
  have r: "d' = SetNullifiers tx False (EndModify ?k (e\<lparr>coins := CCoins_Clear outs\<rparr>) d)" "ok = CCoins_eq outs (FromTx tx h)"
    using assms(2) by (simp_all add: remove_outputs_def e outs_def Let_def)
  have s: "stack_ok db (d # ds)" "view db (d # ds) = u(?k := unspent (FromTx tx h))" using assms(1) by (simp_all add: stands_for_def)
  have un: "unspent (coins e) = unspent (FromTx tx h)" using ModifyCoins_ok(3) [OF s(1) e] s(2) by simp
  have "CCoins_eq outs (FromTx tx h)"
  proof (cases "IsPruned (FromTx tx h)")
    case True
    then have "IsPruned (ClearUnspendable (coins e))" using un by (intro ClearUnspendable_pruned) (simp add: unspent_def split: if_splits)
    then have "IsPruned outs" by (simp add: outs_def Let_def IsPruned_def)
    then show ?thesis using True by (simp add: CCoins_eq_def)
  next
    case False
    then have "coins e = FromTx tx h" using un by (simp add: unspent_def split: if_splits)
    then have "ClearUnspendable (coins e) = FromTx tx h" by (simp add: FromTx_def ClearUnspendable_idem)
    then show ?thesis by (simp add: outs_def Let_def CCoins_eq_def)
  qed
  moreover have "unspent (Cleanup (CCoins_Clear outs)) = None" by simp (simp add: CCoins_Clear_def IsPruned_def)
  then have "stands_for db ((EndModify ?k (e\<lparr>coins := CCoins_Clear outs\<rparr>) d) # ds') (u(?k := None)) nfs"
    using modify_view(1,2) [OF s(1) e] modify_null_view [OF e] assms(1) s(2) by (simp add: stands_for_def unspent_def)
  ultimately show ?thesis using SetNullifiers_stands_for by (auto simp: r)
qed

definition tx_ok :: "CTransaction \<Rightarrow> bool" where
  "tx_ok tx \<longleftrightarrow> list_all (\<lambda>out. MoneyRange (nValue out)) (vout tx) \<and> length (vout tx) < 2 ^ 28 \<and>
     0 \<le> nVersion tx \<and> nVersion tx < 2 ^ 31 \<and> fits_u64 (vin tx)"

lemma FromTx_good: "tx_ok tx \<Longrightarrow> 0 < h \<Longrightarrow> h < 2 ^ 31 \<Longrightarrow> good_coins (FromTx tx h)"
proof -
  let ?v = "map (\<lambda>out. if IsUnspendable (scriptPubKey out) then CTxOut_null else out) (vout tx)"
  assume a: "tx_ok tx" "0 < h" "h < 2 ^ 31"
  have v: "out = CTxOut_null \<or> (\<not> CTxOut_IsNull out \<and> stored out)" if "out \<in> set ?v" for out
    using a(1) that by (auto simp: tx_ok_def list_all_iff stored_def IsUnspendable_def MoneyRange_def CTxOut_IsNull_def)
  then have "proper (drop_nulls ?v)" "list_all (\<lambda>out. CTxOut_IsNull out \<or> stored out) (drop_nulls ?v)"
    using set_drop_nulls [of ?v] by (fastforce simp: proper_def list_all_iff)+
  moreover have "length (drop_nulls ?v) \<le> length (vout tx)" using length_drop_nulls [of ?v] by simp
  ultimately show ?thesis
    using a drop_nulls_clean [of ?v] by (auto simp: good_coins_def FromTx_def ClearUnspendable_def Cleanup_def clean_def tx_ok_def)
qed

lemma null_update_twice: "list_all (\<lambda>sd. \<not> nfs (nullifier sd)) (vShieldedSpend tx) \<Longrightarrow> null_update tx False (null_update tx True nfs) = nfs"
  by (auto simp: null_update_def fun_eq_iff list_all_iff)

lemma UpdateCoins_undoes:
  assumes "stands_for db (c # cs) u nfs" "good_view u" "UpdateCoins GetHash db tx h c cs = Some (c', cs', us)"
    and "u (GetHash tx) = None" "view db cs (GetHash tx) = None" "tx_ok tx" "0 < h" "h < 2 ^ 31"
  shows "\<exists>u1. stands_for db (c' # cs') (u1(GetHash tx := unspent (FromTx tx h))) (null_update tx True nfs) \<and>
    good_view (u1(GetHash tx := unspent (FromTx tx h))) \<and> (\<forall>k. u k = None \<longrightarrow> u1 k = None) \<and> view db cs' = view db cs \<and>
    undo_ok (if IsCoinBase tx then 0 else length (vin tx)) us \<and> undoes db2 (rev (zip (vin tx) us)) u1 u \<and> consumed (if IsCoinBase tx then [] else vin tx) u u1"
proof -
  have "\<exists>c1. (if IsCoinBase tx then Some (c, cs, []) else spend_inputs db (vin tx) c cs) = Some (c1, cs', us) \<and>
      c' = EndModify (GetHash tx) (ModifyNewCoins\<lparr>coins := FromTx tx h\<rparr>) (SetNullifiers tx True c1)"
    using assms(3) by (auto simp: UpdateCoins_def split: option.splits)
  then obtain c1 where c1: "(if IsCoinBase tx then Some (c, cs, []) else spend_inputs db (vin tx) c cs) = Some (c1, cs', us)"
      "c' = EndModify (GetHash tx) (ModifyNewCoins\<lparr>coins := FromTx tx h\<rparr>) (SetNullifiers tx True c1)" by blast
  have "\<exists>u1. stands_for db (c1 # cs') u1 nfs \<and> good_view u1 \<and> (\<forall>k. u k = None \<longrightarrow> u1 k = None) \<and> view db cs' = view db cs \<and>
      undo_ok (if IsCoinBase tx then 0 else length (vin tx)) us \<and> undoes db2 (rev (zip (vin tx) us)) u1 u \<and> consumed (if IsCoinBase tx then [] else vin tx) u u1"
  proof (cases "IsCoinBase tx")
    case True
    then show ?thesis using c1(1) assms(1,2) by (auto simp: undoes_def undo_ok_def consumed_def)
  next
    case False
    then show ?thesis using c1(1) spend_inputs_undoes [OF assms(1,2), of "vin tx" c1 cs' us] by auto
  qed
  then obtain u1 where u1: "stands_for db (c1 # cs') u1 nfs" "good_view u1" "\<forall>k. u k = None \<longrightarrow> u1 k = None" "view db cs' = view db cs"
      "undo_ok (if IsCoinBase tx then 0 else length (vin tx)) us" "undoes db2 (rev (zip (vin tx) us)) u1 u" "consumed (if IsCoinBase tx then [] else vin tx) u u1" by blast
  let ?c2 = "SetNullifiers tx True c1"
  note s = SetNullifiers_stands_for [OF u1(1), of tx True]
  have ok: "stack_ok db (?c2 # cs')" "view db cs' (GetHash tx) = None" using s assms(5) u1(4) by (simp_all add: stands_for_def)
  have "null_view db (c' # cs') = null_view db (?c2 # cs')" by (rule null_view_cong) (simp add: c1(2))
  moreover have "Cleanup (FromTx tx h) = FromTx tx h" by (simp add: FromTx_def)
  ultimately have "stands_for db (c' # cs') (u1(GetHash tx := unspent (FromTx tx h))) (null_update tx True nfs)"
    using modify_new_view [OF ok, of "FromTx tx h"] s by (simp add: stands_for_def c1(2))
  moreover have "good_view (u1(GetHash tx := unspent (FromTx tx h)))"
    using u1(2) FromTx_good [OF assms(6-8)] by (simp add: good_view_def)
  ultimately show ?thesis using u1(3-7) by (intro exI [of _ u1]) simp
qed

lemma disconnect_txs_append:
  "disconnect_txs GetHash db h (xs @ ys) c cs b =
     (case disconnect_txs GetHash db h xs c cs b of None \<Rightarrow> None | Some (c', cs', b') \<Rightarrow> disconnect_txs GetHash db h ys c' cs' b')"
  by (induction xs arbitrary: c cs b) (auto split: prod.splits)

lemma disconnect_one:
  assumes "stands_for db (d # ds) (u1(GetHash tx := unspent (FromTx tx h))) (null_update tx True nfs)" "u1 (GetHash tx) = None"
    and "list_all (\<lambda>sd. \<not> nfs (nullifier sd)) (vShieldedSpend tx)" "length us = length (vin tx)"
    and "undoes db (rev (zip (vin tx) us)) u1 u"
  shows "\<exists>d' ds'. disconnect_txs GetHash db h [(tx, us)] d ds b = Some (d', ds', b) \<and> stands_for db (d' # ds') u nfs"
proof -
  obtain d1 ds1 ok where r: "remove_outputs GetHash db tx h d ds = (d1, ds1, ok)" by (cases "remove_outputs GetHash db tx h d ds")
  have "u1(GetHash tx := None) = u1" using assms(2) by auto
  then have r1: "ok" "stands_for db (d1 # ds1) u1 nfs"
    using remove_outputs_added [where u = u1, OF assms(1) r] null_update_twice [OF assms(3)] by simp_all
  obtain d' ds' where "restore_inputs db (rev (zip (vin tx) us)) d1 ds1 b = (d', ds', b)" "stands_for db (d' # ds') u nfs"
    using assms(5) r1(2) unfolding undoes_def by blast
  then show ?thesis using r r1(1) assms(4) by simp
qed

text \<open>Reading a stack of caches leaves everything it stands for as it is.\<close>

definition reads :: "'t CCoinsViewDB \<Rightarrow> 't CCoinsViewCache list \<Rightarrow> 't CCoinsViewCache list \<Rightarrow> bool" where
  "reads db cs cs' \<longleftrightarrow> stack_ok db cs' \<and> view db cs' = view db cs \<and> view db (tl cs') = view db (tl cs) \<and>
     null_view db cs' = null_view db cs \<and> length cs' = length cs"

lemma reads_trans: "reads db cs cs' \<Longrightarrow> reads db cs' cs'' \<Longrightarrow> reads db cs cs''"
  by (simp add: reads_def)

lemma stack_cong:
  "map cacheCoins cs' = map cacheCoins cs \<Longrightarrow> stack_ok db cs' = stack_ok db cs \<and> view db cs' = view db cs \<and> present cs' = present cs"
proof (induction cs arbitrary: cs')
  case (Cons c cs)
  then obtain c' ds where cs': "cs' = c' # ds" "cacheCoins c' = cacheCoins c" "map cacheCoins ds = map cacheCoins cs"
    by (cases cs') auto
  have ds: "stack_ok db ds = stack_ok db cs" "view db ds = view db cs" "present ds = present cs" using Cons.IH cs'(3) by blast+
  have "view db (c' # ds) k = view db (c # cs) k" "present (c' # ds) k = present (c # cs) k" for k
    by (simp_all add: cs'(2) ds(2) cong: option.case_cong)
  then have "view db (c' # ds) = view db (c # cs)" "present (c' # ds) = present (c # cs)" by (intro ext, blast)+
  then show ?case using ds cs' by (simp del: view.simps present.simps)
qed simp

lemma GetCoins_reads:
  assumes "stack_ok db cs" "GetCoins db cs k = (r, cs')"
  shows "reads db cs cs'" "Option.bind r unspent = view db cs k"
proof -
  have "view db (tl cs') = view db (tl cs)"
  proof (cases cs)
    case (Cons c ds)
    obtain q ds' where q: "GetCoins db ds k = (q, ds')" by (cases "GetCoins db ds k")
    have "view db ds' = view db ds" using GetCoins_ok(2) [OF _ q] assms(1) Cons by simp
    then show ?thesis using assms(2) q Cons by (auto split: option.splits)
  qed (use assms in auto)
  then show "reads db cs cs'"
    using GetCoins_ok(1,2,7) [OF assms] null_view_cong [OF GetCoins_nullifiers [of db cs k]] assms(2) by (simp add: reads_def)
  show "Option.bind r unspent = view db cs k" by (rule GetCoins_ok(3) [OF assms])
qed

lemma GetNullifier_coins: "map cacheCoins (snd (GetNullifier db cs t nf)) = map cacheCoins cs"
  by (induction cs) (auto split: option.splits prod.splits)

lemma GetNullifier_view: "GetNullifier db cs t nf = (b, cs') \<Longrightarrow> b = null_view db cs t nf \<and> null_view db cs' = null_view db cs"
proof (induction cs arbitrary: cs' b)
  case (Cons c cs)
  obtain q ds where q: "GetNullifier db cs t nf = (q, ds)" by (cases "GetNullifier db cs t nf")
  have ih: "q = null_view db cs t nf" "null_view db ds = null_view db cs" using Cons.IH [OF q] by blast+
  show ?case
  proof (cases "map_of (cacheNullifiers c t) nf")
    case None
    then have cs': "cs' = c\<lparr>cacheNullifiers := (cacheNullifiers c)(t :=
        AList.update nf \<lparr>n_entered = q, n_DIRTY = False\<rparr> (cacheNullifiers c t))\<rparr> # ds" "b = q"
      using Cons.prems q by auto
    have "null_view db cs' s k = null_view db (c # cs) s k" for s k
      using None ih by (cases "s = t"; cases "k = nf") (simp_all add: cs' al.get_put cong: option.case_cong)
    then show ?thesis using None ih cs'(2) by (simp add: fun_eq_iff)
  qed (use Cons.prems in auto)
qed auto

lemma reads_cong:
  assumes "stack_ok db cs" "map cacheCoins cs' = map cacheCoins cs" "null_view db cs' = null_view db cs"
  shows "reads db cs cs'"
  using assms stack_cong [OF assms(2), of db] stack_cong [of "tl cs'" "tl cs" db] map_eq_imp_length_eq [OF assms(2)]
  by (simp add: reads_def map_tl)

lemma GetNullifier_reads:
  assumes "stack_ok db cs" "GetNullifier db cs t nf = (b, cs')"
  shows "reads db cs cs'" "b = null_view db cs t nf"
  using reads_cong [OF assms(1)] GetNullifier_coins [of db cs t nf] GetNullifier_view [OF assms(2)] assms(2) by simp_all

lemma GetAnchorAt_frame:
  "map cacheCoins (snd (GetAnchorAt db cs t rt)) = map cacheCoins cs"
  "map cacheNullifiers (snd (GetAnchorAt db cs t rt)) = map cacheNullifiers cs"
  by (induction cs) (auto split: option.splits prod.splits)

lemma GetAnchorAt_reads: "stack_ok db cs \<Longrightarrow> GetAnchorAt db cs t rt = (r, cs') \<Longrightarrow> reads db cs cs'"
  using reads_cong [of db cs cs'] GetAnchorAt_frame [of db cs t rt] null_view_cong [of cs' cs db] by simp

lemma have_inputs_reads:
  "stack_ok db cs \<Longrightarrow> have_inputs db ins cs = (b, cs') \<Longrightarrow> reads db cs cs' \<and> (b \<longrightarrow> list_all (\<lambda>i. available (view db cs) (prevout i)) ins)"
proof (induction ins arbitrary: cs)
  case (Cons i ins)
  obtain r ds where r: "GetCoins db cs (op_hash (prevout i)) = (r, ds)" by (cases "GetCoins db cs (op_hash (prevout i))")
  note g = GetCoins_reads [OF Cons.prems(1) r]
  show ?case
  proof (cases "case r of None \<Rightarrow> False | Some c \<Rightarrow> IsAvailable (unat (op_n (prevout i))) c")
    case True
    then obtain x where x: "r = Some x" "IsAvailable (unat (op_n (prevout i))) x" by (auto split: option.splits)
    then have "available (view db cs) (prevout i)"
      using g(2) available_not_pruned [OF x(2)] by (simp add: available_def unspent_def flip: g(2))
    moreover have "have_inputs db ins ds = (b, cs')" "stack_ok db ds" "view db ds = view db cs"
      using Cons.prems(2) r True g(1) by (simp_all add: reads_def)
    ultimately show ?thesis using Cons.IH [of ds] reads_trans [OF g(1)] by simp
  next
    case False
    then show ?thesis using Cons.prems(2) r g(1) by simp
  qed
qed (simp add: reads_def)

lemma have_shielded_reads:
  "stack_ok db cs \<Longrightarrow> have_shielded db sds cs = (b, cs') \<Longrightarrow>
   reads db cs cs' \<and> (b \<longrightarrow> list_all (\<lambda>sd. \<not> null_view db cs SAPLING (nullifier sd)) sds)"
proof (induction sds arbitrary: cs)
  case (Cons sd sds)
  obtain q ds where q: "GetNullifier db cs SAPLING (nullifier sd) = (q, ds)" by (cases "GetNullifier db cs SAPLING (nullifier sd)")
  note n = GetNullifier_reads [OF Cons.prems(1) q]
  obtain r es where r: "GetAnchorAt db ds SAPLING (anchor sd) = (r, es)" by (cases "GetAnchorAt db ds SAPLING (anchor sd)")
  have "stack_ok db ds" using n(1) by (simp add: reads_def)
  then have re: "reads db cs es" using reads_trans [OF n(1) GetAnchorAt_reads [OF _ r]] by blast
  then have es: "stack_ok db es" "null_view db es = null_view db cs" by (simp_all add: reads_def)
  show ?case using Cons.prems(2) q r n re Cons.IH [OF es(1)] es(2) reads_trans [OF re]
    by (cases q; cases r) auto
qed (simp add: reads_def)

lemma GetCoins_available:
  assumes "stack_ok db cs" "available (view db cs) op"
  shows "\<exists>x ds. GetCoins db cs (op_hash op) = (Some x, ds) \<and> reads db cs ds \<and> view db cs (op_hash op) = Some x \<and>
    IsAvailable (unat (op_n op)) x"
proof -
  obtain r ds where r: "GetCoins db cs (op_hash op) = (r, ds)" by (cases "GetCoins db cs (op_hash op)")
  note g = GetCoins_reads [OF assms(1) r]
  then show ?thesis using r assms(2) by (cases r) (auto simp: available_def unspent_def split: if_splits option.splits)
qed

lemma GetOutputFor_reads:
  "stack_ok db cs \<Longrightarrow> available (view db cs) (prevout i) \<Longrightarrow> \<exists>out cs'. GetOutputFor db cs i = (Some out, cs') \<and> reads db cs cs'"
  using GetCoins_available [of db cs "prevout i"] by (auto simp: GetOutputFor_def Let_def)

text \<open>Loops over inputs that are there run to their end.\<close>

lemma sum_inputs_reads:
  "stack_ok db cs \<Longrightarrow> list_all (\<lambda>i. available (view db cs) (prevout i)) ins \<Longrightarrow> \<exists>n cs'. sum_inputs db ins m cs = (Some n, cs') \<and> reads db cs cs'"
proof (induction ins arbitrary: cs m)
  case (Cons i ins)
  obtain out ds where o1: "GetOutputFor db cs i = (Some out, ds)" "reads db cs ds" using GetOutputFor_reads [of db cs i] Cons.prems by auto
  then have "stack_ok db ds" "view db ds = view db cs" by (simp_all add: reads_def)
  then show ?case using Cons.IH [of ds] Cons.prems(2) o1 reads_trans [OF o1(2)] by fastforce
qed (simp add: reads_def)

lemma p2sh_sigops_reads:
  "stack_ok db cs \<Longrightarrow> list_all (\<lambda>i. available (view db cs) (prevout i)) ins \<Longrightarrow> \<exists>n cs'. p2sh_sigops db ins m cs = (Some n, cs') \<and> reads db cs cs'"
proof (induction ins arbitrary: cs m)
  case (Cons i ins)
  obtain out ds where o1: "GetOutputFor db cs i = (Some out, ds)" "reads db cs ds" using GetOutputFor_reads [of db cs i] Cons.prems by auto
  then have "stack_ok db ds" "view db ds = view db cs" by (simp_all add: reads_def)
  then show ?case using Cons.IH [of ds] Cons.prems(2) o1 reads_trans [OF o1(2)] by fastforce
qed (simp add: reads_def)

lemma check_inputs_reads:
  assumes "stack_ok db cs" "list_all (\<lambda>i. available (view db cs) (prevout i)) ins"
  shows "check_inputs db h ins m cs \<noteq> Inl (failed assertion_failed)"
    and "check_inputs db h ins m cs = Inr (n, cs') \<Longrightarrow> reads db cs cs'"
proof -
  have "check_inputs db h ins m cs \<noteq> Inl (failed assertion_failed) \<and> (\<forall>n cs'. check_inputs db h ins m cs = Inr (n, cs') \<longrightarrow> reads db cs cs')"
    using assms
  proof (induction ins arbitrary: cs m)
    case (Cons i ins)
    obtain x ds where x: "GetCoins db cs (op_hash (prevout i)) = (Some x, ds)" "reads db cs ds"
      using GetCoins_available [OF Cons.prems(1), of "prevout i"] Cons.prems(2) by auto
    then have "stack_ok db ds" "view db ds = view db cs" by (simp_all add: reads_def)
    then have "check_inputs db h ins k ds \<noteq> Inl (failed assertion_failed) \<and> (\<forall>n cs'. check_inputs db h ins k ds = Inr (n, cs') \<longrightarrow> reads db cs cs')" for k
      using Cons.IH [of ds k] Cons.prems(2) reads_trans [OF x(2)] by auto
    then show ?case using x(1) by (auto simp: Let_def split: if_splits)
  qed (simp add: reads_def)
  then show "check_inputs db h ins m cs \<noteq> Inl (failed assertion_failed)" "check_inputs db h ins m cs = Inr (n, cs') \<Longrightarrow> reads db cs cs'" by blast+
qed

lemma have_all_reads:
  assumes "stack_ok db cs" "\<not> IsCoinBase tx" "HaveInputs db tx cs = (True, cs1)" "HaveShieldedRequirements db tx cs1 = (True, cs2)"
  shows "reads db cs cs2" "list_all (\<lambda>i. available (view db cs) (prevout i)) (vin tx)"
    "list_all (\<lambda>sd. \<not> null_view db cs SAPLING (nullifier sd)) (vShieldedSpend tx)"
proof -
  have a: "have_inputs db (vin tx) cs = (True, cs1)" "have_shielded db (vShieldedSpend tx) cs1 = (True, cs2)"
    using assms(2-4) by (simp_all add: HaveInputs_def HaveShieldedRequirements_def)
  note h = have_inputs_reads [OF assms(1) a(1)]
  then have "stack_ok db cs1" "null_view db cs1 = null_view db cs" by (simp_all add: reads_def)
  then show "reads db cs cs2" "list_all (\<lambda>i. available (view db cs) (prevout i)) (vin tx)"
    "list_all (\<lambda>sd. \<not> null_view db cs SAPLING (nullifier sd)) (vShieldedSpend tx)"
    using h have_shielded_reads [OF _ a(2)] reads_trans by auto
qed

lemma CheckTxInputs_reads:
  assumes "stack_ok db cs" "\<not> IsCoinBase tx"
  shows "CheckTxInputs db tx h cs \<noteq> Inl (failed assertion_failed)" "CheckTxInputs db tx h cs = Inr cs' \<Longrightarrow> reads db cs cs'"
proof -
  obtain b1 cs1 where h1: "HaveInputs db tx cs = (b1, cs1)" by (cases "HaveInputs db tx cs")
  obtain b2 cs2 where h2: "HaveShieldedRequirements db tx cs1 = (b2, cs2)" by (cases "HaveShieldedRequirements db tx cs1")
  have "CheckTxInputs db tx h cs \<noteq> Inl (failed assertion_failed) \<and> (CheckTxInputs db tx h cs = Inr cs' \<longrightarrow> reads db cs cs')"
  proof (cases "b1 \<and> b2")
    case True
    note ha = have_all_reads [OF assms, of cs1 cs2]
    then have "stack_ok db cs2" "list_all (\<lambda>i. available (view db cs2) (prevout i)) (vin tx)" "reads db cs cs2" using h1 h2 True by (simp_all add: reads_def)
    then show ?thesis using h1 h2 True check_inputs_reads [of db cs2 "vin tx" h 0] reads_trans
      by (auto simp: CheckTxInputs_def Let_def split: sum.splits option.splits)
  qed (use h1 h2 in \<open>auto simp: CheckTxInputs_def\<close>)
  then show "CheckTxInputs db tx h cs \<noteq> Inl (failed assertion_failed)" "CheckTxInputs db tx h cs = Inr cs' \<Longrightarrow> reads db cs cs'" by blast+
qed

lemma check_spends_reads:
  assumes "stack_ok db cs" "\<not> IsCoinBase tx" "list_all (\<lambda>i. available (view db cs) (prevout i)) (vin tx)"
  shows "\<exists>n cs'. GetP2SHSigOpCount db tx cs = (Some n, cs') \<and> reads db cs cs'"
    and "\<exists>v cs'. GetValueIn db tx cs = (v, cs') \<and> v \<noteq> Inl assertion_failed \<and> reads db cs cs'"
proof -
  show "\<exists>n cs'. GetP2SHSigOpCount db tx cs = (Some n, cs') \<and> reads db cs cs'"
    using p2sh_sigops_reads [OF assms(1,3)] assms(2) by (simp add: GetP2SHSigOpCount_def)
  obtain n cs' where "sum_inputs db (vin tx) 0 cs = (Some n, cs')" "reads db cs cs'" using sum_inputs_reads [OF assms(1,3)] by blast
  then show "\<exists>v cs'. GetValueIn db tx cs = (v, cs') \<and> v \<noteq> Inl assertion_failed \<and> reads db cs cs'"
    using assms(2) by (simp add: GetValueIn_def split: option.splits)
qed

lemma check_tx_reads:
  assumes "stack_ok db cs"
  shows "check_tx sc db h tx n cs \<noteq> Inl (failed assertion_failed)"
    and "check_tx sc db h tx n cs = Inr (cs', n', fee) \<Longrightarrow> reads db cs cs'"
    and "check_tx sc db h tx n cs = Inr (cs', n', fee) \<Longrightarrow> \<not> IsCoinBase tx \<Longrightarrow> list_all (\<lambda>i. available (view db cs) (prevout i)) (vin tx)"
    and "check_tx sc db h tx n cs = Inr (cs', n', fee) \<Longrightarrow> \<not> IsCoinBase tx \<Longrightarrow>
      list_all (\<lambda>sd. \<not> null_view db cs SAPLING (nullifier sd)) (vShieldedSpend tx)"
proof -
  let ?ok = "reads db cs cs' \<and> (\<not> IsCoinBase tx \<longrightarrow> list_all (\<lambda>i. available (view db cs) (prevout i)) (vin tx) \<and>
      list_all (\<lambda>sd. \<not> null_view db cs SAPLING (nullifier sd)) (vShieldedSpend tx))"
  obtain b1 cs1 where h1: "HaveInputs db tx cs = (b1, cs1)" by (cases "HaveInputs db tx cs")
  obtain b2 cs2 where h2: "HaveShieldedRequirements db tx cs1 = (b2, cs2)" by (cases "HaveShieldedRequirements db tx cs1")
  have "check_tx sc db h tx n cs \<noteq> Inl (failed assertion_failed) \<and> (check_tx sc db h tx n cs = Inr (cs', n', fee) \<longrightarrow> ?ok)"
  proof (cases "\<not> IsCoinBase tx \<and> b1 \<and> b2")
    case True
    then have ha: "reads db cs cs2" "list_all (\<lambda>i. available (view db cs) (prevout i)) (vin tx)"
        "list_all (\<lambda>sd. \<not> null_view db cs SAPLING (nullifier sd)) (vShieldedSpend tx)" "\<not> IsCoinBase tx"
      using have_all_reads [OF assms(1), of tx cs1 cs2] h1 h2 by simp_all
    obtain k cs3 where c3: "GetP2SHSigOpCount db tx cs2 = (Some k, cs3)" "reads db cs2 cs3"
      using check_spends_reads(1) [of db cs2 tx] ha by (auto simp: reads_def)
    have r3: "reads db cs cs3" using reads_trans ha(1) c3(2) by blast
    obtain v cs4 where c4: "GetValueIn db tx cs3 = (v, cs4)" "v \<noteq> Inl assertion_failed" "reads db cs3 cs4"
      using check_spends_reads(2) [of db cs3 tx] ha r3 by (auto simp: reads_def)
    have r4: "reads db cs cs4" using reads_trans r3 c4(3) by blast
    then have "stack_ok db cs4" by (simp add: reads_def)
    then have "CheckTxInputs db tx h cs4 \<noteq> Inl (failed assertion_failed)" "CheckTxInputs db tx h cs4 = Inr cs' \<longrightarrow> reads db cs cs'"
      using CheckTxInputs_reads [of db cs4 tx h] reads_trans [OF r4] ha(4) by blast+
    then show ?thesis using h1 h2 True ha(2,3) c3(1) c4(1,2) by (auto simp: check_tx_def Let_def split: sum.splits option.splits if_splits)
  qed (use h1 h2 assms in \<open>auto simp: check_tx_def Let_def reads_def\<close>)
  then show "check_tx sc db h tx n cs \<noteq> Inl (failed assertion_failed)"
    "check_tx sc db h tx n cs = Inr (cs', n', fee) \<Longrightarrow> reads db cs cs'"
    "check_tx sc db h tx n cs = Inr (cs', n', fee) \<Longrightarrow> \<not> IsCoinBase tx \<Longrightarrow> list_all (\<lambda>i. available (view db cs) (prevout i)) (vin tx)"
    "check_tx sc db h tx n cs = Inr (cs', n', fee) \<Longrightarrow> \<not> IsCoinBase tx \<Longrightarrow>
      list_all (\<lambda>sd. \<not> null_view db cs SAPLING (nullifier sd)) (vShieldedSpend tx)" by blast+
qed

lemma overwrites_reads:
  "stack_ok db cs \<Longrightarrow> overwrites GetHash db txs cs = (False, cs') \<Longrightarrow>
   reads db cs cs' \<and> list_all (\<lambda>tx. view db cs (GetHash tx) = None) txs"
proof (induction txs arbitrary: cs)
  case (Cons tx txs)
  obtain r ds where r: "GetCoins db cs (GetHash tx) = (r, ds)" by (cases "GetCoins db cs (GetHash tx)")
  note g = GetCoins_reads [OF Cons.prems(1) r]
  have ds: "overwrites GetHash db txs ds = (False, cs')" "stack_ok db ds" "view db ds = view db cs"
    using Cons.prems(2) r g(1) by (auto simp: reads_def split: if_splits option.splits)
  have "view db cs (GetHash tx) = None"
    using Cons.prems(2) r unfolding g(2) [symmetric] by (auto simp: unspent_def split: if_splits option.splits)
  then show ?case using Cons.IH [OF ds(2,1)] ds(3) reads_trans [OF g(1)] by simp
qed (simp add: reads_def)

text \<open>Outputs that are there can be spent, each once, without failing the assertion.\<close>

lemma Spend_other: "IsAvailable m c \<Longrightarrow> m \<noteq> n \<Longrightarrow> IsAvailable m (fst (Spend n c))"
proof -
  assume a: "IsAvailable m c" "m \<noteq> n"
  let ?v = "(c_vout c)[n := CTxOut_null]"
  obtain t where t: "?v = drop_nulls ?v @ t" "list_all CTxOut_IsNull t" using drop_nulls_prefix by blast
  have m: "m < length ?v" "\<not> CTxOut_IsNull (?v ! m)" using a by (auto simp: IsAvailable_def)
  have "m < length (drop_nulls ?v)"
  proof (rule ccontr)
    assume "\<not> m < length (drop_nulls ?v)"
    then have "(drop_nulls ?v @ t) ! m \<in> set t" using m(1) arg_cong [OF t(1), of length] by (simp add: nth_append)
    then show False using t m(2) by (auto simp: list_all_iff)
  qed
  then have "drop_nulls ?v ! m = ?v ! m" using t(1) by (metis nth_append)
  then show ?thesis using \<open>m < length (drop_nulls ?v)\<close> m a by (simp add: Spend_def Cleanup_def IsAvailable_def)
qed

lemma spend_inputs_some:
  assumes "stack_ok db (c # cs)" "list_all (\<lambda>i. available (view db (c # cs)) (prevout i)) ins" "distinct (map prevout ins)"
  shows "spend_inputs db ins c cs \<noteq> None"
  using assms
proof (induction ins arbitrary: c cs)
  case (Cons i ins)
  let ?k = "op_hash (prevout i)" and ?n = "unat (op_n (prevout i))"
  obtain e cs1 where e: "ModifyCoins db c cs ?k = (e, cs1)" by (cases "ModifyCoins db c cs ?k")
  let ?s = "fst (Spend ?n (coins e))"
  let ?c1 = "EndModify ?k (e\<lparr>coins := ?s\<rparr>) c"
  note m = ModifyCoins_ok [OF Cons.prems(1) e] and v = modify_view(1,2) [where x = ?s, OF Cons.prems(1) e]
  have i: "view db (c # cs) ?k = Some (coins e)" "IsAvailable ?n (coins e)"
    using Cons.prems(2) m(3) by (auto simp: available_def unspent_def simp del: view.simps split: if_splits option.splits)
  have "available (view db (?c1 # cs1)) (prevout j)" if j: "j \<in> set ins" for j
  proof -
    have "available (view db (c # cs)) (prevout j)" using Cons.prems(2) j by (simp add: list_all_iff del: view.simps)
    moreover have "prevout j \<noteq> prevout i" using Cons.prems(3) imageI [OF j, of prevout] by (metis distinct.simps(2) list.simps(9) set_map)
    ultimately have av: "available (view db (c # cs)) (prevout j)" "prevout j \<noteq> prevout i" by blast+
    show ?thesis
    proof (cases "op_hash (prevout j) = ?k")
      case True
      then have "op_n (prevout j) \<noteq> op_n (prevout i)" using av(2) by (auto intro: COutPoint.equality)
      then have "unat (op_n (prevout j)) \<noteq> unat (op_n (prevout i))" by (simp add: word_unat_eq_iff)
      then have "IsAvailable (unat (op_n (prevout j))) ?s"
        using av(1) i(1) True by (intro Spend_other) (simp_all add: available_def del: view.simps)
      then show ?thesis using available_not_pruned v(2) True m(4)
        by (simp add: available_def Spend_clean unspent_def del: view.simps)
    next
      case False
      then show ?thesis using av(1) v(2) by (simp add: available_def del: view.simps)
    qed
  qed
  then have "spend_inputs db ins ?c1 cs1 \<noteq> None"
    using Cons.IH [OF v(1)] Cons.prems(3) by (simp add: list_all_iff del: view.simps)
  then show ?case using e i(2) by (auto simp: IsAvailable_def Let_def)
qed simp

text \<open>
  What the checks of blocks and transactions guarantee before a block is connected: a coinbase
  without shielded spends comes first and only there, every transaction spends something and no
  output twice, and the amounts are in range. In addition different transactions of the block have different
  ids, which the hash is relied on for. The checks do not exclude that a transaction is repeated.
\<close>

definition block_ok :: "(CTransaction \<Rightarrow> uint256) \<Rightarrow> CTransaction list \<Rightarrow> bool" where
  "block_ok GetHash vtx \<longleftrightarrow>
     vtx \<noteq> [] \<and> IsCoinBase (hd vtx) \<and> vShieldedSpend (hd vtx) = [] \<and> list_all (\<lambda>tx. \<not> IsCoinBase tx) (tl vtx) \<and>
     fits_u64 vtx \<and> inj_on GetHash (set vtx) \<and>
     list_all (\<lambda>tx. tx_ok tx \<and> distinct (map prevout (vin tx)) \<and> (vin tx \<noteq> [] \<or> vShieldedSpend tx \<noteq> [])) vtx"

definition new_tx :: "(CTransaction \<Rightarrow> uint256) \<Rightarrow> (uint256 \<Rightarrow> CCoins option) \<Rightarrow> (uint256 \<Rightarrow> CCoins option) \<Rightarrow> CTransaction \<Rightarrow> bool" where
  "new_tx GetHash below u tx \<longleftrightarrow>
     u (GetHash tx) = None \<and> below (GetHash tx) = None \<and> tx_ok tx \<and> distinct (map prevout (vin tx)) \<and>
     (IsCoinBase tx \<longrightarrow> vShieldedSpend tx = [])"

text \<open>One transaction: it fails no assertion, and what it did can be undone.\<close>

lemma connect_tx_undoes:
  assumes "stands_for db cs u nfs" "good_view u" "new_tx GetHash (view db (tl cs)) u tx" "0 < h" "h < 2 ^ 31" "cs \<noteq> []"
  shows "connect_tx GetHash sc db h tx n cs \<noteq> Inl (failed assertion_failed)"
    and "connect_tx GetHash sc db h tx n cs = Inr (cs', us, n', fee) \<Longrightarrow>
      \<exists>u1. stands_for db cs' (u1(GetHash tx := unspent (FromTx tx h))) (null_update tx True nfs) \<and>
        good_view (u1(GetHash tx := unspent (FromTx tx h))) \<and> (\<forall>k. u k = None \<longrightarrow> u1 k = None) \<and> cs' \<noteq> [] \<and>
        view db (tl cs') = view db (tl cs) \<and> undo_ok (if IsCoinBase tx then 0 else length (vin tx)) us \<and>
        list_all (\<lambda>sd. \<not> nfs (nullifier sd)) (vShieldedSpend tx) \<and> undoes db2 (rev (zip (vin tx) us)) u1 u \<and>
        consumed (if IsCoinBase tx then [] else vin tx) u u1"
proof -
  have s: "stack_ok db cs" "view db cs = u" "null_view db cs SAPLING = nfs" using assms(1) by (simp_all add: stands_for_def)
  show "connect_tx GetHash sc db h tx n cs \<noteq> Inl (failed assertion_failed)"
  proof (cases "check_tx sc db h tx n cs")
    case (Inl err)
    then show ?thesis using check_tx_reads(1) [OF s(1), of sc h tx n] by (simp add: connect_tx_def)
  next
    case (Inr p)
    obtain cs1 n' fee where p: "check_tx sc db h tx n cs = Inr (cs1, n', fee)" using Inr by (cases p) simp
    note r = check_tx_reads(2,3) [OF s(1) p]
    then obtain c ds where c: "cs1 = c # ds" using assms(6) by (cases cs1) (auto simp: reads_def)
    have "spend_inputs db (vin tx) c ds \<noteq> None" if "\<not> IsCoinBase tx"
    proof (rule spend_inputs_some)
      show "stack_ok db (c # ds)" "list_all (\<lambda>i. available (view db (c # ds)) (prevout i)) (vin tx)" "distinct (map prevout (vin tx))"
        using r(1) r(2) [OF that] assms(3) by (simp_all add: c reads_def new_tx_def del: view.simps stack_ok.simps)
    qed
    then show ?thesis using p by (cases "IsCoinBase tx") (auto simp: connect_tx_def c UpdateCoins_def split: option.splits)
  qed
  assume a: "connect_tx GetHash sc db h tx n cs = Inr (cs', us, n', fee)"
  then obtain c ds c' ds' where c: "check_tx sc db h tx n cs = Inr (c # ds, n', fee)" "UpdateCoins GetHash db tx h c ds = Some (c', ds', us)" "cs' = c' # ds'"
    by (auto simp: connect_tx_def split: sum.splits list.splits option.splits)
  note r = check_tx_reads(2-4) [OF s(1) c(1)]
  have st: "stands_for db (c # ds) u nfs" "view db ds = view db (tl cs)" using r(1) s by (simp_all add: stands_for_def reads_def del: view.simps null_view.simps stack_ok.simps)
  have n: "u (GetHash tx) = None" "view db ds (GetHash tx) = None" "tx_ok tx" using assms(3) st(2) by (simp_all add: new_tx_def)
  have "list_all (\<lambda>sd. \<not> nfs (nullifier sd)) (vShieldedSpend tx)" using r(3) s(3) assms(3) by (cases "IsCoinBase tx") (auto simp: new_tx_def)
  then show "\<exists>u1. stands_for db cs' (u1(GetHash tx := unspent (FromTx tx h))) (null_update tx True nfs) \<and>
      good_view (u1(GetHash tx := unspent (FromTx tx h))) \<and> (\<forall>k. u k = None \<longrightarrow> u1 k = None) \<and> cs' \<noteq> [] \<and>
      view db (tl cs') = view db (tl cs) \<and> undo_ok (if IsCoinBase tx then 0 else length (vin tx)) us \<and>
      list_all (\<lambda>sd. \<not> nfs (nullifier sd)) (vShieldedSpend tx) \<and> undoes db2 (rev (zip (vin tx) us)) u1 u \<and>
        consumed (if IsCoinBase tx then [] else vin tx) u u1"
    using UpdateCoins_undoes [OF st(1) assms(2) c(2) n assms(4,5), of db2] list.distinct(2) unfolding c(3) list.sel st(2) [symmetric] by blast
qed

lemma new_tx_step:
  assumes "list_all (new_tx GetHash below u) txs" "\<forall>k. u k = None \<longrightarrow> u1 k = None" "GetHash tx \<notin> set (map GetHash txs)"
  shows "list_all (new_tx GetHash below (u1(GetHash tx := x))) txs"
  using assms by (auto simp: list_all_iff new_tx_def image_iff)

definition undone ::
  "(CTransaction \<Rightarrow> uint256) \<Rightarrow> 't CCoinsViewDB \<Rightarrow> int \<Rightarrow> (CTransaction \<times> CTxInUndo list) list \<Rightarrow>
   (uint256 \<Rightarrow> CCoins option) \<Rightarrow> (uint256 \<Rightarrow> bool) \<Rightarrow> (uint256 \<Rightarrow> CCoins option) \<Rightarrow> (uint256 \<Rightarrow> bool) \<Rightarrow> bool" where
  "undone GetHash db h us u' nfs' u nfs \<longleftrightarrow>
     (\<forall>d ds b. stands_for db (d # ds) u' nfs' \<longrightarrow>
        (\<exists>d' ds'. disconnect_txs GetHash db h us d ds b = Some (d', ds', b) \<and> stands_for db (d' # ds') u nfs))"

lemma undone_append:
  "undone GetHash db h xs u'' nfs'' u' nfs' \<Longrightarrow> undone GetHash db h ys u' nfs' u nfs \<Longrightarrow> undone GetHash db h (xs @ ys) u'' nfs'' u nfs"
  unfolding undone_def disconnect_txs_append by (metis (mono_tags, lifting) case_prod_conv option.simps(5))

lemma undone_one:
  assumes "u1 (GetHash tx) = None" "list_all (\<lambda>sd. \<not> nfs (nullifier sd)) (vShieldedSpend tx)" "length us = length (vin tx)"
    and "undoes db (rev (zip (vin tx) us)) u1 u"
  shows "undone GetHash db h [(tx, us)] (u1(GetHash tx := unspent (FromTx tx h))) (null_update tx True nfs) u nfs"
  unfolding undone_def
  using disconnect_one [where ?u1.0 = u1 and nfs = nfs and tx = tx and GetHash = GetHash and us = us and u = u and db = db and h = h] assms
  by blast

lemma connect_txs_undone:
  assumes "stands_for db cs u nfs" "good_view u" "list_all (new_tx GetHash (view db (tl cs)) u) txs" "distinct (map GetHash txs)"
    and "0 < h" "h < 2 ^ 31" "cs \<noteq> []"
  shows "connect_txs GetHash sc db h txs n f cs \<noteq> Inl (failed assertion_failed) \<and>
    (\<forall>cs' uss f'. connect_txs GetHash sc db h txs n f cs = Inr (cs', uss, f') \<longrightarrow> list_all (\<lambda>tx. \<not> IsCoinBase tx) txs \<longrightarrow>
      (\<exists>u' nfs'. stands_for db cs' u' nfs' \<and> list_all2 (\<lambda>tx. undo_ok (length (vin tx))) txs uss \<and>
        undone GetHash db2 h (rev (zip txs uss)) u' nfs' u nfs))"
  using assms(1-4,7)
proof (induction txs arbitrary: cs u nfs n f)
  case Nil
  then show ?case by (auto simp: undone_def)
next
  case (Cons tx txs)
  have t: "new_tx GetHash (view db (tl cs)) u tx" "list_all (new_tx GetHash (view db (tl cs)) u) txs"
      "GetHash tx \<notin> set (map GetHash txs)" "distinct (map GetHash txs)" using Cons.prems(3,4) by simp_all
  note one = connect_tx_undoes [OF Cons.prems(1,2) t(1) assms(5,6) Cons.prems(5), of sc n]
  show ?case
  proof (cases "connect_tx GetHash sc db h tx n cs")
    case (Inr p)
    obtain cs1 us n1 fee where p: "p = (cs1, us, n1, fee)" by (cases p)
    let ?u2 = "\<lambda>u1. u1(GetHash tx := unspent (FromTx tx h))"
    obtain u1 where u1: "stands_for db cs1 (?u2 u1) (null_update tx True nfs)" "good_view (?u2 u1)" "\<forall>k. u k = None \<longrightarrow> u1 k = None"
        "cs1 \<noteq> []" "view db (tl cs1) = view db (tl cs)" "undo_ok (if IsCoinBase tx then 0 else length (vin tx)) us"
        "list_all (\<lambda>sd. \<not> nfs (nullifier sd)) (vShieldedSpend tx)" "undoes db2 (rev (zip (vin tx) us)) u1 u"
      using one(2) [of cs1 us n1 fee db2] Inr p by blast
    have "list_all (new_tx GetHash (view db (tl cs1)) (?u2 u1)) txs" unfolding u1(5) by (rule new_tx_step [OF t(2) u1(3) t(3)])
    note ih = Cons.IH [OF u1(1,2) this t(4) u1(4), of n1 "f + fee"]
    have "u1 (GetHash tx) = None" using u1(3) t(1) by (simp add: new_tx_def)
    note un = undone_one [where ?u1.0 = u1 and GetHash = GetHash and tx = tx and nfs = nfs and db = db2 and u = u and us = us and h = h, OF this u1(7) _ u1(8)]
    have "\<exists>u' nfs'. stands_for db cs' u' nfs' \<and> list_all2 (\<lambda>tx. undo_ok (length (vin tx))) (tx # txs) (us # uss) \<and> undone GetHash db2 h (rev (zip (tx # txs) (us # uss))) u' nfs' u nfs"
      if c: "connect_txs GetHash sc db h txs n1 (f + fee) cs1 = Inr (cs', uss, f')" "list_all (\<lambda>tx. \<not> IsCoinBase tx) (tx # txs)" for cs' uss f'
    proof -
      obtain u' nfs' where u': "stands_for db cs' u' nfs'" "list_all2 (\<lambda>tx. undo_ok (length (vin tx))) txs uss" "undone GetHash db2 h (rev (zip txs uss)) u' nfs' (?u2 u1) (null_update tx True nfs)"
        using ih c unfolding list.pred_inject by blast
      have "undone GetHash db2 h (rev (zip txs uss) @ [(tx, us)]) u' nfs' u nfs" using undone_append [OF u'(3) un] u1(6) c(2) by (simp add: undo_ok_def)
      then show ?thesis using u'(1,2) u1(6) c(2) by (intro exI [of _ u'] exI [of _ nfs']) (simp add: undo_ok_def)
    qed
    then show ?thesis using ih Inr p by (auto split: sum.splits)
  qed (use one(1) in auto)
qed

lemma connect_start:
  assumes "coins_run db (c # cs)" "cacheCoins c = []" "block_ok GetHash vtx" "overwrites GetHash db vtx (c # cs) = (False, cs')"
  shows "stands_for db cs' (view db (c # cs)) (null_view db (c # cs) SAPLING)"
    and "list_all (new_tx GetHash (view db (tl cs')) (view db (c # cs))) vtx" "cs' \<noteq> []"
proof -
  have r: "reads db (c # cs) cs'" "list_all (\<lambda>tx. view db (c # cs) (GetHash tx) = None) vtx"
    using overwrites_reads [OF coins_run_ok [OF assms(1)] assms(4)] by blast+
  then show "stands_for db cs' (view db (c # cs)) (null_view db (c # cs) SAPLING)" "cs' \<noteq> []"
    by (auto simp: stands_for_def reads_def simp del: view.simps null_view.simps)
  have "view db (tl cs') = view db (c # cs)" using r(1) assms(2) by (simp add: reads_def fun_eq_iff)
  moreover have "IsCoinBase tx \<longrightarrow> vShieldedSpend tx = []" if "tx \<in> set vtx" for tx
    using assms(3) that by (cases vtx) (auto simp: block_ok_def list_all_iff)
  ultimately show "list_all (new_tx GetHash (view db (tl cs')) (view db (c # cs))) vtx"
    using r(2) assms(3) by (simp add: new_tx_def block_ok_def list_all_iff del: view.simps)
qed

text \<open>
  A repeated transaction is rejected: once it is connected, one of its inputs or nullifiers is spent, and no
  transaction in between brings the output back, since transactions that are already there are not overwritten.
\<close>

definition gone :: "(uint256 \<Rightarrow> CCoins option) \<Rightarrow> (uint256 \<Rightarrow> bool) \<Rightarrow> uint256 set \<Rightarrow> CTransaction \<Rightarrow> bool" where
  "gone u nfs hs tx \<longleftrightarrow> (\<exists>i \<in> set (vin tx). \<not> available u (prevout i) \<and> op_hash (prevout i) \<notin> hs) \<or>
     (\<exists>sd \<in> set (vShieldedSpend tx). nfs (nullifier sd))"

lemma gone_rejected:
  assumes "stack_ok db cs" "gone (view db cs) (null_view db cs SAPLING) hs tx" "\<not> IsCoinBase tx"
  shows "\<exists>e. connect_tx GetHash sc db h tx n cs = Inl e \<and> e \<noteq> failed assertion_failed"
proof (cases "check_tx sc db h tx n cs")
  case (Inl e)
  then show ?thesis using check_tx_reads(1) [OF assms(1), of sc h tx n] by (auto simp: connect_tx_def)
next
  case (Inr p)
  then obtain cs' n' fee where "check_tx sc db h tx n cs = Inr (cs', n', fee)" by (cases p) simp
  then show ?thesis using check_tx_reads(3,4) [OF assms(1)] assms(2,3) by (fastforce simp: gone_def list_all_iff)
qed

lemma gone_step:
  assumes "consumed ins u u1" "gone u nfs hs tx" "k \<in> hs" "hs' \<subseteq> hs"
  shows "gone (u1(k := x)) (null_update tx' True nfs) hs' tx"
  using assms unfolding gone_def consumed_def available_def null_update_def by fastforce

lemma gone_after:
  assumes "consumed (vin tx) u u1" "list_all (\<lambda>i. available u (prevout i)) (vin tx)" "vin tx \<noteq> [] \<or> vShieldedSpend tx \<noteq> []"
    and "\<forall>k \<in> insert k hs. u k = None"
  shows "gone (u1(k := x)) (null_update tx True nfs) hs tx"
proof (cases "vin tx")
  case (Cons i ins)
  then have "\<not> available u1 (prevout i)" "available u (prevout i)" using assms(1,2) by (auto simp: consumed_def)
  moreover from this(2) have "op_hash (prevout i) \<notin> insert k hs" using assms(4) by (auto simp: available_def)
  ultimately show ?thesis using Cons by (auto simp: gone_def available_def)
next
  case Nil
  then show ?thesis using assms(3) by (cases "vShieldedSpend tx") (auto simp: gone_def null_update_def)
qed

lemma connect_txs_repeated:
  assumes "0 < h" "h < 2 ^ 31" "\<not> IsCoinBase tx" "vin tx \<noteq> [] \<or> vShieldedSpend tx \<noteq> []"
    and "stands_for db cs u nfs" "good_view u" "list_all (new_tx GetHash (view db (tl cs)) u) txs" "distinct (map GetHash txs)" "cs \<noteq> []"
    and "tx \<in> set txs \<or> gone u nfs (GetHash ` set txs) tx"
  shows "\<exists>e. connect_txs GetHash sc db h (txs @ tx # txs') n f cs = Inl e \<and> e \<noteq> failed assertion_failed"
  using assms(5-)
proof (induction txs arbitrary: cs u nfs n f)
  case Nil
  then obtain e where "connect_tx GetHash sc db h tx n cs = Inl e" "e \<noteq> failed assertion_failed"
    using gone_rejected [of db cs "{}" tx GetHash sc h n] assms(3) by (auto simp: stands_for_def)
  then show ?case by simp
next
  case (Cons x txs)
  have t: "new_tx GetHash (view db (tl cs)) u x" "list_all (new_tx GetHash (view db (tl cs)) u) txs"
      "GetHash x \<notin> set (map GetHash txs)" "distinct (map GetHash txs)" using Cons.prems(3,4) by simp_all
  note one = connect_tx_undoes [OF Cons.prems(1,2) t(1) assms(1,2) Cons.prems(5), of sc n]
  show ?case
  proof (cases "connect_tx GetHash sc db h x n cs")
    case (Inr p)
    obtain cs1 us n1 fee where p: "connect_tx GetHash sc db h x n cs = Inr (cs1, us, n1, fee)" using Inr by (cases p) simp
    let ?u2 = "\<lambda>u1. u1(GetHash x := unspent (FromTx x h))"
    obtain u1 where u1: "stands_for db cs1 (?u2 u1) (null_update x True nfs)" "good_view (?u2 u1)" "\<forall>k. u k = None \<longrightarrow> u1 k = None"
        "cs1 \<noteq> []" "view db (tl cs1) = view db (tl cs)" "consumed (if IsCoinBase x then [] else vin x) u u1"
      using one(2) [OF p] by blast
    have new: "list_all (new_tx GetHash (view db (tl cs1)) (?u2 u1)) txs" unfolding u1(5) by (rule new_tx_step [OF t(2) u1(3) t(3)])
    have "tx \<in> set txs \<or> gone (?u2 u1) (null_update x True nfs) (GetHash ` set txs) tx"
    proof (cases "tx = x")
      case True
      have "check_tx sc db h x n cs \<noteq> Inl e" for e using p by (auto simp: connect_tx_def)
      then obtain cs0 n0 fee0 where "check_tx sc db h x n cs = Inr (cs0, n0, fee0)" by (cases "check_tx sc db h x n cs") auto
      then have "list_all (\<lambda>i. available u (prevout i)) (vin x)"
        using check_tx_reads(3) [of db cs sc h x n cs0 n0 fee0] Cons.prems(1) assms(3) True by (simp add: stands_for_def)
      moreover have "\<forall>k \<in> insert (GetHash x) (GetHash ` set txs). u k = None" using t(1,2) by (auto simp: new_tx_def list_all_iff)
      ultimately show ?thesis using gone_after u1(6) assms(3,4) True by auto
    next
      case False
      then show ?thesis using Cons.prems(6) gone_step [OF u1(6), of nfs "GetHash ` set (x # txs)" tx "GetHash x" "GetHash ` set txs"] by auto
    qed
    note ih = Cons.IH [OF u1(1,2) new t(4) u1(4) this, of n1 "f + fee"]
    then show ?thesis using p by auto
  qed (use one(1) in auto)
qed

lemma connect_repeated:
  assumes "coins_run db (c # cs)" "cacheCoins c = []" "good_view (view db (c # cs))" "0 < h" "h < 2 ^ 31" "block_ok GetHash vtx"
    and "\<not> distinct (map GetHash vtx)"
  shows "\<exists>e. connect_coins GetHash sc db h vtx (c # cs) = Inl e \<and> e \<noteq> failed assertion_failed"
proof -
  obtain over cs1 where o1: "overwrites GetHash db vtx (c # cs) = (over, cs1)" by (cases "overwrites GetHash db vtx (c # cs)")
  obtain xs y ys where "map GetHash vtx = xs @ y # ys" and y: "y \<in> set xs" "distinct xs" using assms(7) not_distinct_conv_prefix [of "map GetHash vtx"] by auto
  then obtain pre tx post where v: "vtx = pre @ tx # post" "map GetHash pre = xs" "GetHash tx = y" by (auto simp: map_eq_append_conv map_eq_Cons_conv)
  then obtain x where "x \<in> set pre" "GetHash x = GetHash tx" using y(1) by auto
  then have tx: "tx \<in> set pre" using assms(6) v(1) inj_onD [of GetHash "set vtx" x tx] by (auto simp: block_ok_def)
  then have nc: "\<not> IsCoinBase tx" "vin tx \<noteq> [] \<or> vShieldedSpend tx \<noteq> []"
    using assms(6) v(1) by (cases pre; auto simp: block_ok_def list_all_iff)+
  show ?thesis
  proof (cases over)
    case False
    then have o2: "overwrites GetHash db vtx (c # cs) = (False, cs1)" using o1 by simp
    note st = connect_start [OF assms(1,2,6) o2]
    have "list_all (new_tx GetHash (view db (tl cs1)) (view db (c # cs))) pre" using st(2) v(1) by (simp add: list_all_iff)
    note rep = connect_txs_repeated [OF assms(4,5) nc st(1) assms(3) this _ st(3), of sc post 0 0]
    have "\<exists>e. connect_txs GetHash sc db h vtx 0 0 cs1 = Inl e \<and> e \<noteq> failed assertion_failed" unfolding v(1) using rep y(2) v(2) tx by blast
    then show ?thesis using o1 False by (auto simp: connect_coins_def)
  qed (use o1 in \<open>simp add: connect_coins_def\<close>)
qed

text \<open>
  C7. Connecting a block never fails an assertion about the spent outputs: not the one of \<open>UpdateCoins\<close>
  that each of them is there, nor those of \<open>GetOutputFor\<close> (in \<open>GetP2SHSigOpCount\<close> and \<open>GetValueIn\<close>) and \<open>CheckTxInputs\<close>. For a
  block that passed the checks of blocks and transactions and whose different transactions have different
  ids, on a new cache over any reachable stack, the
  block is either connected, or rejected for a reason of the chain rules, or an amount out of range throws.
\<close>

theorem connect_never_asserts:
  assumes "coins_run db (c # cs)" "cacheCoins c = []" "good_view (view db (c # cs))" "0 < h" "h < 2 ^ 31" "block_ok GetHash vtx"
  shows "connect_coins GetHash sc db h vtx (c # cs) \<noteq> Inl (failed assertion_failed)"
proof -
  obtain over cs1 where o1: "overwrites GetHash db vtx (c # cs) = (over, cs1)" by (cases "overwrites GetHash db vtx (c # cs)")
  consider "over" | "\<not> distinct (map GetHash vtx)" | "\<not> over" "distinct (map GetHash vtx)" by blast
  then show ?thesis
  proof cases
    case 3
    then have o2: "overwrites GetHash db vtx (c # cs) = (False, cs1)" using o1 by simp
    note st = connect_start [OF assms(1,2,6) o2]
    have "connect_txs GetHash sc db h vtx 0 0 cs1 \<noteq> Inl (failed assertion_failed)"
      using connect_txs_undone [OF st(1) assms(3) st(2) 3(2) assms(4,5) st(3)] by blast
    then show ?thesis using o1 3(1) by (auto simp: connect_coins_def split: sum.splits)
  next
    case 2
    then show ?thesis using connect_repeated [OF assms, of sc] by auto
  qed (use o1 in \<open>simp add: connect_coins_def\<close>)
qed

text \<open>
  Disconnecting a block gives back what connecting it took, on every stack that stands for the result
  (the same caches, or others after flushing), and the undo data is in a form that can be written.
\<close>

definition undos_stored :: "CTxInUndo list list \<Rightarrow> bool" where
  "undos_stored us \<longleftrightarrow> fits_u64 us \<and> list_all (\<lambda>u. fits_u64 u \<and> list_all undo_stored u) us"

lemma undos_stored_ok:
  assumes "list_all2 (\<lambda>tx. undo_ok (length (vin tx))) txs uss" "list_all tx_ok txs" "fits_u64 txs"
  shows "undos_stored uss" "length uss = length txs"
proof -
  show l: "length uss = length txs" using assms(1) by (simp add: list_all2_lengthD)
  have "fits_u64 u \<and> list_all undo_stored u" if "u \<in> set uss" for u
    using assms(1,2) l that by (auto simp: list_all2_conv_all_nth list_all_length in_set_conv_nth undo_ok_def tx_ok_def fits_u64_def)
  then show "undos_stored uss" using assms(3) l by (simp add: undos_stored_def fits_u64_def list_all_iff)
qed

lemma disconnect_undoes_connect:
  assumes "coins_run db (c # cs)" "cacheCoins c = []" "good_view (view db (c # cs))" "0 < h" "h < 2 ^ 31" "block_ok GetHash vtx"
    and "connect_coins GetHash sc db h vtx (c # cs) = Inr (cs', undos, nFees)"
  shows "stack_ok db cs' \<and> undos_stored undos \<and>
    (\<forall>d ds. stands_for db2 (d # ds) (view db cs') (null_view db cs' SAPLING) \<longrightarrow>
      (\<exists>d' ds'. disconnect_coins GetHash db2 h vtx undos d ds = Some (d', ds', True) \<and>
        stands_for db2 (d' # ds') (view db (c # cs)) (null_view db (c # cs) SAPLING)))"
proof -
  let ?u = "view db (c # cs)" and ?nfs = "null_view db (c # cs) SAPLING"
  have dis: "distinct (map GetHash vtx)" using connect_repeated [OF assms(1-6), of sc] assms(7) by auto
  obtain tx txs where vtx: "vtx = tx # txs" using assms(6) by (cases vtx) (auto simp: block_ok_def)
  have b: "IsCoinBase tx" "list_all (\<lambda>tx. \<not> IsCoinBase tx) txs" "GetHash tx \<notin> set (map GetHash txs)" "distinct (map GetHash txs)"
    using assms(6) dis by (simp_all add: block_ok_def vtx)
  obtain cs0 cs1 us n fee where c1: "overwrites GetHash db vtx (c # cs) = (False, cs0)" "connect_tx GetHash sc db h tx 0 cs0 = Inr (cs1, us, n, fee)"
      "connect_txs GetHash sc db h txs n fee cs1 = Inr (cs', undos, nFees)"
    using assms(7) by (auto simp: connect_coins_def vtx split: prod.splits if_splits sum.splits)
  note st = connect_start [OF assms(1,2,6) c1(1)]
  have t: "new_tx GetHash (view db (tl cs0)) ?u tx" "list_all (new_tx GetHash (view db (tl cs0)) ?u) txs" using st(2) unfolding vtx list.pred_inject by blast+
  let ?u2 = "\<lambda>u1. u1(GetHash tx := unspent (FromTx tx h))"
  obtain u1 where u1: "stands_for db cs1 (?u2 u1) (null_update tx True ?nfs)" "good_view (?u2 u1)" "\<forall>k. ?u k = None \<longrightarrow> u1 k = None"
      "cs1 \<noteq> []" "view db (tl cs1) = view db (tl cs0)" "undo_ok 0 us"
      "list_all (\<lambda>sd. \<not> ?nfs (nullifier sd)) (vShieldedSpend tx)" "undoes db2 (rev (zip (vin tx) us)) u1 ?u"
    using connect_tx_undoes(2) [OF st(1) assms(3) t(1) assms(4,5) st(3) c1(2), of db2] unfolding if_P [OF b(1)] by blast
  have "list_all (new_tx GetHash (view db (tl cs1)) (?u2 u1)) txs" unfolding u1(5) by (rule new_tx_step [OF t(2) u1(3) b(3)])
  then obtain u' nfs' where u': "stands_for db cs' u' nfs'" "list_all2 (\<lambda>tx. undo_ok (length (vin tx))) txs undos"
      "undone GetHash db2 h (rev (zip txs undos)) u' nfs' (?u2 u1) (null_update tx True ?nfs)"
    using connect_txs_undone [OF u1(1,2) _ b(4) assms(4,5) u1(4)] c1(3) b(2) by blast
  have "list_all tx_ok txs" "fits_u64 txs" using assms(6) by (simp_all add: block_ok_def vtx list_all_iff fits_u64_def)
  note us = undos_stored_ok [OF u'(2) this]
  have new: "u1 (GetHash tx) = None" using u1(3) t(1) by (simp add: new_tx_def del: view.simps)
  have "\<exists>d' ds'. disconnect_coins GetHash db2 h vtx undos d ds = Some (d', ds', True) \<and> stands_for db2 (d' # ds') ?u ?nfs"
    if d: "stands_for db2 (d # ds) u' nfs'" for d ds
  proof -
    obtain e es where e: "disconnect_txs GetHash db2 h (rev (zip txs undos)) d ds True = Some (e, es, True)"
        "stands_for db2 (e # es) (?u2 u1) (null_update tx True ?nfs)" using u'(3) d unfolding undone_def by blast
    obtain d' ds' ok where r: "remove_outputs GetHash db2 tx h e es = (d', ds', ok)" by (cases "remove_outputs GetHash db2 tx h e es")
    have "ok \<and> stands_for db2 (d' # ds') u1 ?nfs"
      using remove_outputs_added [where u = u1, OF e(2) r] unfolding null_update_twice [OF u1(7)] fun_upd_idem [where f = u1 and x = "GetHash tx", OF new] .
    moreover from this have "stands_for db2 (d' # ds') ?u ?nfs" using u1(6,8) unfolding undoes_def undo_ok_def by fastforce
    ultimately show ?thesis using e(1) r us(2) by (simp add: disconnect_coins_def vtx del: view.simps null_view.simps)
  qed
  then show ?thesis using u'(1) us(1) unfolding stands_for_def by blast
qed

definition w_in :: "uint256 \<Rightarrow> u32 \<Rightarrow> CTxIn" where
  "w_in h n = CTxIn_make \<lparr>op_hash = h, op_n = n\<rparr>"

definition w_tx :: "u32 \<Rightarrow> CTxIn list \<Rightarrow> CAmount list \<Rightarrow> CTransaction" where
  "w_tx h ins vs = CMutableTransaction_default\<lparr>vin := ins, vout := map (\<lambda>v. \<lparr>nValue = v, scriptPubKey = []\<rparr>) vs, nLockTime := h\<rparr>"

definition w_hash :: "CTransaction \<Rightarrow> uint256" where
  "w_hash tx = ucast (nLockTime tx)"

text \<open>The third transaction spends both outputs of the second one, which spends the stored one.\<close>

definition w_block :: "CTransaction list" where
  "w_block = [w_tx 10 [w_in 0 UINT32_MAX] [7], w_tx 11 [w_in 1 0] [3, 2], w_tx 12 [w_in 11 1, w_in 11 0] [4]]"

lemma w_block_ok: "block_ok w_hash w_block"
  by (simp add: block_ok_def tx_ok_def fits_u64_def MoneyRange_def MAX_MONEY_def COIN_def SPROUT_MIN_CURRENT_VERSION_def w_block_def w_tx_def w_in_def w_hash_def CMutableTransaction_default_def CTxIn_make_def
      IsCoinBase_def OutPoint_IsNull_def CTxOut_IsNull_def)

lemma w_good_view: "good_view (view w_coins_db [CCoinsViewCache_new, CCoinsViewCache_new])"
  by (auto simp: good_view_def w_coins_db_def CCoinsViewCache_new_def w_coins_def good_coins_def clean_def proper_def CTxOut_IsNull_def
      stored_def MoneyRange_def MAX_MONEY_def COIN_def
      unspent_def split: if_splits)

lemma w_connected:
  "case connect_coins w_hash (\<lambda>_ _. True) w_coins_db 107 w_block [CCoinsViewCache_new, CCoinsViewCache_new] of Inr (d # ds, undos, nFees) \<Rightarrow> nFees = 1 | _ \<Rightarrow> False"
  by code_simp

theorem connect_never_asserts_witness:
  "connect_coins w_hash (\<lambda>_ _. True) w_coins_db 107 w_block [CCoinsViewCache_new, CCoinsViewCache_new] \<noteq> Inl (failed assertion_failed)"
  using connect_never_asserts [OF w_coins_run _ w_good_view _ _ w_block_ok, of 107] by (simp add: CCoinsViewCache_new_def)

end
