(* ===== verification/CoinsFormat.thy ===== *)
theory CoinsFormat
  imports Standard ConnectCoins
begin

text \<open>
  The bytes in which unspent outputs and undo data are stored (\<open>compressor.h\<close>, \<open>compressor.cpp\<close>,
  \<open>CCoins::Serialize\<close> of \<open>coins.h\<close>, \<open>undo.h\<close>, the undo files of \<open>main.cpp\<close>). Two operations on public keys, whether a key is a point
  of the curve and the recovery of its second coordinate, are arguments: \<open>IsFullyValid\<close> and
  \<open>Decompress\<close> of \<open>pubkey.cpp\<close> call the elliptic curve library. A failed assertion or a read past the end
  is \<^const>\<open>None\<close>.
\<close>

section \<open>Amounts\<close>

function strip_zeros :: "u64 \<Rightarrow> nat \<Rightarrow> u64 \<times> nat" where
  "strip_zeros n e = (if n mod 10 = 0 \<and> e < 9 then strip_zeros (n div 10) (e + 1) else (n, e))"
  by auto
termination
  by (relation "measure (\<lambda>(n, e). 9 - e)") auto

declare strip_zeros.simps [simp del]

definition CompressAmount :: "u64 \<Rightarrow> u64" where
  "CompressAmount n =
     (if n = 0 then 0
      else case strip_zeros n 0 of (n, e) \<Rightarrow>
        if e < 9 then (let d = n mod 10 in 1 + (n div 10 * 9 + d - 1) * 10 + of_nat e)
        else 1 + (n - 1) * 10 + 9)"

definition DecompressAmount :: "u64 \<Rightarrow> u64" where
  "DecompressAmount x =
     (if x = 0 then 0
      else let x = x - 1; e = unat (x mod 10); x = x div 10;
               n = (if e < 9 then x div 9 * 10 + (x mod 9 + 1) else x + 1)
           in n * 10 ^ e)"

lemma word_div_mod_of_nat: "a div b = of_nat (unat a div unat b)" "a mod b = of_nat (unat a mod unat b)" for a b :: "'a::len word"
  by (simp_all flip: unat_div_distrib unat_mod_distrib)

lemma strip_zeros_unat:
  "strip_zeros n e = (m, f) \<Longrightarrow> e \<le> 9 \<Longrightarrow>
   unat n = unat m * 10 ^ (f - e) \<and> e \<le> f \<and> f \<le> 9 \<and> (f < 9 \<longrightarrow> unat m mod 10 \<noteq> 0)"
proof (induction n e rule: strip_zeros.induct)
  case (1 n e)
  show ?case
  proof (cases "n mod 10 = 0 \<and> e < 9")
    case True
    have s: "strip_zeros (n div 10) (e + 1) = (m, f)" using "1.prems"(1) True by (simp add: strip_zeros.simps [of n e])
    note ih = "1.IH" [OF True s]
    have "unat n mod 10 = 0" using True by (simp add: unat_mod_distrib word_unat_eq_iff)
    then have "unat n = unat (n div 10) * 10" by (simp add: unat_div_distrib) presburger
    also have "\<dots> = unat m * (10 ^ (f - (e + 1)) * 10)" using ih True by simp
    also have "10 ^ (f - (e + 1)) * 10 = (10 :: nat) ^ (f - e)" using ih True by (metis Suc_diff_le Suc_eq_plus1 Suc_leI diff_Suc_Suc mult.commute power_Suc)
    finally show ?thesis using ih True by simp
  next
    case False
    then have "strip_zeros n e = (n, e)" by (subst strip_zeros.simps) (simp only: if_False)
    then have "m = n" "f = e" using "1.prems"(1) by simp_all
    then show ?thesis using False "1.prems"(2) by (auto simp: unat_mod_distrib word_unat_eq_iff)
  qed
qed

text \<open>The digit \<open>d\<close> satisfies the assertion of the source.\<close>

lemma CompressAmount_asserts: "strip_zeros n 0 = (m, e) \<Longrightarrow> e < 9 \<Longrightarrow> 1 \<le> m mod 10 \<and> m mod 10 \<le> 9"
  using strip_zeros_unat [of n 0 m e] by (auto simp: word_le_nat_alt unat_mod_distrib)

text \<open>The two cases of the code, as numbers.\<close>

lemma CompressAmount_unat:
  assumes "unat n \<noteq> 0" "unat n < 2 ^ 60"
  shows "\<exists>m f. unat n = m * 10 ^ f \<and> f \<le> 9 \<and> m < 2 ^ 60 \<and> 0 < m \<and> (f < 9 \<longrightarrow> m mod 10 \<noteq> 0) \<and>
    unat (CompressAmount n) = (if f < 9 then 1 + (m div 10 * 9 + m mod 10 - 1) * 10 + f else 1 + (m - 1) * 10 + 9)"
proof -
  obtain w f where s: "strip_zeros n 0 = (w, f)" by (cases "strip_zeros n 0")
  note z = strip_zeros_unat [OF s le0, simplified]
  define m where "m = unat w"
  have "m * 1 \<le> m * 10 ^ f" by (intro mult_le_mono) simp_all
  moreover have n: "unat n = m * 10 ^ f" using z by (simp add: m_def)
  ultimately have "m < 2 ^ 60" using assms(2) by linarith
  moreover have "0 < m" using n assms(1) by (intro Nat.gr0I) simp
  ultimately have m: "unat n = m * 10 ^ f" "f \<le> 9" "m < 2 ^ 60" "0 < m" "f < 9 \<longrightarrow> m mod 10 \<noteq> 0"
    using z n by (simp_all add: m_def)
  have w: "w = of_nat m" "w div 10 = of_nat (m div 10)" "w mod 10 = of_nat (m mod 10)" "n \<noteq> 0"
    using assms(1) by (auto simp: m_def word_div_mod_of_nat)
  show ?thesis
  proof (cases "f < 9")
    case True
    let ?d = "m mod 10"
    have d: "1 \<le> ?d" "?d \<le> 9" using m(5) True by auto
    have "1 + (of_nat (m div 10) * 9 + of_nat ?d - 1) * 10 + of_nat f = (of_nat (1 + (m div 10 * 9 + ?d - 1) * 10 + f) :: u64)"
      using d(1) by (simp add: of_nat_diff)
    moreover have "1 + (m div 10 * 9 + ?d - 1) * 10 + f < 2 ^ 64" using m(3) True d(2) by simp
    ultimately have "CompressAmount n = of_nat (1 + (m div 10 * 9 + ?d - 1) * 10 + f)"
        "unat (of_nat (1 + (m div 10 * 9 + ?d - 1) * 10 + f) :: u64) = 1 + (m div 10 * 9 + ?d - 1) * 10 + f"
      using True by (simp_all add: CompressAmount_def s w(2-4) Let_def unsigned_of_nat take_bit_nat_eq_self del: of_nat_add of_nat_mult of_nat_Suc)
    then show ?thesis using m True by auto
  next
    case False
    have "1 + (of_nat m - 1) * 10 + 9 = (of_nat (1 + (m - 1) * 10 + 9) :: u64)" using m(4) by (simp add: of_nat_diff)
    moreover have "1 + (m - 1) * 10 + 9 < 2 ^ 64" using m(3) by simp
    ultimately have "CompressAmount n = of_nat (1 + (m - 1) * 10 + 9)" "unat (of_nat (1 + (m - 1) * 10 + 9) :: u64) = 1 + (m - 1) * 10 + 9"
      using False by (simp_all add: CompressAmount_def s w unsigned_of_nat take_bit_nat_eq_self del: of_nat_add of_nat_mult of_nat_Suc)
    then show ?thesis using m False by (intro exI [of _ m] exI [of _ f]) simp
  qed
qed

lemma DecompressAmount_unat:
  assumes "unat x \<noteq> 0"
  shows "DecompressAmount x = (let y = unat x - 1; e = y mod 10; z = y div 10
    in of_nat ((if e < 9 then z div 9 * 10 + (z mod 9 + 1) else z + 1) * 10 ^ e))"
proof -
  have u: "unat (x - 1) = unat x - 1" using assms by (intro unat_minus_one) auto
  have d: "unat ((x - 1) div 10) = (unat x - 1) div 10" "unat ((x - 1) mod 10) = (unat x - 1) mod 10"
    by (simp_all only: unat_div_distrib unat_mod_distrib u) simp_all
  have "(x - 1) div 10 = of_nat ((unat x - 1) div 10)" unfolding d(1) [symmetric] by simp
  moreover have "(x - 1) div 10 div 9 = of_nat ((unat x - 1) div 10 div 9)" "(x - 1) div 10 mod 9 = of_nat ((unat x - 1) div 10 mod 9)"
    unfolding word_div_mod_of_nat [of "(x - 1) div 10"] d(1) by simp_all
  ultimately show ?thesis using assms d(2) by (auto simp: DecompressAmount_def Let_def ac_simps)
qed

lemma digits_back: "(z :: nat) = m div 10 * 9 + m mod 10 - 1 \<Longrightarrow> m mod 10 \<noteq> 0 \<Longrightarrow> z div 9 * 10 + (z mod 9 + 1) = m"
proof -
  assume z: "z = m div 10 * 9 + m mod 10 - 1" "m mod 10 \<noteq> 0"
  then have "z = (m mod 10 - 1) + m div 10 * 9" by linarith
  then have "z div 9 = m div 10" "z mod 9 = m mod 10 - 1" by simp_all
  then show ?thesis using z(2) by simp
qed

lemma amount_code_back:
  assumes "(f :: nat) \<le> 9" "0 < m" "f < 9 \<longrightarrow> m mod 10 \<noteq> 0"
    and "x = (if f < 9 then 1 + (m div 10 * 9 + m mod 10 - 1) * 10 + f else 1 + (m - 1) * 10 + 9)"
  shows "(x - 1) mod 10 = f \<and> (if f < 9 then (x - 1) div 10 div 9 * 10 + ((x - 1) div 10 mod 9 + 1) else (x - 1) div 10 + 1) = m"
proof (cases "f < 9")
  case True
  then have "x - 1 = f + (m div 10 * 9 + m mod 10 - 1) * 10" using assms(4) by simp
  then have "(x - 1) div 10 = m div 10 * 9 + m mod 10 - 1" "(x - 1) mod 10 = f" using True by simp_all
  then show ?thesis using digits_back [of "(x - 1) div 10" m] True assms(3) by simp
next
  case False
  then have "x - 1 = 9 + (m - 1) * 10" "f = 9" using assms(1,4) by simp_all
  then show ?thesis using assms(2) by simp
qed

lemma DecompressAmount_CompressAmount:
  assumes "unat n < 2 ^ 60"
  shows "DecompressAmount (CompressAmount n) = n"
proof (cases "unat n = 0")
  case True
  then have "n = 0" by (simp add: word_unat_eq_iff)
  then show ?thesis by (simp add: CompressAmount_def DecompressAmount_def)
next
  case False
  define x where "x = CompressAmount n"
  obtain m f where x: "unat n = m * 10 ^ f" "f \<le> 9" "0 < m" "f < 9 \<longrightarrow> m mod 10 \<noteq> 0"
      "unat x = (if f < 9 then 1 + (m div 10 * 9 + m mod 10 - 1) * 10 + f else 1 + (m - 1) * 10 + 9)"
    using CompressAmount_unat [OF False assms] unfolding x_def by blast
  have nz: "unat x \<noteq> 0" using x(5) by (auto split: if_splits)
  have "DecompressAmount x = of_nat (m * 10 ^ f)"
    unfolding DecompressAmount_unat [OF nz] Let_def using amount_code_back [OF x(2,3,4,5)] by (elim conjE) (simp only:)
  then show ?thesis using x(1) unfolding x_def by (metis of_nat_unat ucast_id)
qed

section \<open>Scripts\<close>

definition IsToKeyID :: "CScript \<Rightarrow> bytes option" where
  "IsToKeyID script =
     (if length script = 25 \<and> script ! 0 = OP_DUP \<and> script ! 1 = OP_HASH160 \<and> script ! 2 = 20 \<and>
         script ! 23 = OP_EQUALVERIFY \<and> script ! 24 = OP_CHECKSIG
      then Some (take 20 (drop 3 script)) else None)"

definition IsToScriptID :: "CScript \<Rightarrow> bytes option" where
  "IsToScriptID script =
     (if length script = 23 \<and> script ! 0 = OP_HASH160 \<and> script ! 1 = 20 \<and> script ! 22 = OP_EQUAL
      then Some (take 20 (drop 2 script)) else None)"

definition IsToPubKey :: "(CPubKey \<Rightarrow> bool) \<Rightarrow> CScript \<Rightarrow> CPubKey option" where
  "IsToPubKey IsFullyValid script =
     (if length script = 35 \<and> script ! 0 = 33 \<and> script ! 34 = OP_CHECKSIG \<and> (script ! 1 = 2 \<or> script ! 1 = 3)
      then Some (CPubKey_Set (take 33 (drop 1 script)))
      else if length script = 67 \<and> script ! 0 = 65 \<and> script ! 66 = OP_CHECKSIG \<and> script ! 1 = 4
      then (let pubkey = CPubKey_Set (take 65 (drop 1 script)) in if IsFullyValid pubkey then Some pubkey else None)
      else None)"

definition Compress_script :: "(CPubKey \<Rightarrow> bool) \<Rightarrow> CScript \<Rightarrow> bytes option" where
  "Compress_script IsFullyValid script =
     (case IsToKeyID script of Some keyID \<Rightarrow> Some (0 # keyID)
      | None \<Rightarrow>
         (case IsToScriptID script of Some scriptID \<Rightarrow> Some (1 # scriptID)
          | None \<Rightarrow>
             (case IsToPubKey IsFullyValid script of
                Some pubkey \<Rightarrow>
                  if pubkey ! 0 = 2 \<or> pubkey ! 0 = 3 then Some (pubkey ! 0 # take 32 (drop 1 pubkey))
                  else if pubkey ! 0 = 4 then Some ((4 OR (pubkey ! 64 AND 1)) # take 32 (drop 1 pubkey))
                  else None
              | None \<Rightarrow> None)))"

definition GetSpecialSize :: "u32 \<Rightarrow> nat" where
  "GetSpecialSize nSize = (if nSize = 0 \<or> nSize = 1 then 20 else if nSize \<ge> 2 \<and> nSize \<le> 5 then 32 else 0)"

text \<open>The result is the new script; \<^const>\<open>None\<close> is the result \<open>false\<close>, which leaves the script as it is.\<close>

definition Decompress_script :: "(bytes \<Rightarrow> CPubKey option) \<Rightarrow> u32 \<Rightarrow> bytes \<Rightarrow> CScript option" where
  "Decompress_script PubKey_Decompress nSize data =
     (if nSize = 0 then Some ([OP_DUP, OP_HASH160, 20] @ take 20 data @ [OP_EQUALVERIFY, OP_CHECKSIG])
      else if nSize = 1 then Some ([OP_HASH160, 20] @ take 20 data @ [OP_EQUAL])
      else if nSize = 2 \<or> nSize = 3 then Some ([33, ucast nSize] @ take 32 data @ [OP_CHECKSIG])
      else if nSize = 4 \<or> nSize = 5 then
        (case PubKey_Decompress (CPubKey_Set (ucast (nSize - 2) # take 32 data)) of
           None \<Rightarrow> None | Some pubkey \<Rightarrow> Some (65 # take 65 pubkey @ [OP_CHECKSIG]))
      else None)"

definition nSpecialScripts :: u32 where "nSpecialScripts = 6"

definition Serialize_script :: "(CPubKey \<Rightarrow> bool) \<Rightarrow> CScript \<Rightarrow> bytes" where
  "Serialize_script IsFullyValid script =
     (case Compress_script IsFullyValid script of Some compr \<Rightarrow> compr
      | None \<Rightarrow> WriteVarInt (of_nat (length script) + nSpecialScripts) @ script)"

text \<open>A script is read into an empty one.\<close>

definition Unserialize_script :: "(bytes \<Rightarrow> CPubKey option) \<Rightarrow> CScript reader" where
  "Unserialize_script PubKey_Decompress =
     read_bind ReadVarInt (\<lambda>nSize :: u32.
       if nSize < nSpecialScripts then
         read_bind (stream_read (GetSpecialSize nSize)) (\<lambda>vch.
           read_return (case Decompress_script PubKey_Decompress nSize vch of None \<Rightarrow> [] | Some script \<Rightarrow> script))
       else
         (let nSize = unat (nSize - nSpecialScripts) in
            if nSize > MAX_SCRIPT_SIZE then read_bind (stream_read nSize) (\<lambda>_. read_return (push_opcode [] OP_RETURN))
            else stream_read nSize))"

text \<open>
  What is relied on of the curve library: a key that is a point of the curve is recovered from
  its first coordinate and the parity of the second one.
\<close>

definition recovers :: "(CPubKey \<Rightarrow> bool) \<Rightarrow> (bytes \<Rightarrow> CPubKey option) \<Rightarrow> bool" where
  "recovers IsFullyValid PubKey_Decompress \<longleftrightarrow>
     (\<forall>key. length key = 65 \<and> key ! 0 = 4 \<and> IsFullyValid key \<longrightarrow>
        PubKey_Decompress ((2 OR (key ! 64 AND 1)) # take 32 (drop 1 key)) = Some key)"

lemma ReadVarInt_byte: "\<not> bit b 7 \<Longrightarrow> ReadVarInt (b # s) = Some (ucast b :: u32, s)" for b :: byte
  by (simp add: ReadVarInt_def byte_and_0x80 byte_and_0x7f take_bit_7_id)

lemma split_script: "s = take a s @ take b (drop a s) @ drop (a + b) s"
  by (metis append_take_drop_id drop_drop add.commute)

lemma take_nth: "length s > a \<Longrightarrow> take (Suc a) s = take a s @ [s ! a]"
  by (simp add: take_Suc_conv_app_nth)

lemma drop_nth: "length s > a \<Longrightarrow> drop a s = s ! a # drop (Suc a) s"
  by (simp add: Cons_nth_drop_Suc)

lemma keyid_script:
  assumes "IsToKeyID s = Some h"
  shows "s = [OP_DUP, OP_HASH160, 20] @ h @ [OP_EQUALVERIFY, OP_CHECKSIG]" "length h = 20"
proof -
  have s: "length s = 25" "s ! 0 = OP_DUP" "s ! 1 = OP_HASH160" "s ! 2 = 20" "s ! 23 = OP_EQUALVERIFY" "s ! 24 = OP_CHECKSIG"
      "h = take 20 (drop 3 s)"
    using assms by (auto simp: IsToKeyID_def split: if_splits)
  have "take 3 s = [OP_DUP, OP_HASH160, 20]" "drop 23 s = [OP_EQUALVERIFY, OP_CHECKSIG]"
    using s by (simp_all add: numeral_3_eq_3 numeral_2_eq_2 take_nth drop_nth [of 23] drop_nth [of 24])
  then show "s = [OP_DUP, OP_HASH160, 20] @ h @ [OP_EQUALVERIFY, OP_CHECKSIG]" using split_script [of s 3 20] s(7) by simp
  show "length h = 20" using s by simp
qed

lemma scriptid_script:
  assumes "IsToScriptID s = Some h"
  shows "s = [OP_HASH160, 20] @ h @ [OP_EQUAL]" "length h = 20"
proof -
  have s: "length s = 23" "s ! 0 = OP_HASH160" "s ! 1 = 20" "s ! 22 = OP_EQUAL" "h = take 20 (drop 2 s)"
    using assms by (auto simp: IsToScriptID_def split: if_splits)
  have "take 2 s = [OP_HASH160, 20]" "drop 22 s = [OP_EQUAL]"
    using s by (simp_all add: numeral_2_eq_2 take_nth drop_nth [of 22])
  then show "s = [OP_HASH160, 20] @ h @ [OP_EQUAL]" using split_script [of s 2 20] s(5) by simp
  show "length h = 20" using s by simp
qed

lemma pubkey_script:
  assumes "IsToPubKey fv s = Some k"
  shows "(length k = 33 \<and> (k ! 0 = 2 \<or> k ! 0 = 3) \<and> s = 33 # k @ [OP_CHECKSIG]) \<or>
    (length k = 65 \<and> k ! 0 = 4 \<and> fv k \<and> s = 65 # k @ [OP_CHECKSIG])"
proof (cases "length s = 35 \<and> s ! 0 = 33 \<and> s ! 34 = OP_CHECKSIG \<and> (s ! 1 = 2 \<or> s ! 1 = 3)")
  case True
  let ?k = "take 33 (drop 1 s)"
  have l: "length ?k = 33" "?k ! 0 = s ! 1" using True by simp_all
  then have "hd ?k = s ! 1" "?k \<noteq> []" by (auto simp: hd_conv_nth)
  then have "k = ?k" using assms True l by (auto simp: IsToPubKey_def CPubKey_Set_def GetLen_def COMPRESSED_PUBLIC_KEY_SIZE_def Let_def)
  moreover have "take 1 s = [33]" "drop 34 s = [OP_CHECKSIG]" using True by (simp_all add: take_nth drop_nth [of 34])
  ultimately show ?thesis using split_script [of s 1 33] True l by auto
next
  case False
  let ?k = "take 65 (drop 1 s)"
  have s: "length s = 67" "s ! 0 = 65" "s ! 66 = OP_CHECKSIG" "s ! 1 = 4" "fv (CPubKey_Set ?k)" "k = CPubKey_Set ?k"
    using assms False by (auto simp: IsToPubKey_def Let_def split: if_splits)
  have l: "length ?k = 65" "?k ! 0 = 4" using s by simp_all
  then have "hd ?k = 4" "?k \<noteq> []" by (auto simp: hd_conv_nth)
  then have "CPubKey_Set ?k = ?k" using l by (simp add: CPubKey_Set_def GetLen_def PUBLIC_KEY_SIZE_def Let_def)
  moreover have "take 1 s = [65]" "drop 66 s = [OP_CHECKSIG]" using s by (simp_all add: take_nth drop_nth [of 66])
  ultimately show ?thesis using split_script [of s 1 65] s l by auto
qed

lemma special_bytes:
  "\<not> bit (0 :: byte) 7" "\<not> bit (1 :: byte) 7" "\<not> bit (2 :: byte) 7" "\<not> bit (3 :: byte) 7" "\<not> bit (4 :: byte) 7" "\<not> bit (5 :: byte) 7"
  by code_simp+

lemma parity_byte: "(b :: byte) AND 1 = 0 \<or> b AND 1 = 1"
  by (simp add: and_one_eq mod2_eq_if)

lemma Unserialize_special:
  assumes "\<not> bit b 7" "(ucast b :: u32) < nSpecialScripts" "length d = GetSpecialSize (ucast b)"
  shows "Unserialize_script dec (b # d @ r) =
    Some (case Decompress_script dec (ucast b) d of None \<Rightarrow> [] | Some script \<Rightarrow> script, r)"
  using assms by (simp add: Unserialize_script_def read_bind_def ReadVarInt_byte read_return_def)

text \<open>One lemma for each kind of script.\<close>

lemma script_back_key:
  assumes "recovers fv dec" "IsToKeyID script = None" "IsToScriptID script = None" "IsToPubKey fv script = Some key"
  shows "Unserialize_script dec (Serialize_script fv script @ r) = Some (script, r)"
proof -
  let ?d = "take 32 (drop 1 key)"
  have cases: "(length key = 33 \<and> (key ! 0 = 2 \<or> key ! 0 = 3) \<and> script = 33 # key @ [OP_CHECKSIG]) \<or>
      (length key = 65 \<and> key ! 0 = 4 \<and> fv key \<and> script = 65 # key @ [OP_CHECKSIG])" by (rule pubkey_script [OF assms(4)])
  note defs = Serialize_script_def Compress_script_def Decompress_script_def GetSpecialSize_def nSpecialScripts_def special_bytes
  from cases show ?thesis
  proof
    assume k: "length key = 33 \<and> (key ! 0 = 2 \<or> key ! 0 = 3) \<and> script = 33 # key @ [OP_CHECKSIG]"
    then obtain a d where kd: "key = a # d" "length d = 32" by (cases key) auto
    then show ?thesis using k assms(2-4) Unserialize_special [of a d dec r] by (auto simp: defs)
  next
    assume k: "length key = 65 \<and> key ! 0 = 4 \<and> fv key \<and> script = 65 # key @ [OP_CHECKSIG]"
    have d: "dec ((2 OR (key ! 64 AND 1)) # ?d) = Some key" using assms(1) k unfolding recovers_def by blast
    have s: "CPubKey_Set (c # ?d) = c # ?d" if "c = 2 \<or> c = 3" for c
      using that k by (auto simp: CPubKey_Set_def GetLen_def COMPRESSED_PUBLIC_KEY_SIZE_def)
    have or: "4 OR (1 :: byte) = 5" "2 OR (1 :: byte) = 3" by code_simp+
    from parity_byte [of "key ! 64"] show ?thesis
    proof
      assume "key ! 64 AND 1 = 0"
      then show ?thesis using k assms(2-4) d s [of 2] Unserialize_special [of 4 ?d dec r] by (simp add: defs)
    next
      assume "key ! 64 AND 1 = 1"
      then show ?thesis using k assms(2-4) d s [of 3] Unserialize_special [of 5 ?d dec r] by (simp add: defs or)
    qed
  qed
qed

lemma script_back_plain:
  assumes "Compress_script fv script = None" "length script \<le> MAX_SCRIPT_SIZE"
  shows "Unserialize_script dec (Serialize_script fv script @ r) = Some (script, r)"
proof -
  let ?n = "of_nat (length script) + nSpecialScripts"
  have l: "unat (of_nat (length script) :: u32) = length script" "length script \<le> 10000"
    using assms(2) by (simp_all add: MAX_SCRIPT_SIZE_def unsigned_of_nat take_bit_nat_eq_self)
  have "unat ?n = length script + 6" using l by (simp add: nSpecialScripts_def unat_word_ariths)
  then have "\<not> ?n < nSpecialScripts" by (simp add: word_less_nat_alt nSpecialScripts_def)
  moreover have "?n - nSpecialScripts = of_nat (length script)" by simp
  ultimately show ?thesis using assms l by (simp add: Unserialize_script_def Serialize_script_def)
qed

lemma Unserialize_Serialize_script:
  assumes "recovers fv dec" "length script \<le> MAX_SCRIPT_SIZE"
  shows "Unserialize_script dec (Serialize_script fv script @ r) = Some (script, r)"
proof -
  note defs = Serialize_script_def Compress_script_def Decompress_script_def GetSpecialSize_def nSpecialScripts_def special_bytes
  consider h where "IsToKeyID script = Some h" | h where "IsToKeyID script = None" "IsToScriptID script = Some h"
    | key where "IsToKeyID script = None" "IsToScriptID script = None" "IsToPubKey fv script = Some key"
    | "Compress_script fv script = None"
    by (cases "IsToKeyID script"; cases "IsToScriptID script"; cases "IsToPubKey fv script") (auto simp: Compress_script_def)
  then show ?thesis
  proof cases
    case 1
    then show ?thesis using keyid_script [OF 1] Unserialize_special [of 0 h dec r] by (simp add: defs)
  next
    case 2
    then show ?thesis using scriptid_script [OF 2(2)] Unserialize_special [of 1 h dec r] by (simp add: defs)
  next
    case 3
    then show ?thesis by (rule script_back_key [OF assms(1)])
  next
    case 4
    then show ?thesis by (rule script_back_plain [OF _ assms(2)])
  qed
qed

section \<open>Outputs\<close>

definition Serialize_txout :: "(CPubKey \<Rightarrow> bool) \<Rightarrow> CTxOut \<Rightarrow> bytes" where
  "Serialize_txout IsFullyValid txout =
     WriteVarInt (CompressAmount (of_int (nValue txout))) @ Serialize_script IsFullyValid (scriptPubKey txout)"

definition Unserialize_txout :: "(bytes \<Rightarrow> CPubKey option) \<Rightarrow> CTxOut reader" where
  "Unserialize_txout PubKey_Decompress =
     read_bind ReadVarInt (\<lambda>nVal :: u64.
       read_bind (Unserialize_script PubKey_Decompress) (\<lambda>script.
         read_return \<lparr>nValue = sint (DecompressAmount nVal), scriptPubKey = script\<rparr>))"

lemma txout_codec:
  assumes "recovers fv dec"
  shows "codec (Serialize_txout fv) (Unserialize_txout dec) stored"
proof
  fix out r
  assume out: "stored out"
  let ?w = "of_int (nValue out) :: u64"
  have v: "0 \<le> nValue out" "nValue out \<le> 2100000000000000" using out by (simp_all add: stored_def MoneyRange_def MAX_MONEY_def COIN_def)
  have "uint ?w = nValue out" using v by (simp add: uint_word_of_int take_bit_int_eq_self)
  then have w: "unat ?w < 2 ^ 60" "sint ?w = nValue out" using v sint_small_u64 [of ?w] by (simp_all add: unat_eq_nat_uint nat_less_iff)
  have "Unserialize_script dec (Serialize_script fv (scriptPubKey out) @ r) = Some (scriptPubKey out, r)"
    using Unserialize_Serialize_script [OF assms] out by (simp add: stored_def)
  then show "Unserialize_txout dec (Serialize_txout fv out @ r) = Some (out, r)"
    using DecompressAmount_CompressAmount [OF w(1)] w(2)
    by (simp add: Serialize_txout_def Unserialize_txout_def) (simp add: read_bind_def read_return_def)
qed

section \<open>Coins\<close>

text \<open>
  A variable-length integer of type \<open>int\<close>: a negative one passes the test for the last byte at
  once, the others are written as unsigned ones.
\<close>

definition WriteVarInt_int :: "int \<Rightarrow> bytes" where
  "WriteVarInt_int n = (if n < 0 then [of_int n AND 0x7F] else WriteVarInt (of_int n :: u32))"

definition ReadVarInt_int :: "int reader" where
  "ReadVarInt_int = read_bind ReadVarInt (\<lambda>n :: u32. read_return (sint n))"

text \<open>The bytes of the mask for the outputs after the second one, each for eight outputs.\<close>

definition is_available :: "CTxOut list \<Rightarrow> nat \<Rightarrow> bool" where
  "is_available v i \<longleftrightarrow> i < length v \<and> \<not> CTxOut_IsNull (v ! i)"

definition fZero :: "CTxOut list \<Rightarrow> nat \<Rightarrow> bool" where
  "fZero v b \<longleftrightarrow> list_all (\<lambda>i. \<not> is_available v (2 + b * 8 + i)) [0..<8]"

definition CalcMaskSize :: "CTxOut list \<Rightarrow> nat \<times> nat" where
  "CalcMaskSize v =
     fold (\<lambda>b (nLastUsedByte, nNonzeroBytes). if fZero v b then (nLastUsedByte, nNonzeroBytes) else (b + 1, nNonzeroBytes + 1))
       [0..<(length v - 2 + 7) div 8] (0, 0)"

definition chAvail :: "CTxOut list \<Rightarrow> nat \<Rightarrow> byte" where
  "chAvail v b = fold (\<lambda>i ch. if is_available v (2 + b * 8 + i) then ch OR push_bit i 1 else ch) [0..<8] 0"

fun serialize_outs :: "(CPubKey \<Rightarrow> bool) \<Rightarrow> CTxOut list \<Rightarrow> bytes" where
  "serialize_outs IsFullyValid [] = []"
| "serialize_outs IsFullyValid (out # v) =
     (if CTxOut_IsNull out then [] else Serialize_txout IsFullyValid out) @ serialize_outs IsFullyValid v"

definition header_code :: "nat \<Rightarrow> bool \<Rightarrow> bool \<Rightarrow> bool \<Rightarrow> u32" where
  "header_code nMaskCode coinbase fFirst fSecond =
     8 * (of_nat nMaskCode - (if fFirst \<or> fSecond then 0 else 1)) + (if coinbase then 1 else 0) +
     (if fFirst then 2 else 0) + (if fSecond then 4 else 0)"

definition Serialize_coins :: "(CPubKey \<Rightarrow> bool) \<Rightarrow> CCoins \<Rightarrow> bytes option" where
  "Serialize_coins IsFullyValid c =
     (case CalcMaskSize (c_vout c) of (nMaskSize, nMaskCode) \<Rightarrow>
        let fFirst = is_available (c_vout c) 0; fSecond = is_available (c_vout c) 1
        in if \<not> (fFirst \<or> fSecond \<or> nMaskCode \<noteq> 0) then None
           else Some (WriteVarInt_int (c_nVersion c) @ WriteVarInt (header_code nMaskCode (fCoinBase c) fFirst fSecond) @
                  map (chAvail (c_vout c)) [0..<nMaskSize] @ serialize_outs IsFullyValid (c_vout c) @ WriteVarInt_int (c_nHeight c)))"

definition mask_bits :: "byte \<Rightarrow> bool list" where
  "mask_bits ch = map (\<lambda>p. ch AND push_bit p 1 \<noteq> 0) [0..<8]"

fun read_mask :: "nat \<Rightarrow> bool list reader" where
  "read_mask 0 s = Some ([], s)"
| "read_mask (Suc n) [] = None"
| "read_mask (Suc n) (ch # s) =
     map_option (\<lambda>(bs, r). (mask_bits ch @ bs, r)) (read_mask (if ch \<noteq> 0 then n else Suc n) s)"

fun unserialize_outs :: "(bytes \<Rightarrow> CPubKey option) \<Rightarrow> bool list \<Rightarrow> CTxOut list reader" where
  "unserialize_outs PubKey_Decompress [] = read_return []"
| "unserialize_outs PubKey_Decompress (av # vAvail) =
     read_bind (if av then Unserialize_txout PubKey_Decompress else read_return CTxOut_null) (\<lambda>out.
       read_bind (unserialize_outs PubKey_Decompress vAvail) (\<lambda>v. read_return (out # v)))"

definition Unserialize_coins :: "(bytes \<Rightarrow> CPubKey option) \<Rightarrow> CCoins reader" where
  "Unserialize_coins PubKey_Decompress =
     read_bind ReadVarInt_int (\<lambda>nVersion.
     read_bind ReadVarInt (\<lambda>nCode :: u32.
     read_bind (read_mask (unat (nCode div 8 + (if nCode AND 6 \<noteq> 0 then 0 else 1)))) (\<lambda>vAvail.
     read_bind (unserialize_outs PubKey_Decompress ([nCode AND 2 \<noteq> 0, nCode AND 4 \<noteq> 0] @ vAvail)) (\<lambda>vout.
     read_bind ReadVarInt_int (\<lambda>nHeight.
       read_return (Cleanup \<lparr>fCoinBase = nCode AND 1 \<noteq> 0, c_vout = vout, c_nHeight = nHeight, c_nVersion = nVersion\<rparr>))))))"

section \<open>Stored coins are read back\<close>

lemma bit_chAvail: "p < 8 \<Longrightarrow> bit (chAvail v b) p \<longleftrightarrow> is_available v (2 + b * 8 + p)"
proof -
  have "p < 8 \<Longrightarrow> bit (fold (\<lambda>i ch. if P i then ch OR push_bit i 1 else ch) is (x :: byte)) p \<longleftrightarrow> bit x p \<or> (p \<in> set is \<and> P p)" for P "is" x
    by (induction "is" arbitrary: x) (auto simp: bit_simps)
  then show "p < 8 \<Longrightarrow> bit (chAvail v b) p \<longleftrightarrow> is_available v (2 + b * 8 + p)" by (simp add: chAvail_def)
qed

lemma mask_bits_chAvail: "mask_bits (chAvail v b) = map (\<lambda>i. is_available v (2 + b * 8 + i)) [0..<8]"
  unfolding mask_bits_def bit_iff_and_push_bit_not_eq_0 [symmetric] by (simp add: bit_chAvail)

lemma chAvail_zero: "chAvail v b = 0 \<longleftrightarrow> fZero v b"
proof -
  have "chAvail v b = 0 \<longleftrightarrow> (\<forall>p < 8. \<not> bit (chAvail v b) p)" by (auto simp: bit_eq_iff)
  then show ?thesis by (auto simp: bit_chAvail fZero_def list_all_iff)
qed

lemma CalcMaskSize_spec:
  assumes "CalcMaskSize v = (k, n)"
  shows "n = length (filter (\<lambda>ch. ch \<noteq> 0) (map (chAvail v) [0..<k]))" "k = 0 \<or> chAvail v (k - 1) \<noteq> 0"
    and "\<And>b. k \<le> b \<Longrightarrow> fZero v b" "k \<le> length v"
proof -
  let ?f = "\<lambda>b (l, z). if fZero v b then (l, z) else (b + 1, z + 1)" and ?m = "(length v - 2 + 7) div 8"
  have "\<exists>l z. fold ?f [0..<m] (0, 0) = (l, z) \<and> l \<le> m \<and> z = length (filter (\<lambda>b. \<not> fZero v b) [0..<l]) \<and> (l = 0 \<or> \<not> fZero v (l - 1)) \<and>
      (\<forall>b. l \<le> b \<and> b < m \<longrightarrow> fZero v b)" for m
  proof (induction m)
    case (Suc m)
    then obtain l z where lz: "fold ?f [0..<m] (0, 0) = (l, z)" "l \<le> m" "z = length (filter (\<lambda>b. \<not> fZero v b) [0..<l])" "l = 0 \<or> \<not> fZero v (l - 1)"
        "\<forall>b. l \<le> b \<and> b < m \<longrightarrow> fZero v b" by blast
    have "filter (\<lambda>b. \<not> fZero v b) [l..<m] = []" using lz(5) by (simp add: filter_empty_conv)
    moreover have "[0..<m] = [0..<l] @ [l..<m]" using lz(2) by (metis le0 le_Suc_ex upt_add_eq_append add_0)
    ultimately have "z = length (filter (\<lambda>b. \<not> fZero v b) [0..<m])" using lz(3) by simp
    then show ?case using lz less_Suc_eq by (cases "fZero v m") (auto simp: less_Suc_eq)
  qed simp
  then obtain l z where "fold ?f [0..<?m] (0, 0) = (l, z)" "l \<le> ?m \<and> z = length (filter (\<lambda>b. \<not> fZero v b) [0..<l]) \<and>
      (l = 0 \<or> \<not> fZero v (l - 1)) \<and> (\<forall>b. l \<le> b \<and> b < ?m \<longrightarrow> fZero v b)" by blast
  then have c: "k \<le> ?m" "n = length (filter (\<lambda>b. \<not> fZero v b) [0..<k])" "k = 0 \<or> \<not> fZero v (k - 1)" "\<forall>b. k \<le> b \<and> b < ?m \<longrightarrow> fZero v b"
    using assms unfolding CalcMaskSize_def by simp_all
  show "n = length (filter (\<lambda>ch. ch \<noteq> 0) (map (chAvail v) [0..<k]))" using c(2) by (simp add: filter_map comp_def chAvail_zero)
  show "k = 0 \<or> chAvail v (k - 1) \<noteq> 0" using c(3) by (simp add: chAvail_zero)
  show "k \<le> length v" using c(1) by (rule order_trans) presburger
  show "fZero v b" if "k \<le> b" for b
  proof (cases "b < ?m")
    case False
    then have "length v \<le> 2 + b * 8" by simp
    then show ?thesis by (simp add: fZero_def is_available_def list_all_iff)
  qed (use c(4) that in blast)
qed

lemma read_mask_back:
  "ms = [] \<or> last ms \<noteq> 0 \<Longrightarrow> read_mask (length (filter (\<lambda>ch. ch \<noteq> 0) ms)) (ms @ r) = Some (concat (map mask_bits ms), r)"
proof (induction ms)
  case (Cons ch ms)
  have ih: "read_mask (length (filter (\<lambda>ch. ch \<noteq> 0) ms)) (ms @ r) = Some (concat (map mask_bits ms), r)"
    using Cons by (cases ms) auto
  show ?case
  proof (cases "ch = 0")
    case True
    then have "ms \<noteq> []" "last ms \<noteq> 0" using Cons.prems by (auto split: if_splits)
    then have "filter (\<lambda>ch. ch \<noteq> 0) ms \<noteq> []" using last_in_set by (auto simp: filter_empty_conv)
    then obtain n where "length (filter (\<lambda>ch. ch \<noteq> 0) ms) = Suc n" by (cases "filter (\<lambda>ch. ch \<noteq> 0) ms") auto
    then show ?thesis using ih True by simp
  qed (use ih in simp)
qed simp

text \<open>The availabilities that are read: those of the outputs, followed by none.\<close>

lemma concat_mask: "concat (map (\<lambda>b. map (\<lambda>i. P (2 + b * 8 + i)) [0..<8]) [0..<k]) = map P [2..<2 + 8 * k]"
proof (induction k)
  case (Suc k)
  have "map (\<lambda>i. P (2 + k * 8 + i)) [0..<8] = map P (map (\<lambda>i. i + (2 + 8 * k)) [0..<8])" by (simp add: ac_simps)
  also have "\<dots> = map P [2 + 8 * k..<2 + 8 * Suc k]" unfolding map_add_upt by (simp add: ac_simps)
  finally show ?case using Suc upt_add_eq_append [of 2 "2 + 8 * k" 8] by simp
qed simp

lemma all_masks:
  "[is_available v 0, is_available v 1] @ concat (map mask_bits (map (chAvail v) [0..<k])) = map (is_available v) [0..<2 + 8 * k]"
proof -
  have "concat (map mask_bits (map (chAvail v) [0..<k])) = map (is_available v) [2..<2 + 8 * k]"
    unfolding map_map comp_def mask_bits_chAvail by (rule concat_mask)
  moreover have two: "[0..<2] = [0, 1 :: nat]" by (simp add: upt_rec)
  have "[0..<2 + 8 * k] = [0, 1] @ [2..<2 + 8 * k]" 
    using upt_add_eq_append [of 0 2 "8 * k"] two by (simp only: le0)
  ultimately show ?thesis by simp
qed

lemma mask_covers:
  assumes "CalcMaskSize v = (k, n)" "v = [] \<or> \<not> CTxOut_IsNull (last v)"
  shows "length v \<le> 2 + 8 * k"
proof (rule ccontr)
  assume "\<not> length v \<le> 2 + 8 * k"
  then have l: "2 + 8 * k < length v" by simp
  define j where "j = length v - 3"
  have "v \<noteq> []" using l by auto
  moreover have "2 + j div 8 * 8 + j mod 8 = length v - 1" using l by (simp add: j_def)
  ultimately have "is_available v (2 + j div 8 * 8 + j mod 8)" using assms(2) l by (simp add: is_available_def last_conv_nth)
  moreover have "fZero v (j div 8)" using CalcMaskSize_spec(3) [OF assms(1), of "j div 8"] l by (simp add: j_def)
  then have "\<forall>i \<in> set [0..<8]. \<not> is_available v (2 + j div 8 * 8 + i)" unfolding fZero_def list_all_iff .
  then have "\<not> is_available v (2 + j div 8 * 8 + j mod 8)" by (rule bspec) simp
  ultimately show False by blast
qed

lemma availabilities:
  assumes "length v \<le> N"
  shows "map (is_available v) [0..<N] = map (\<lambda>out. \<not> CTxOut_IsNull out) v @ replicate (N - length v) False"
  by (rule nth_equalityI) (use assms in \<open>auto simp: is_available_def nth_append\<close>)

lemma header_bits:
  assumes "f \<or> s \<or> n \<noteq> 0" "n < 2 ^ 28"
  shows "header_code n cb f s AND 1 \<noteq> 0 \<longleftrightarrow> cb" "header_code n cb f s AND 2 \<noteq> 0 \<longleftrightarrow> f" "header_code n cb f s AND 4 \<noteq> 0 \<longleftrightarrow> s"
    and "unat (header_code n cb f s div 8 + (if header_code n cb f s AND 6 \<noteq> 0 then 0 else 1)) = n"
proof -
  define q where "q = n - (if f \<or> s then 0 else 1)"
  define N where "N = 8 * q + (of_bool cb + 2 * of_bool f + 4 * of_bool s)"
  have "(of_nat n - (if f \<or> s then 0 else 1) :: u32) = of_nat q" using assms(1) by (auto simp: q_def of_nat_diff)
  then have h: "header_code n cb f s = of_nat N" by (simp add: header_code_def N_def)
  have "q < 2 ^ 28" using assms(2) by (simp add: q_def)
  then have N: "N < 2 ^ 32" "N div 8 = q" by (simp_all add: N_def of_bool_def)
  have "unat (of_nat N :: u32) = N" using N(1) by (simp add: unsigned_of_nat take_bit_nat_eq_self)
  then have b: "bit (of_nat N :: u32) i \<longleftrightarrow> odd (N div 2 ^ i)" for i
    using bit_unsigned_iff [of "of_nat N :: u32" i, where ?'a = nat] by (simp add: bit_iff_odd)
  have o: "odd (N div 2 ^ 0) \<longleftrightarrow> cb" "odd (N div 2 ^ 1) \<longleftrightarrow> f" "odd (N div 2 ^ 2) \<longleftrightarrow> s"
    unfolding N_def by (cases cb; cases f; cases s; simp; presburger)+
  have p: "(1 :: u32) = push_bit 0 1" "(2 :: u32) = push_bit 1 1" "(4 :: u32) = push_bit 2 1" by simp_all
  show one: "header_code n cb f s AND 1 \<noteq> 0 \<longleftrightarrow> cb" "header_code n cb f s AND 2 \<noteq> 0 \<longleftrightarrow> f" "header_code n cb f s AND 4 \<noteq> 0 \<longleftrightarrow> s"
    unfolding h by (subst p, unfold bit_iff_and_push_bit_not_eq_0 [symmetric], simp only: b o)+
  have "(6 :: u32) = 2 OR 4" by code_simp
  then have "header_code n cb f s AND 6 = (header_code n cb f s AND 2) OR (header_code n cb f s AND 4)"
    using bit.conj_disj_distrib by metis
  then have six: "header_code n cb f s AND 6 \<noteq> 0 \<longleftrightarrow> f \<or> s" using one(2,3) by (simp only: or_eq_0_iff de_Morgan_conj)
  have nq: "of_nat q + (if f \<or> s then 0 else 1) = (of_nat n :: u32)" using assms(1) by (auto simp: q_def of_nat_diff)
  have "header_code n cb f s div 8 = of_nat q" using N by (simp add: h word_div_mod_of_nat unsigned_of_nat take_bit_nat_eq_self)
  then show "unat (header_code n cb f s div 8 + (if header_code n cb f s AND 6 \<noteq> 0 then 0 else 1)) = n"
    unfolding six using nq assms(2) by (simp add: unsigned_of_nat take_bit_nat_eq_self)
qed

lemma drop_nulls_replicate: "v = [] \<or> \<not> CTxOut_IsNull (last v) \<Longrightarrow> drop_nulls (v @ replicate j CTxOut_null) = v"
proof (induction j)
  case (Suc j)
  have "v @ replicate (Suc j) CTxOut_null = (v @ replicate j CTxOut_null) @ [CTxOut_null]" by (simp add: replicate_append_same)
  moreover have "drop_nulls (xs @ [CTxOut_null]) = drop_nulls xs" for xs by (subst drop_nulls.simps) simp
  ultimately show ?case using Suc by (simp only:)
qed (simp add: drop_nulls_id)

lemma outs_back:
  assumes "recovers fv dec" "proper v" "list_all (\<lambda>out. CTxOut_IsNull out \<or> stored out) v"
  shows "unserialize_outs dec (map (\<lambda>out. \<not> CTxOut_IsNull out) v @ replicate j False) (serialize_outs fv v @ r) =
    Some (v @ replicate j CTxOut_null, r)"
  using assms(2,3)
proof (induction v)
  case Nil
  show ?case by (induction j) (simp_all add: read_bind_def read_return_def)
next
  case (Cons out v)
  have ih: "unserialize_outs dec (map (\<lambda>out. \<not> CTxOut_IsNull out) v @ replicate j False) (serialize_outs fv v @ r) =
      Some (v @ replicate j CTxOut_null, r)" using Cons by (simp add: proper_def)
  show ?case
  proof (cases "CTxOut_IsNull out")
    case True
    then have "out = CTxOut_null" using Cons.prems(1) by (simp add: proper_def)
    then show ?thesis using True ih by (simp add: read_bind_def read_return_def)
  next
    case False
    then show ?thesis using codec.unser_ser [OF txout_codec [OF assms(1)], of out] Cons.prems(2) ih
      by (simp add: read_bind_def read_return_def)
  qed
qed

lemma ReadVarInt_int_back:
  assumes "0 \<le> n" "n < 2 ^ 31"
  shows "ReadVarInt_int (WriteVarInt_int n @ r) = Some (n, r)"
proof -
  have "sint (of_int n :: u32) = n" using assms by (simp add: signed_of_int signed_take_bit_int_eq_self)
  then show ?thesis using assms by (simp add: ReadVarInt_int_def WriteVarInt_int_def read_return_def)
qed

text \<open>
  C6. The coin database reads back what was written: for coins with an unspent output, of which
  amounts are in the range of money and scripts not longer than the limit, the packed format (one header
  code, a bit mask of the available outputs without its trailing zero bytes, compressed amounts, scripts
  in one of seven forms) can be written and is read back as the same coins, for every pattern of spent
  outputs, up to the next byte of the stream. Of the curve library it relies on the recovery
  of valid keys.
\<close>

theorem coins_read_back:
  assumes "recovers fv dec" "good_coins c" "\<not> IsPruned c"
  shows "\<exists>bs. Serialize_coins fv c = Some bs \<and> Unserialize_coins dec (bs @ r) = Some (c, r)"
proof -
  let ?v = "c_vout c" and ?f = "is_available (c_vout c) 0" and ?s = "is_available (c_vout c) 1"
  have c: "?v = [] \<or> \<not> CTxOut_IsNull (last ?v)" "?v \<noteq> []" "proper ?v" "list_all (\<lambda>out. CTxOut_IsNull out \<or> stored out) ?v" "length ?v < 2 ^ 28"
    using assms(2,3) clean_pruned [of c] by (auto simp: good_coins_def clean_def)
  obtain k n where kn: "CalcMaskSize ?v = (k, n)" by (cases "CalcMaskSize ?v")
  note m = CalcMaskSize_spec [OF kn]
  let ?ms = "map (chAvail ?v) [0..<k]" and ?N = "2 + 8 * k"
  have cov: "length ?v \<le> ?N" by (rule mask_covers [OF kn c(1)])
  have ms: "?ms = [] \<or> last ?ms \<noteq> 0" using m(2) by (cases k) auto
  have av: "[?f, ?s] @ concat (map mask_bits ?ms) = map (\<lambda>out. \<not> CTxOut_IsNull out) ?v @ replicate (?N - length ?v) False"
    unfolding all_masks by (rule availabilities [OF cov])
  have n: "?f \<or> ?s \<or> n \<noteq> 0"
  proof (rule ccontr)
    assume a: "\<not> (?f \<or> ?s \<or> n \<noteq> 0)"
    then have "?ms = []" using ms m(1) last_in_set [of ?ms] by (metis (mono_tags, lifting) filter_empty_conv length_0_conv)
    then have "length ?v \<le> 2" using cov by simp
    then have "length ?v - 1 = 0 \<or> length ?v - 1 = 1" by linarith
    moreover have "is_available ?v (length ?v - 1)" using c(1,2) by (simp add: is_available_def last_conv_nth)
    ultimately show False using a by metis
  qed
  have "n < 2 ^ 28" using m(1,4) c(5) length_filter_le [of "\<lambda>ch. ch \<noteq> 0" ?ms] by simp
  note hb = header_bits [OF n this, of "fCoinBase c"]
  have bs: "unserialize_outs dec ([?f, ?s] @ concat (map mask_bits ?ms)) (serialize_outs fv ?v @ r) = Some (?v @ replicate (?N - length ?v) CTxOut_null, r)" for r
    using outs_back [OF assms(1) c(3,4)] unfolding av by blast
  have i: "ReadVarInt_int (WriteVarInt_int (c_nVersion c) @ r) = Some (c_nVersion c, r)"
      "ReadVarInt_int (WriteVarInt_int (c_nHeight c) @ r) = Some (c_nHeight c, r)" for r
    using assms(2) by (simp_all add: good_coins_def ReadVarInt_int_back)
  have rm: "read_mask n (?ms @ r) = Some (concat (map mask_bits ?ms), r)" for r using read_mask_back [OF ms] m(1) by simp
  have "drop_nulls (?v @ replicate (?N - length ?v) CTxOut_null) = ?v" by (rule drop_nulls_replicate [OF c(1)])
  then have "Cleanup \<lparr>fCoinBase = fCoinBase c, c_vout = ?v @ replicate (?N - length ?v) CTxOut_null, c_nHeight = c_nHeight c, c_nVersion = c_nVersion c\<rparr> = c"
    by (simp add: Cleanup_def)
  then have "Unserialize_coins dec ((WriteVarInt_int (c_nVersion c) @ WriteVarInt (header_code n (fCoinBase c) ?f ?s) @ ?ms @ serialize_outs fv ?v @ WriteVarInt_int (c_nHeight c)) @ r) = Some (c, r)"
    unfolding Unserialize_coins_def append_assoc read_bind_def [of ReadVarInt_int] i option.case prod.case varint32.read_bind_ser [OF TrueI] hb
      read_bind_def [of "read_mask n"] rm read_bind_def [of "unserialize_outs dec x" for x] bs read_return_def by (simp only:)
  then show ?thesis using n by (auto simp: Serialize_coins_def kn Let_def)
qed

definition w_key :: CPubKey where "w_key = 4 # replicate 63 7 @ [9]"

definition w_valid :: "CPubKey \<Rightarrow> bool" where "w_valid key \<longleftrightarrow> key = w_key"

definition w_recover :: "bytes \<Rightarrow> CPubKey option" where
  "w_recover k = (if k = 3 # replicate 32 7 then Some w_key else None)"

text \<open>The first, third and fourth outputs are spent; the last one pays to an uncompressed key.\<close>

definition w_stored :: CCoins where
  "w_stored = \<lparr>fCoinBase = True,
     c_vout = [CTxOut_null, \<lparr>nValue = 1234500, scriptPubKey = [0x51]\<rparr>, CTxOut_null, CTxOut_null,
       \<lparr>nValue = 500000000000, scriptPubKey = 65 # w_key @ [OP_CHECKSIG]\<rparr>],
     c_nHeight = 1000, c_nVersion = 4\<rparr>"

lemma w_recovers: "recovers w_valid w_recover"
  by (auto simp: recovers_def w_valid_def w_recover_def w_key_def eval_nat_numeral)

lemma w_storable: "good_coins w_stored" "\<not> IsPruned w_stored"
  by (simp_all add: good_coins_def IsPruned_def w_stored_def clean_def proper_def CTxOut_IsNull_def CTxOut_null_def stored_def MoneyRange_def MAX_MONEY_def
      COIN_def MAX_SCRIPT_SIZE_def w_key_def)

theorem coins_read_back_witness: "Option.bind (Serialize_coins w_valid w_stored) (Unserialize_coins w_recover) = Some (w_stored, [])"
  using coins_read_back [OF w_recovers w_storable, of "[]"] by auto

section \<open>Undo data\<close>

definition Serialize_undo :: "(CPubKey \<Rightarrow> bool) \<Rightarrow> CTxInUndo \<Rightarrow> bytes" where
  "Serialize_undo IsFullyValid u =
     WriteVarInt (u_nHeight u * 2 + (if u_fCoinBase u then 1 else 0)) @
     (if u_nHeight u > 0 then WriteVarInt_int (u_nVersion u) else []) @ Serialize_txout IsFullyValid (u_txout u)"

definition Unserialize_undo :: "(bytes \<Rightarrow> CPubKey option) \<Rightarrow> CTxInUndo reader" where
  "Unserialize_undo PubKey_Decompress =
     read_bind ReadVarInt (\<lambda>nCode :: u32.
       let nHeight = nCode div 2 in
         read_bind (if nHeight > 0 then ReadVarInt_int else read_return 0) (\<lambda>nVersion.
           read_bind (Unserialize_txout PubKey_Decompress) (\<lambda>txout.
             read_return \<lparr>u_txout = txout, u_fCoinBase = nCode AND 1 \<noteq> 0, u_nHeight = nHeight, u_nVersion = nVersion\<rparr>)))"

record CBlockUndo =
  vtxundo :: "CTxInUndo list list"
  old_sprout_tree_root :: uint256

definition Serialize_block_undo :: "(CPubKey \<Rightarrow> bool) \<Rightarrow> CBlockUndo \<Rightarrow> bytes" where
  "Serialize_block_undo IsFullyValid b =
     Serialize_vector (Serialize_vector (Serialize_undo IsFullyValid)) (vtxundo b) @ ser_uint256 (old_sprout_tree_root b)"

definition Unserialize_block_undo :: "(bytes \<Rightarrow> CPubKey option) \<Rightarrow> CBlockUndo reader" where
  "Unserialize_block_undo PubKey_Decompress =
     read_bind (Unserialize_vector (Unserialize_vector (Unserialize_undo PubKey_Decompress) (chunk_of 56)) (chunk_of 24)) (\<lambda>us.
       read_bind unser_uint256 (\<lambda>root. read_return \<lparr>vtxundo = us, old_sprout_tree_root = root\<rparr>))"

text \<open>
  A record of the undo files: the start of messages and the size, then the undo data and a
  checksum over it and the block it belongs to. \<open>Hash\<close> is the double hash of \<open>CHashWriter\<close>; the
  position of the data is returned with the file.
\<close>

definition undo_checksum :: "(bytes \<Rightarrow> uint256) \<Rightarrow> (CPubKey \<Rightarrow> bool) \<Rightarrow> uint256 \<Rightarrow> CBlockUndo \<Rightarrow> uint256" where
  "undo_checksum Hash IsFullyValid hash_block b = Hash (ser_uint256 hash_block @ Serialize_block_undo IsFullyValid b)"

definition UndoWriteToDisk ::
  "(bytes \<Rightarrow> uint256) \<Rightarrow> (CPubKey \<Rightarrow> bool) \<Rightarrow> bytes \<Rightarrow> CBlockUndo \<Rightarrow> uint256 \<Rightarrow> bytes \<Rightarrow> bytes \<times> u32" where
  "UndoWriteToDisk Hash IsFullyValid file blockundo hash_block messageStart =
     (let data = Serialize_block_undo IsFullyValid blockundo; header = file @ messageStart @ ser_writedata32 (of_nat (length data))
      in (header @ data @ ser_uint256 (undo_checksum Hash IsFullyValid hash_block blockundo), of_nat (length header)))"

definition UndoReadFromDisk ::
  "(bytes \<Rightarrow> uint256) \<Rightarrow> (CPubKey \<Rightarrow> bool) \<Rightarrow> (bytes \<Rightarrow> CPubKey option) \<Rightarrow> bytes \<Rightarrow> u32 \<Rightarrow> uint256 \<Rightarrow> CBlockUndo option" where
  "UndoReadFromDisk Hash IsFullyValid PubKey_Decompress file nPos hash_block =
     (case read_bind (Unserialize_block_undo PubKey_Decompress) (\<lambda>b. read_bind unser_uint256 (\<lambda>hashChecksum. read_return (b, hashChecksum)))
             (drop (unat nPos) file) of
        None \<Rightarrow> None
      | Some ((blockundo, hashChecksum), _) \<Rightarrow>
          if hashChecksum \<noteq> undo_checksum Hash IsFullyValid hash_block blockundo then None else Some blockundo)"

lemma height_code:
  fixes h :: u32
  assumes "h < 2 ^ 31"
  shows "(h * 2 + (if cb then 1 else 0)) div 2 = h" "(h * 2 + (if cb then 1 else 0)) AND 1 \<noteq> 0 \<longleftrightarrow> cb"
proof -
  have "unat h < 2 ^ 31" using assms by (simp add: word_less_nat_alt)
  then have u: "unat (h * 2 + (if cb then 1 else 0)) = unat h * 2 + (if cb then 1 else 0)" by (simp add: unat_word_ariths)
  show "(h * 2 + (if cb then 1 else 0)) div 2 = h" by (simp add: word_unat_eq_iff unat_div_distrib u)
  have "odd (unat h * 2 + (if cb then 1 else 0)) \<longleftrightarrow> cb" by simp
  then show "(h * 2 + (if cb then 1 else 0)) AND 1 \<noteq> 0 \<longleftrightarrow> cb" unfolding u [symmetric] by (simp add: and_one_eq mod2_eq_if)
qed

lemma undo_codec: "recovers fv dec \<Longrightarrow> codec (Serialize_undo fv) (Unserialize_undo dec) undo_stored"
proof
  fix u r
  assume a: "recovers fv dec" "undo_stored u"
  have "Unserialize_txout dec (Serialize_txout fv (u_txout u) @ r) = Some (u_txout u, r)"
    using codec.unser_ser [OF txout_codec [OF a(1)]] a(2) by (simp add: undo_stored_def)
  then show "Unserialize_undo dec (Serialize_undo fv u @ r) = Some (u, r)"
    using a(2) height_code [of "u_nHeight u" "u_fCoinBase u"] ReadVarInt_int_back [of "u_nVersion u"]
    by (auto simp: Serialize_undo_def Unserialize_undo_def Let_def undo_stored_def read_bind_def read_return_def varint32.unser_ser word_gt_0)
qed

context vector_codec
begin

lemma vector_read_back:
  "fits_u64 v \<Longrightarrow> \<forall>x \<in> set v. valid x \<Longrightarrow> Unserialize_vector unser chunk (Serialize_vector ser v @ r) = Some (v, r)"
  by (simp add: vec.unser_ser)

end

lemma block_undo_codec:
  assumes "recovers fv dec"
  shows "codec (Serialize_block_undo fv) (Unserialize_block_undo dec) (\<lambda>b. undos_stored (vtxundo b))"
proof -
  have "vector_codec (Serialize_undo fv) (Unserialize_undo dec) undo_stored" using undo_codec [OF assms] by (simp add: vector_codec_def)
  then have "vector_codec (Serialize_vector (Serialize_undo fv)) (Unserialize_vector (Unserialize_undo dec) c)
      (\<lambda>v. fits_u64 v \<and> (\<forall>x \<in> set v. undo_stored x))" for c
    by (intro vector_codec.intro codec.intro) (simp add: vector_codec.vector_read_back)
  note two = vector_codec.vector_read_back [OF this]
  show ?thesis
    by unfold_locales (simp add: Serialize_block_undo_def Unserialize_block_undo_def two undos_stored_def list_all_iff read_bind_def
        read_return_def hash256.unser_ser)
qed

lemma undo_read_back:
  assumes "recovers fv dec" "undos_stored (vtxundo b)" "length file + length start + 4 < 2 ^ 32"
    and "UndoWriteToDisk Hash fv file b hash_block start = (file', nPos)"
  shows "UndoReadFromDisk Hash fv dec (file' @ rest) nPos hash_block' =
    (if undo_checksum Hash fv hash_block b = undo_checksum Hash fv hash_block' b then Some b else None)"
proof -
  let ?header = "file @ start @ ser_writedata32 (of_nat (length (Serialize_block_undo fv b)))"
  have "length ?header < 2 ^ LENGTH(32)" using assms(3) by (simp add: ser_writedata32_def)
  then have l: "unat (of_nat (length ?header) :: u32) = length ?header" unfolding unsigned_of_nat of_nat_id by (rule take_bit_nat_eq_self)
  have "unat nPos = length ?header" "file' = ?header @ Serialize_block_undo fv b @ ser_uint256 (undo_checksum Hash fv hash_block b)"
    using l assms(4) by (auto simp: UndoWriteToDisk_def Let_def simp del: length_append of_nat_add)
  then have "drop (unat nPos) (file' @ rest) = Serialize_block_undo fv b @ ser_uint256 (undo_checksum Hash fv hash_block b) @ rest" by simp
  then show ?thesis using codec.unser_ser [OF block_undo_codec [OF assms(1)], of b] assms(2)
    by (simp add: UndoReadFromDisk_def read_bind_def read_return_def hash256.unser_ser)
qed

text \<open>
  C2. A reorganization through the disk gives back the former state: when a block that passed the
  checks of blocks and transactions is connected on a new cache over any reachable stack, the undo record
  written for it, at any position of an undo file that others append to, is read back with a matching
  checksum, and with it the disconnection, on every stack that stands for the
  resulting outputs and nullifiers (the same caches, or others after flushing), finds the block consistent
  and restores exactly the former unspent outputs, with height, version and coinbase mark, and the
  former spent nullifiers. This holds for chains of transactions within the block, for outputs
  spent in any order and for transactions whose last output is spent.
\<close>

theorem reorganization_restores:
  assumes "coins_run db (c # cs)" "cacheCoins c = []" "good_view (view db (c # cs))" "0 < h" "h < 2 ^ 31" "block_ok GetHash vtx"
    and "connect_coins GetHash sc db h vtx (c # cs) = Inr (cs', undos, nFees)" "recovers fv dec"
    and "UndoWriteToDisk Hash fv file \<lparr>vtxundo = undos, old_sprout_tree_root = root\<rparr> hash_block start = (file', nPos)"
    and "length file + length start + 4 < 2 ^ 32"
  shows "stack_ok db cs' \<and>
    (\<exists>b. UndoReadFromDisk Hash fv dec (file' @ rest) nPos hash_block = Some b \<and> old_sprout_tree_root b = root \<and>
      (\<forall>d ds. stands_for db2 (d # ds) (view db cs') (null_view db cs' SAPLING) \<longrightarrow>
        (\<exists>d' ds'. disconnect_coins GetHash db2 h vtx (vtxundo b) d ds = Some (d', ds', True) \<and>
          stands_for db2 (d' # ds') (view db (c # cs)) (null_view db (c # cs) SAPLING))))"
  using disconnect_undoes_connect [OF assms(1-7), of db2] undo_read_back [OF assms(8) _ assms(10,9)]
  by (simp del: view.simps null_view.simps stack_ok.simps)

definition w_record :: "CTxInUndo list list \<Rightarrow> bytes \<times> u32" where
  "w_record undos = UndoWriteToDisk (\<lambda>d. of_nat (length d)) w_valid [9, 9] \<lparr>vtxundo = undos, old_sprout_tree_root = 3\<rparr> 5 [1, 2, 3, 4]"

theorem reorganization_restores_witness:
  "\<exists>d ds undos b d' ds'. connect_coins w_hash (\<lambda>_ _. True) w_coins_db 107 w_block [CCoinsViewCache_new, CCoinsViewCache_new] = Inr (d # ds, undos, 1) \<and>
     UndoReadFromDisk (\<lambda>d. of_nat (length d)) w_valid w_recover (fst (w_record undos) @ [1]) (snd (w_record undos)) 5 = Some b \<and>
     disconnect_coins w_hash w_coins_db 107 w_block (vtxundo b) d ds = Some (d', ds', True) \<and> view w_coins_db (d' # ds') 1 = Some w_coins"
proof -
  obtain d ds undos where c: "connect_coins w_hash (\<lambda>_ _. True) w_coins_db 107 w_block [CCoinsViewCache_new, CCoinsViewCache_new] = Inr (d # ds, undos, 1)"
    using w_connected by (auto split: sum.splits prod.splits list.split_asm)
  have e: "cacheCoins CCoinsViewCache_new = []" by (simp add: CCoinsViewCache_new_def)
  have h: "0 < (107 :: int)" "(107 :: int) < 2 ^ 31" by simp_all
  have w: "UndoWriteToDisk (\<lambda>d. of_nat (length d)) w_valid [9, 9] \<lparr>vtxundo = undos, old_sprout_tree_root = 3\<rparr> 5 [1, 2, 3, 4] =
      (fst (w_record undos), snd (w_record undos))" "length [9, 9 :: byte] + length [1, 2, 3, 4 :: byte] + 4 < 2 ^ 32" by (simp_all add: w_record_def)
  note u = reorganization_restores [OF w_coins_run e w_good_view h w_block_ok c w_recovers w, where ?db2.0 = w_coins_db and rest = "[1]"]
  have v: "view w_coins_db [CCoinsViewCache_new, CCoinsViewCache_new] 1 = Some w_coins"
    by (simp add: w_coins_db_def CCoinsViewCache_new_def w_coins_facts)
  have "stands_for w_coins_db (d # ds) (view w_coins_db (d # ds)) (null_view w_coins_db (d # ds) SAPLING)"
    using u unfolding stands_for_def by blast
  then obtain b d' ds' where "UndoReadFromDisk (\<lambda>d. of_nat (length d)) w_valid w_recover (fst (w_record undos) @ [1]) (snd (w_record undos)) 5 = Some b"
      "disconnect_coins w_hash w_coins_db 107 w_block (vtxundo b) d ds = Some (d', ds', True)"
      "view w_coins_db (d' # ds') = view w_coins_db [CCoinsViewCache_new, CCoinsViewCache_new]"
    using u unfolding stands_for_def by blast
  then show ?thesis using c v by metis
qed

end
