(* ===== verification/MoneySupply.thy ===== *)
theory MoneySupply
  imports Consensus ConnectCoins
begin

text \<open>
  The reward of a block and the money supply: \<open>IsBlockValid\<close> of \<open>mnode/mnode-validation.cpp\<close>, the part of
  \<open>ConnectBlock\<close> (\<open>main.cpp\<close>) that calls it, and the sum of all unspent outputs. The supply grows with a block by at
  most the subsidy and what its transactions take out of the shielded pool.
\<close>

section \<open>The reward of a block\<close>

text \<open>
  Whether the masternode lists are synchronized and the check of the payees
  (\<open>CMasternodePayments::IsTransactionValid\<close>) are arguments; governance payments are compiled out.
\<close>

definition IsBlockValid :: "bool \<Rightarrow> (CTransaction \<Rightarrow> int \<Rightarrow> bool) \<Rightarrow> CTransaction list \<Rightarrow> int \<Rightarrow> CAmount \<Rightarrow> failure + bool" where
  "IsBlockValid IsSynced IsTransactionValid vtx nBlockHeight blockReward =
     (case GetValueOut (vtx ! 0) of
        None \<Rightarrow> Inl exception_thrown
      | Some nValueOut \<Rightarrow>
          if nValueOut > blockReward then Inr False
          else if \<not> IsSynced then Inr True
          else Inr (IsTransactionValid (vtx ! 0) nBlockHeight))"

definition connect_block ::
  "(CTransaction \<Rightarrow> uint256) \<Rightarrow> script_check \<Rightarrow> bool \<Rightarrow> (CTransaction \<Rightarrow> int \<Rightarrow> bool) \<Rightarrow> Params \<Rightarrow>
   't CCoinsViewDB \<Rightarrow> int \<Rightarrow> CTransaction list \<Rightarrow> 't CCoinsViewCache list \<Rightarrow>
   connect_error + 't CCoinsViewCache list \<times> CTxInUndo list list" where
  "connect_block GetHash ScriptCheck IsSynced IsTransactionValid params db nHeight vtx cs =
     (case connect_coins GetHash ScriptCheck db nHeight vtx cs of
        Inl err \<Rightarrow> Inl err
      | Inr (cs', undos, nFees) \<Rightarrow>
         (case IsBlockValid IsSynced IsTransactionValid vtx nHeight (nFees + GetBlockSubsidy nHeight params) of
            Inl f \<Rightarrow> Inl (failed f)
          | Inr valid \<Rightarrow> if \<not> valid then Inl bad_cb_amount else Inr (cs', undos)))"

section \<open>The supply\<close>

definition out_value :: "CTxOut \<Rightarrow> CAmount" where
  "out_value out = (if CTxOut_IsNull out then 0 else nValue out)"

definition coins_value :: "CCoins option \<Rightarrow> CAmount" where
  "coins_value x = (case x of None \<Rightarrow> 0 | Some c \<Rightarrow> sum_list (map out_value (c_vout c)))"

definition money_supply :: "(uint256 \<Rightarrow> CCoins option) \<Rightarrow> CAmount" where
  "money_supply u = (\<Sum>k\<in>UNIV. coins_value (u k))"

definition value_at :: "nat \<Rightarrow> CCoins option \<Rightarrow> CAmount" where
  "value_at n x = (case x of None \<Rightarrow> 0 | Some c \<Rightarrow> if n < length (c_vout c) then out_value (c_vout c ! n) else 0)"

definition in_value :: "(uint256 \<Rightarrow> CCoins option) \<Rightarrow> CTxIn list \<Rightarrow> CAmount" where
  "in_value u ins = sum_list (map (\<lambda>i. value_at (unat (op_n (prevout i))) (u (op_hash (prevout i)))) ins)"

lemma money_supply_upd: "money_supply (u(k := x)) = money_supply u - coins_value (u k) + coins_value x"
proof -
  have f: "finite (UNIV :: uint256 set)" by simp
  have "money_supply (u(k := x)) = (\<Sum>j\<in>UNIV - {k}. coins_value (u j)) + coins_value x"
    unfolding money_supply_def by (subst sum.remove [OF f, of k]) (simp_all cong: sum.cong_simp)
  moreover have "money_supply u = (\<Sum>j\<in>UNIV - {k}. coins_value (u j)) + coins_value (u k)"
    unfolding money_supply_def by (subst sum.remove [OF f, of k]) simp_all
  ultimately show ?thesis by simp
qed

lemma null_values: "list_all CTxOut_IsNull t \<Longrightarrow> sum_list (map out_value t) = 0"
  by (induction t) (simp_all add: out_value_def)

lemma coins_value_unspent: "coins_value (unspent c) = sum_list (map out_value (c_vout c))"
  by (simp add: coins_value_def unspent_def IsPruned_def null_values)

lemma coins_value_drop_nulls: "sum_list (map out_value (drop_nulls v)) = sum_list (map out_value v)"
proof -
  obtain t where "v = drop_nulls v @ t" "list_all CTxOut_IsNull t" using drop_nulls_prefix by blast
  then show ?thesis using null_values [of t] by (metis add.right_neutral map_append sum_list_append)
qed

lemma value_at_unspent: "value_at n (unspent c) = (if n < length (c_vout c) then out_value (c_vout c ! n) else 0)"
  by (auto simp: value_at_def unspent_def IsPruned_def list_all_length out_value_def)

lemma value_at_drop_nulls:
  "(if n < length (drop_nulls v) then out_value (drop_nulls v ! n) else 0) = (if n < length v then out_value (v ! n) else 0)"
proof -
  obtain t where t: "v = drop_nulls v @ t" "list_all CTxOut_IsNull t" using drop_nulls_prefix by blast
  define d where "d = drop_nulls v"
  have "v = d @ t" using t(1) by (simp add: d_def)
  then show ?thesis unfolding d_def [symmetric] using t(2) by (auto simp: nth_append list_all_length out_value_def)
qed

lemma sum_list_upd_int: "k < length xs \<Longrightarrow> sum_list (xs[k := x]) = sum_list xs + x - (xs ! k :: int)"
  by (induction xs arbitrary: k) (auto split: nat.splits)

text \<open>Spending an output takes away its value and leaves the value of every other one.\<close>

lemma Spend_value:
  assumes "IsAvailable n c"
  shows "coins_value (unspent (fst (Spend n c))) = sum_list (map out_value (c_vout c)) - value_at n (Some c)"
    and "m \<noteq> n \<Longrightarrow> value_at m (unspent (fst (Spend n c))) = value_at m (Some c)"
proof -
  have n: "n < length (c_vout c)" "\<not> CTxOut_IsNull (c_vout c ! n)" using assms by (simp_all add: IsAvailable_def)
  then have s: "c_vout (fst (Spend n c)) = drop_nulls ((c_vout c)[n := CTxOut_null])" by (simp add: Spend_def Cleanup_def)
  have "sum_list (map out_value ((c_vout c)[n := CTxOut_null])) = sum_list (map out_value (c_vout c)) - out_value (c_vout c ! n)"
    using n(1) by (simp add: map_update sum_list_upd_int out_value_def CTxOut_null_def CTxOut_IsNull_def)
  then show "coins_value (unspent (fst (Spend n c))) = sum_list (map out_value (c_vout c)) - value_at n (Some c)"
    using n(1) by (simp add: coins_value_unspent s coins_value_drop_nulls value_at_def)
  show "value_at m (unspent (fst (Spend n c))) = value_at m (Some c)" if "m \<noteq> n"
    unfolding value_at_unspent s value_at_drop_nulls using that by (simp add: value_at_def)
qed

lemma spend_inputs_supply:
  assumes "stack_ok db (c # cs)" "distinct (map prevout ins)" "spend_inputs db ins c cs = Some (c', cs', us)"
  shows "money_supply (view db (c' # cs')) = money_supply (view db (c # cs)) - in_value (view db (c # cs)) ins"
  using assms
proof (induction ins arbitrary: c cs us)
  case Nil
  then show ?case by (simp add: in_value_def)
next
  case (Cons i ins)
  let ?k = "op_hash (prevout i)" and ?n = "unat (op_n (prevout i))" and ?u = "view db (c # cs)"
  obtain e cs1 where e: "ModifyCoins db c cs ?k = (e, cs1)" by (cases "ModifyCoins db c cs ?k")
  let ?c1 = "EndModify ?k (e\<lparr>coins := fst (Spend ?n (coins e))\<rparr>) c" and ?u1 = "?u(?k := unspent (fst (Spend ?n (coins e))))"
  from Cons.prems(3) obtain us' where av: "IsAvailable ?n (coins e)" and us': "spend_inputs db ins ?c1 cs1 = Some (c', cs', us')"
    by (auto simp: e Let_def IsAvailable_def split: if_splits option.splits)
  note m = ModifyCoins_ok(3,4) [OF Cons.prems(1) e]
  have x: "?u ?k = Some (coins e)"
    using m(1) av by (auto simp: unspent_def IsPruned_def IsAvailable_def list_all_length simp del: view.simps split: if_splits)
  note v = modify_view(1,2) [where x = "fst (Spend ?n (coins e))", OF Cons.prems(1) e, unfolded Spend_clean [OF m(2)]]
  have "value_at (unat (op_n (prevout j))) (?u1 (op_hash (prevout j))) = value_at (unat (op_n (prevout j))) (?u (op_hash (prevout j)))"
    if j: "j \<in> set ins" for j
  proof (cases "op_hash (prevout j) = ?k")
    case True
    have "prevout j \<noteq> prevout i" using Cons.prems(2) imageI [OF j, of prevout] by (metis distinct.simps(2) list.simps(9) set_map)
    then have "unat (op_n (prevout j)) \<noteq> ?n" using True by (auto intro: COutPoint.equality simp: word_unat_eq_iff [symmetric])
    then show ?thesis using True x Spend_value(2) [OF av] by simp
  qed simp
  then have "in_value ?u1 ins = in_value ?u ins" by (simp add: in_value_def cong: map_cong del: view.simps)
  moreover have "money_supply ?u1 = money_supply ?u - value_at ?n (?u ?k)"
    unfolding money_supply_upd Spend_value(1) [OF av] x by (simp add: coins_value_def)
  moreover have "money_supply (view db (c' # cs')) = money_supply ?u1 - in_value ?u1 ins"
    using Cons.IH [OF v(1) _ us', unfolded v(2)] Cons.prems(2) by (simp del: view.simps fun_upd_apply)
  ultimately show ?case by (simp add: in_value_def del: view.simps)
qed

text \<open>What the checks of a transaction compute from the view.\<close>

lemma value_at_available: "IsAvailable n x \<Longrightarrow> value_at n (Some x) = nValue (c_vout x ! n)"
  by (simp add: value_at_def IsAvailable_def out_value_def)

lemma sum_inputs_value:
  "stack_ok db cs \<Longrightarrow> list_all (\<lambda>i. available (view db cs) (prevout i)) ins \<Longrightarrow> sum_inputs db ins m cs = (Some n, cs') \<Longrightarrow>
   n = m + in_value (view db cs) ins"
proof (induction ins arbitrary: cs m)
  case (Cons i ins)
  obtain x ds where x: "GetCoins db cs (op_hash (prevout i)) = (Some x, ds)" "reads db cs ds" "view db cs (op_hash (prevout i)) = Some x"
      "IsAvailable (unat (op_n (prevout i))) x"
    using GetCoins_available [OF Cons.prems(1), of "prevout i"] Cons.prems(2) by auto
  then have "stack_ok db ds" "view db ds = view db cs" by (simp_all add: reads_def)
  then show ?case using Cons.IH [of ds "m + nValue (c_vout x ! unat (op_n (prevout i)))"] Cons.prems(2,3) x(1,3,4) value_at_available [OF x(4)]
    by (simp add: GetOutputFor_def Let_def in_value_def)
qed (simp add: in_value_def)

lemma check_inputs_value:
  "stack_ok db cs \<Longrightarrow> list_all (\<lambda>i. available (view db cs) (prevout i)) ins \<Longrightarrow> check_inputs db h ins m cs = Inr (n, cs') \<Longrightarrow>
   n = m + in_value (view db cs) ins"
proof (induction ins arbitrary: cs m)
  case (Cons i ins)
  obtain x ds where x: "GetCoins db cs (op_hash (prevout i)) = (Some x, ds)" "reads db cs ds" "view db cs (op_hash (prevout i)) = Some x"
      "IsAvailable (unat (op_n (prevout i))) x"
    using GetCoins_available [OF Cons.prems(1), of "prevout i"] Cons.prems(2) by auto
  then have "stack_ok db ds" "view db ds = view db cs" by (simp_all add: reads_def)
  then show ?case using Cons.IH [of ds "m + nValue (c_vout x ! unat (op_n (prevout i)))"] Cons.prems(2,3) x(1,3,4) value_at_available [OF x(4)]
    by (simp add: Let_def in_value_def split: if_splits)
qed (simp add: in_value_def)

lemma CheckTxInputs_fee:
  assumes "stack_ok db cs" "\<not> IsCoinBase tx" "CheckTxInputs db tx h cs = Inr cs'"
  shows "\<exists>vin' vout'. GetShieldedValueIn tx = Some vin' \<and> GetValueOut tx = Some vout' \<and> vout' \<le> in_value (view db cs) (vin tx) + vin'"
proof -
  obtain cs1 cs2 n cs3 where h: "HaveInputs db tx cs = (True, cs1)" "HaveShieldedRequirements db tx cs1 = (True, cs2)"
      "check_inputs db h (vin tx) 0 cs2 = Inr (n, cs3)"
      "\<exists>vin' vout'. GetShieldedValueIn tx = Some vin' \<and> GetValueOut tx = Some vout' \<and> vout' \<le> n + vin'"
    using assms(3) by (auto simp: CheckTxInputs_def Let_def not_less split: prod.splits if_splits sum.splits option.splits)
  note a = have_all_reads [OF assms(1,2) h(1,2)]
  then have "n = in_value (view db cs) (vin tx)" using check_inputs_value [OF _ _ h(3)] by (simp add: reads_def)
  then show ?thesis using h(4) by simp
qed

lemma check_tx_fee:
  assumes "stack_ok db cs" "check_tx sc db h tx n cs = Inr (cs', n', fee)"
  shows "IsCoinBase tx \<Longrightarrow> fee = 0"
    and "\<not> IsCoinBase tx \<Longrightarrow> \<exists>vin' vout'. GetShieldedValueIn tx = Some vin' \<and> GetValueOut tx = Some vout' \<and>
      fee = in_value (view db cs) (vin tx) + vin' - vout' \<and> 0 \<le> fee"
proof -
  show "IsCoinBase tx \<Longrightarrow> fee = 0" using assms(2) by (auto simp: check_tx_def Let_def split: if_splits)
  assume c: "\<not> IsCoinBase tx"
  obtain cs1 cs2 k cs3 v cs4 vout' where h: "HaveInputs db tx cs = (True, cs1)" "HaveShieldedRequirements db tx cs1 = (True, cs2)"
      "GetP2SHSigOpCount db tx cs2 = (Some k, cs3)" "GetValueIn db tx cs3 = (Inr v, cs4)" "GetValueOut tx = Some vout'"
      "CheckTxInputs db tx h cs4 = Inr cs'" "fee = v - vout'"
    using assms(2) c by (auto simp: check_tx_def Let_def split: prod.splits if_splits sum.splits option.splits)
  note a = have_all_reads [OF assms(1) c h(1,2)]
  have r2: "stack_ok db cs2" "view db cs2 = view db cs" using a(1) by (simp_all add: reads_def)
  obtain cs3' where "GetP2SHSigOpCount db tx cs2 = (Some k, cs3')" "reads db cs2 cs3'" using check_spends_reads(1) [OF r2(1) c] a(2) r2(2) h(3) by auto
  then have r3: "stack_ok db cs3" "view db cs3 = view db cs" using h(3) r2(2) by (simp_all add: reads_def)
  obtain cs4' where "GetValueIn db tx cs3 = (Inr v, cs4')" "reads db cs3 cs4'" using check_spends_reads(2) [OF r3(1) c] a(2) r3(2) h(4) by auto
  then have r4: "stack_ok db cs4" "view db cs4 = view db cs" using h(4) r3(2) by (simp_all add: reads_def)
  obtain s cs5 vin' where "sum_inputs db (vin tx) 0 cs3 = (Some s, cs5)" "GetShieldedValueIn tx = Some vin'" "v = s + vin'"
    using h(4) c by (auto simp: GetValueIn_def split: prod.splits option.splits)
  moreover from this have "s = in_value (view db cs) (vin tx)" using sum_inputs_value [OF r3(1)] a(2) r3(2) by fastforce
  ultimately show "\<exists>vin' vout'. GetShieldedValueIn tx = Some vin' \<and> GetValueOut tx = Some vout' \<and>
      fee = in_value (view db cs) (vin tx) + vin' - vout' \<and> 0 \<le> fee"
    using CheckTxInputs_fee [OF r4(1) c h(6)] h(5,7) r4(2) by auto
qed

section \<open>Connecting\<close>

definition vout_sum :: "CTransaction \<Rightarrow> CAmount" where
  "vout_sum tx = sum_list (map nValue (vout tx))"

lemma GetValueOut_vout_sum:
  assumes "GetValueOut tx = Some v"
  shows "v = vout_sum tx + (if valueBalance tx \<le> 0 then - valueBalance tx else 0)"
proof -
  have "MoneyRange 0" by (simp add: MoneyRange_def MAX_MONEY_def COIN_def)
  then have "sum_outputs 0 (vout tx) = Some x \<Longrightarrow> x = vout_sum tx" for x
    by (auto simp: sum_outputs_eq vout_sum_def split: if_splits)
  then show ?thesis using assms by (auto simp: GetValueOut_def Let_def split: option.splits if_splits)
qed

lemma transparent_balance:
  "GetShieldedValueIn tx = Some vin' \<Longrightarrow> GetValueOut tx = Some vout' \<Longrightarrow> vin' - vout' = valueBalance tx - vout_sum tx"
  by (auto simp: GetShieldedValueIn_def dest!: GetValueOut_vout_sum split: if_splits)

lemma FromTx_value: "list_all (\<lambda>out. MoneyRange (nValue out)) (vout tx) \<Longrightarrow> coins_value (unspent (FromTx tx h)) \<le> vout_sum tx"
proof -
  assume a: "list_all (\<lambda>out. MoneyRange (nValue out)) (vout tx)"
  have "coins_value (unspent (FromTx tx h)) = sum_list (map out_value (map (\<lambda>out. if IsUnspendable (scriptPubKey out) then CTxOut_null else out) (vout tx)))"
    by (simp add: coins_value_unspent FromTx_def ClearUnspendable_def Cleanup_def coins_value_drop_nulls)
  also have "\<dots> \<le> vout_sum tx" unfolding vout_sum_def map_map using a
    by (intro sum_list_mono) (auto simp: out_value_def CTxOut_null_def CTxOut_IsNull_def MoneyRange_def list_all_iff)
  finally show ?thesis .
qed

lemma UpdateCoins_supply:
  assumes "stands_for db (c # cs) u nfs" "good_view u" "UpdateCoins GetHash db tx h c cs = Some (c', cs', us)"
    and "u (GetHash tx) = None" "view db cs (GetHash tx) = None" "tx_ok tx" "distinct (map prevout (vin tx))"
  shows "money_supply (view db (c' # cs')) \<le> money_supply u - (if IsCoinBase tx then 0 else in_value u (vin tx)) + vout_sum tx"
proof -
  obtain c1 where c1: "(if IsCoinBase tx then Some (c, cs, []) else spend_inputs db (vin tx) c cs) = Some (c1, cs', us)"
      "c' = EndModify (GetHash tx) (ModifyNewCoins\<lparr>coins := FromTx tx h\<rparr>) (SetNullifiers tx True c1)"
    using assms(3) by (auto simp: UpdateCoins_def split: option.splits)
  have s: "stack_ok db (c # cs)" "view db (c # cs) = u" using assms(1) by (simp_all add: stands_for_def)
  have "\<exists>u1. stands_for db (c1 # cs') u1 nfs \<and> (u (GetHash tx) = None \<longrightarrow> u1 (GetHash tx) = None) \<and> view db cs' = view db cs \<and>
      money_supply u1 = money_supply u - (if IsCoinBase tx then 0 else in_value u (vin tx))"
  proof (cases "IsCoinBase tx")
    case False
    then have p: "spend_inputs db (vin tx) c cs = Some (c1, cs', us)" using c1(1) by simp
    then show ?thesis using spend_inputs_undoes [OF assms(1,2) p] spend_inputs_supply [OF s(1) assms(7) p] False s(2)
      unfolding stands_for_def by auto
  qed (use c1(1) assms(1) in auto)
  then obtain u1 where u1: "stands_for db (c1 # cs') u1 nfs" "u1 (GetHash tx) = None" "view db cs' = view db cs"
      "money_supply u1 = money_supply u - (if IsCoinBase tx then 0 else in_value u (vin tx))" using assms(4) by blast
  let ?c2 = "SetNullifiers tx True c1"
  have ok: "stack_ok db (?c2 # cs')" "view db (?c2 # cs') = u1" "view db cs' (GetHash tx) = None"
    using SetNullifiers_stands_for [OF u1(1), of tx True] assms(5) u1(3) by (simp_all add: stands_for_def)
  have "Cleanup (FromTx tx h) = FromTx tx h" by (simp add: FromTx_def)
  then have "view db (c' # cs') = u1(GetHash tx := unspent (FromTx tx h))"
    using modify_new_view [OF ok(1,3), of "FromTx tx h"] ok(2) by (simp add: c1(2))
  then show ?thesis using FromTx_value [of tx h] assms(6) u1(2,4) by (simp add: money_supply_upd tx_ok_def coins_value_def [of None] del: view.simps)
qed

text \<open>
  A transaction other than the coinbase takes its fee out of the supply; what it moves into or out of the
  shielded pool counts with its balance.
\<close>

lemma connect_tx_supply:
  assumes "stands_for db cs u nfs" "good_view u" "new_tx GetHash (view db (tl cs)) u tx" "connect_tx GetHash sc db h tx n cs = Inr (cs', us, n', fee)"
  shows "money_supply (view db cs') \<le> money_supply u - fee + (if IsCoinBase tx then vout_sum tx else valueBalance tx)" "0 \<le> fee"
    "IsCoinBase tx \<Longrightarrow> fee = 0"
proof -
  obtain c ds c' ds' where c: "check_tx sc db h tx n cs = Inr (c # ds, n', fee)" "UpdateCoins GetHash db tx h c ds = Some (c', ds', us)" "cs' = c' # ds'"
    using assms(4) by (auto simp: connect_tx_def split: sum.splits list.splits option.splits)
  have s: "stack_ok db cs" "view db cs = u" using assms(1) by (simp_all add: stands_for_def)
  note r = check_tx_reads(2) [OF s(1) c(1)] and f = check_tx_fee [OF s(1) c(1), unfolded s(2)]
  have st: "stands_for db (c # ds) u nfs" "view db ds = view db (tl cs)"
    using r assms(1) by (simp_all add: stands_for_def reads_def del: view.simps null_view.simps stack_ok.simps)
  have t: "u (GetHash tx) = None" "view db ds (GetHash tx) = None" "tx_ok tx" "distinct (map prevout (vin tx))"
    using assms(3) st(2) by (simp_all add: new_tx_def)
  note p = UpdateCoins_supply [OF st(1) assms(2) c(2) t]
  show "money_supply (view db cs') \<le> money_supply u - fee + (if IsCoinBase tx then vout_sum tx else valueBalance tx)"
  proof (cases "IsCoinBase tx")
    case True
    then show ?thesis using p f(1) by (simp add: c(3) del: view.simps)
  next
    case False
    then obtain vin' vout' where v: "GetShieldedValueIn tx = Some vin'" "GetValueOut tx = Some vout'" "fee = in_value u (vin tx) + vin' - vout'"
      using f(2) by blast
    then show ?thesis using p transparent_balance [OF v(1,2)] False by (simp add: c(3) del: view.simps)
  qed
  show "0 \<le> fee" "IsCoinBase tx \<Longrightarrow> fee = 0" using f by (cases "IsCoinBase tx"; fastforce)+
qed

lemma connect_txs_supply:
  assumes "stands_for db cs u nfs" "good_view u" "list_all (new_tx GetHash (view db (tl cs)) u) txs" "distinct (map GetHash txs)" "cs \<noteq> []"
    and "0 < h" "h < 2 ^ 31" "list_all (\<lambda>tx. \<not> IsCoinBase tx) txs" "connect_txs GetHash sc db h txs n f cs = Inr (cs', uss, f')"
  shows "money_supply (view db cs') \<le> money_supply u - (f' - f) + sum_list (map valueBalance txs)" "f \<le> f'" "good_view (view db cs')"
proof -
  have "money_supply (view db cs') \<le> money_supply u - (f' - f) + sum_list (map valueBalance txs) \<and> f \<le> f' \<and> good_view (view db cs')"
    using assms(1-5,8,9)
  proof (induction txs arbitrary: cs u nfs n f uss)
    case Nil
    then show ?case by (simp add: stands_for_def)
  next
    case (Cons tx txs)
    have t: "new_tx GetHash (view db (tl cs)) u tx" "list_all (new_tx GetHash (view db (tl cs)) u) txs" "\<not> IsCoinBase tx"
        "GetHash tx \<notin> set (map GetHash txs)" "distinct (map GetHash txs)" "list_all (\<lambda>tx. \<not> IsCoinBase tx) txs" using Cons.prems(3,4,6) by simp_all
    obtain cs1 us n1 fee uss' where p: "connect_tx GetHash sc db h tx n cs = Inr (cs1, us, n1, fee)"
        "connect_txs GetHash sc db h txs n1 (f + fee) cs1 = Inr (cs', uss', f')"
      using Cons.prems(7) by (auto split: sum.splits)
    obtain u1 where u1: "stands_for db cs1 (u1(GetHash tx := unspent (FromTx tx h))) (null_update tx True nfs)"
        "good_view (u1(GetHash tx := unspent (FromTx tx h)))" "\<forall>k. u k = None \<longrightarrow> u1 k = None" "cs1 \<noteq> []" "view db (tl cs1) = view db (tl cs)"
      using connect_tx_undoes(2) [OF Cons.prems(1,2) t(1) assms(6,7) Cons.prems(5) p(1)] by blast
    have "list_all (new_tx GetHash (view db (tl cs1)) (u1(GetHash tx := unspent (FromTx tx h)))) txs"
      unfolding u1(5) by (rule new_tx_step [OF t(2) u1(3) t(4)])
    note ih = Cons.IH [OF u1(1,2) this t(5) u1(4) t(6) p(2)]
    have "view db cs1 = u1(GetHash tx := unspent (FromTx tx h))" using u1(1) by (simp add: stands_for_def)
    then show ?case using ih connect_tx_supply(1,2) [OF Cons.prems(1,2) t(1) p(1)] t(3) by (simp del: fun_upd_apply)
  qed
  then show "money_supply (view db cs') \<le> money_supply u - (f' - f) + sum_list (map valueBalance txs)" "f \<le> f'" "good_view (view db cs')" by blast+
qed

lemma connect_block_supply:
  assumes "coins_run db (c # cs)" "cacheCoins c = []" "good_view (view db (c # cs))" "0 < h" "h < 2 ^ 31" "block_ok GetHash vtx"
    and "connect_block GetHash sc synced payees params db h vtx (c # cs) = Inr (cs', undos)"
  shows "money_supply (view db cs') \<le> money_supply (view db (c # cs)) + GetBlockSubsidy h params + sum_list (map valueBalance vtx)"
    and "good_view (view db cs')"
proof -
  let ?u = "view db (c # cs)" and ?nfs = "null_view db (c # cs) SAPLING"
  have dis: "distinct (map GetHash vtx)"
    using connect_repeated [OF assms(1-6), of sc] assms(7) by (auto simp: connect_block_def split: sum.splits)
  obtain tx txs where vtx: "vtx = tx # txs" using assms(6) by (cases vtx) (auto simp: block_ok_def)
  have b: "IsCoinBase tx" "list_all (\<lambda>tx. \<not> IsCoinBase tx) txs" "GetHash tx \<notin> set (map GetHash txs)" "distinct (map GetHash txs)"
    using assms(6) dis by (simp_all add: block_ok_def vtx)
  obtain cs0 cs1 us n fee f v where c1: "overwrites GetHash db vtx (c # cs) = (False, cs0)" "connect_tx GetHash sc db h tx 0 cs0 = Inr (cs1, us, n, fee)"
      "connect_txs GetHash sc db h txs n fee cs1 = Inr (cs', undos, f)" "GetValueOut tx = Some v" "v \<le> f + GetBlockSubsidy h params"
    using assms(7) by (auto simp: connect_block_def connect_coins_def IsBlockValid_def vtx split: prod.splits if_splits sum.splits option.splits)
  note st = connect_start [OF assms(1,2,6) c1(1)]
  have t: "new_tx GetHash (view db (tl cs0)) ?u tx" "list_all (new_tx GetHash (view db (tl cs0)) ?u) txs" using st(2) unfolding vtx list.pred_inject by blast+
  obtain u1 where u1: "stands_for db cs1 (u1(GetHash tx := unspent (FromTx tx h))) (null_update tx True ?nfs)"
      "good_view (u1(GetHash tx := unspent (FromTx tx h)))" "\<forall>k. ?u k = None \<longrightarrow> u1 k = None" "cs1 \<noteq> []" "view db (tl cs1) = view db (tl cs0)"
    using connect_tx_undoes(2) [OF st(1) assms(3) t(1) assms(4,5) st(3) c1(2)] by blast
  have "list_all (new_tx GetHash (view db (tl cs1)) (u1(GetHash tx := unspent (FromTx tx h)))) txs" unfolding u1(5) by (rule new_tx_step [OF t(2) u1(3) b(3)])
  note txs = connect_txs_supply [OF u1(1,2) this b(4) u1(4) assms(4,5) b(2) c1(3)]
  have "view db cs1 = u1(GetHash tx := unspent (FromTx tx h))" using u1(1) by (simp add: stands_for_def)
  then have "money_supply (view db cs') \<le> money_supply ?u - f + sum_list (map valueBalance txs) + vout_sum tx"
    using txs(1) connect_tx_supply(1,3) [OF st(1) assms(3) t(1) c1(2)] b(1) by (simp del: fun_upd_apply view.simps)
  then show "money_supply (view db cs') \<le> money_supply ?u + GetBlockSubsidy h params + sum_list (map valueBalance vtx)"
    using GetValueOut_vout_sum [OF c1(4)] c1(5) by (simp add: vtx del: view.simps split: if_splits)
  show "good_view (view db cs')" by (rule txs(3))
qed

section \<open>The chain\<close>

text \<open>
  A chain as it grows from the genesis block, whose transactions are not connected: its height, the
  stack of caches and the sum of what its transactions have taken out of the shielded pool. The next
  block is connected on a new cache of any reachable stack that stands for the same outputs, such as the one
  after flushing or after disconnecting a block of another branch.
\<close>

inductive chain_grown ::
  "(CTransaction \<Rightarrow> uint256) \<Rightarrow> Params \<Rightarrow> nat \<Rightarrow> 't CCoinsViewDB \<Rightarrow> 't CCoinsViewCache list \<Rightarrow> CAmount \<Rightarrow> bool" for GetHash params where
  genesis: "view db cs = (\<lambda>_. None) \<Longrightarrow> chain_grown GetHash params 0 db cs 0"
| block: "chain_grown GetHash params h db cs s \<Longrightarrow> coins_run db2 (c # cs2) \<Longrightarrow> cacheCoins c = [] \<Longrightarrow>
    view db2 (c # cs2) = view db cs \<Longrightarrow> block_ok GetHash vtx \<Longrightarrow> int h + 1 < 2 ^ 31 \<Longrightarrow>
    connect_block GetHash sc synced payees params db2 (int h + 1) vtx (c # cs2) = Inr (cs', undos) \<Longrightarrow>
    chain_grown GetHash params (Suc h) db2 cs' (s + sum_list (map valueBalance vtx))"

lemma chain_grown_supply:
  "chain_grown GetHash params h db cs s \<Longrightarrow>
   money_supply (view db cs) \<le> (\<Sum>i = 1..h. GetBlockSubsidy (int i) params) + s \<and> good_view (view db cs) \<and> h < 2 ^ 31"
proof (induction rule: chain_grown.induct)
  case (genesis db cs)
  then show ?case by (simp add: money_supply_def coins_value_def good_view_def)
next
  case (block h db cs s db2 c cs2 vtx sc synced payees cs' undos)
  have g: "good_view (view db2 (c # cs2))" "money_supply (view db2 (c # cs2)) \<le> (\<Sum>i = 1..h. GetBlockSubsidy (int i) params) + s"
    using block.IH unfolding block.hyps(4) by blast+
  note b = connect_block_supply [OF block.hyps(2,3) g(1) _ block.hyps(6,5,7)]
  have "(\<Sum>i = 1..Suc h. GetBlockSubsidy (int i) params) = (\<Sum>i = 1..h. GetBlockSubsidy (int i) params) + GetBlockSubsidy (int h + 1) params"
    by (simp add: add.commute)
  then show ?case using b g(2) block.hyps(6) by (simp del: view.simps sum.cl_ivl_Suc)
qed

text \<open>
  C1. No inflation: in every chain that grows from the genesis block by connecting blocks, the sum of
  all unspent transparent outputs is at most the sum of the block subsidies up to its height, plus what its
  transactions have taken out of the shielded pool less what they have put into it. On the main network it
  never exceeds 21,255,942,057.6 coins apart from that balance, whatever the transactions, fees, reorganizations
  and flushes have been.
\<close>

theorem money_supply_bounded:
  assumes "chain_grown GetHash params h db cs s"
  shows "money_supply (view db cs) \<le> (\<Sum>i = 1..h. GetBlockSubsidy (int i) params) + s \<and>
    (params = MainParams \<longrightarrow> money_supply (view db cs) \<le> 2125594205760000 + s)"
  using chain_grown_supply [OF assms] main_subsidies_bound [of h] by auto

definition w_empty_db :: "unit CCoinsViewDB" where
  "w_empty_db = w_coins_db\<lparr>db_coins := (\<lambda>_. None)\<rparr>"

lemma w_empty_run: "coins_run w_empty_db [CCoinsViewCache_new]"
  by (intro coins_run.layer coins_run.start) (simp add: w_empty_db_def)

lemma w_reward_ok: "block_ok w_hash [w_tx 10 [w_in 0 UINT32_MAX] [7]]"
  by (simp add: block_ok_def tx_ok_def fits_u64_def MoneyRange_def MAX_MONEY_def COIN_def SPROUT_MIN_CURRENT_VERSION_def w_tx_def w_in_def w_hash_def
      CMutableTransaction_default_def CTxIn_make_def IsCoinBase_def OutPoint_IsNull_def CTxOut_IsNull_def)

lemma w_rewarded:
  "case connect_block w_hash (\<lambda>_ _. True) False (\<lambda>_ _. True) MainParams w_empty_db 1 [w_tx 10 [w_in 0 UINT32_MAX] [7]] [CCoinsViewCache_new] of
     Inr (cs, _) \<Rightarrow> coins_value (view w_empty_db cs 10) = 7 | _ \<Rightarrow> False"
  by code_simp

theorem money_supply_bounded_witness:
  "\<exists>cs. chain_grown w_hash MainParams 1 w_empty_db cs 0 \<and> coins_value (view w_empty_db cs 10) = 7 \<and>
     money_supply (view w_empty_db cs) \<le> 2125594205760000"
proof -
  have v: "view w_empty_db [CCoinsViewCache_new] = (\<lambda>_. None)" by (simp add: w_empty_db_def CCoinsViewCache_new_def fun_eq_iff)
  obtain cs undos where c: "connect_block w_hash (\<lambda>_ _. True) False (\<lambda>_ _. True) MainParams w_empty_db (int 0 + 1) [w_tx 10 [w_in 0 UINT32_MAX] [7]]
      [CCoinsViewCache_new] = Inr (cs, undos)" "coins_value (view w_empty_db cs 10) = 7"
    using w_rewarded by (auto split: sum.splits)
  have e: "cacheCoins CCoinsViewCache_new = []" "int 0 + 1 < 2 ^ 31" by (simp_all add: CCoinsViewCache_new_def)
  have g: "chain_grown w_hash MainParams (Suc 0) w_empty_db cs (0 + sum_list (map valueBalance [w_tx 10 [w_in 0 UINT32_MAX] [7]]))"
    by (rule chain_grown.block [OF chain_grown.genesis [OF v] w_empty_run e(1) refl w_reward_ok e(2) c(1)])
  moreover have "sum_list (map valueBalance [w_tx 10 [w_in 0 UINT32_MAX] [7]]) = 0" by (simp add: w_tx_def CMutableTransaction_default_def)
  ultimately show ?thesis using money_supply_bounded [OF g] c(2) by (intro exI [of _ cs]) simp
qed

end
