(* ===== verification/Spec2Isabelle.thy ===== *)
theory Spec2Isabelle
  imports Amount Consensus Serialize Script Standard Transaction P2FMS P2FMSBuilder
    DataStream TicketTypes TicketSend TicketTracker TicketFees Chain TicketDB TicketProcessor TicketMempool MnodeSync Coins ConnectCoins CoinsFormat MoneySupply
begin

text \<open>
  Verification development for the Pastel node. File names below are relative to \<open>src/src/\<close>.

  \<^bold>\<open>The program.\<close> The node keeps a chain of blocks and the set of unspent transaction outputs, and it
  carries tickets (registrations, offers, transfers and other statements about digital art) inside
  transactions, in the keys of fake multisignature outputs. A ticket is serialized into a data stream,
  cut into keys, paid for by coins of the wallet, signed and sent; every node finds it again in a
  block, checks its rules and fees, and stores it in a database with several keys. Masternodes
  synchronize lists of each other in stages before they serve tickets.

  \<^bold>\<open>Foundations.\<close>
  \<^item> \<open>Prelude\<close>: machine types, characters and digits, the contract \<open>key_value\<close> of a key-value store, which the
    association lists of the model provide, generic facts.
  \<^item> \<open>Floating\<close>: \<open>float\<close> and \<open>double\<close> as rationals with the rounding of IEEE 754, for the royalty and fee
    computations.
  \<^item> \<open>Serialize\<close>: \<open>utils/serialize.h\<close>, \<open>crypto/common.h\<close>. The contract of a serializable type is the locale
    \<open>codec\<close> (what is written is read back, and the rest of the stream is left), that of the elements of a
    vector is \<open>vector_codec\<close>; both are interpreted on every writer and reader of the model. The exact domain of \<open>ReadCompactSize\<close>
    and the inversion of \<open>WriteVarInt\<close> are proved.
  \<^item> \<open>DataStream\<close>: \<open>CDataStream\<close> (\<open>utils/streams.h\<close>), a vector with a read position, which satisfies the contract
    \<open>byte_source\<close> like the list of bytes of \<open>Serialize\<close>, and \<open>CCompressedDataStream\<close> (\<open>utils/datacompressor.cpp\<close>).

  \<^bold>\<open>Money and consensus.\<close>
  \<^item> \<open>Amount\<close>: \<open>amount.h\<close>, \<open>amount.cpp\<close>, \<open>utilmoneystr.cpp\<close>. Printing and parsing of amounts are inverse exactly below ten
    billion coins; fees of a rate do not wrap up to the size of a block.
  \<^item> \<open>Consensus\<close>: \<open>consensus/params.h\<close>, \<open>consensus/upgrades.cpp\<close>, the tables of \<open>chainparams.cpp\<close>,
    \<open>GetBlockSubsidy\<close> of \<open>main.cpp\<close>. Epochs and activation heights fit together; the total supply is computed.

  \<^bold>\<open>Scripts and transactions.\<close>
  \<^item> \<open>Script\<close>: \<open>script/script.h\<close>, \<open>script/script.cpp\<close>. Numbers have one minimal encoding; pushed integers are read back.
  \<^item> \<open>Standard\<close>: \<open>script/standard.cpp\<close>, the bytes of \<open>pubkey.h\<close>. Destinations and multisignature scripts are
    recognized as what they were built from.
  \<^item> \<open>Transaction\<close>: \<open>primitives/transaction.h\<close>, \<open>primitives/transaction.cpp\<close>. The three wire formats are read back; \<open>GetValueOut\<close> is the exact sum or
    throws.

  \<^bold>\<open>Blocks and outputs.\<close>
  \<^item> \<open>Chain\<close>: \<open>chain.h\<close>, \<open>chain.cpp\<close>. The store of block index entries, the skip list, the active chain. Skipping
    finds the same ancestors as walking; forks and common ancestors are the highest ones; setting the tip
    leaves exactly the ancestors of the new tip.
  \<^item> \<open>Coins\<close>: \<open>coins.h\<close>, \<open>coins.cpp\<close>, \<open>CCoinsViewDB\<close> of \<open>txdb/txdb.cpp\<close>. A stack of caches over the database; \<open>view\<close> is the map it stands
    for, \<open>stack_ok\<close> its invariant, \<open>coins_run\<close> the reachable stacks. Reading leaves the map, modifying changes one entry, flushing leaves it,
    and the flags \<open>DIRTY\<close> and \<open>FRESH\<close> never lose an output.
  \<^item> \<open>ConnectCoins\<close>: the loop of \<open>ConnectBlock\<close> with \<open>CheckTxInputs\<close>, \<open>GetP2SHSigOpCount\<close> and \<open>UpdateCoins\<close>, and \<open>DisconnectBlock\<close> with
    \<open>ApplyTxInUndo\<close> (\<open>main.cpp\<close>, \<open>undo.h\<close>). No assertion about spent outputs fails, a
    block with the same transaction twice is rejected, and disconnecting undoes connecting.
  \<^item> \<open>CoinsFormat\<close>: \<open>compressor.cpp\<close>, the formats of \<open>CCoins\<close> and of the undo data, the undo files of \<open>main.cpp\<close>. Both are
    read back, so that a reorganization through the disk restores the former outputs.
  \<^item> \<open>MoneySupply\<close>: the check of the reward in \<open>ConnectBlock\<close> and \<open>IsBlockValid\<close> of \<open>mnode/mnode-validation.cpp\<close>. The sum of all
    unspent outputs of a growing chain is bounded by the subsidies and the balance of the shielded pool.

  \<^bold>\<open>Tickets.\<close> All under \<open>mnode/\<close>.
  \<^item> \<open>TicketTypes\<close>: \<open>tickets/ticket-types.h\<close>, the validation result of \<open>tickets/ticket.h\<close>, \<open>preParseTicket\<close>.
  \<^item> \<open>P2FMS\<close>, \<open>P2FMSBuilder\<close>: \<open>p2fms-txbuilder.cpp\<close> and \<open>ParseP2FMSTransaction\<close>. What is encoded is parsed; a built
    transaction pays exactly its price and spends only usable coins.
  \<^item> \<open>TicketSend\<close>: \<open>SendTicket\<close>, \<open>build\<close>, \<open>StoreP2FMSTransaction\<close>. What is sent is pre-parsed to the same ticket.
  \<^item> \<open>TicketFees\<close>: prices, masternode fees, royalties, extra outputs and \<open>ValidateTicketFees\<close>. Fee validation accepts
    exactly the right outputs, and accepts what the builder makes, except for take-downs with change and activations
    without storage fee.
  \<^item> \<open>TicketDB\<close>: the databases of \<open>ticket-processor.cpp\<close>, a \<open>key_value\<close> store each. Stored tickets are found under every
    key; keys hold values of their type.
  \<^item> \<open>TicketProcessor\<close>: \<open>ValidateIfTicketTransaction\<close>, \<open>UpdatedBlockTip\<close>, \<open>RepairTicketDB\<close>, look-up and erasing. A ticket that one
    node sends is accepted by another exactly if the rules of its class accept it, and found by one that connects its block.
  \<^item> \<open>TicketTracker\<close>, \<open>TicketMempool\<close>: \<open>ticket-txmempool.cpp\<close>, \<open>ticket-mempool-processor.cpp\<close>. The tracker
    follows the memory pool, and the processor finds the keys of exactly the tickets in it.

  \<^bold>\<open>Masternodes.\<close>
  \<^item> \<open>MnodeSync\<close>: \<open>mnode/mnode-sync.cpp\<close>, \<open>mnode/mnode-requesttracker.cpp\<close>. The state machine with its timer; it throws
    nowhere in a reachable state, and finishes within 115 seconds when nothing disturbs it.

  \<^bold>\<open>Conventions.\<close> Words have the width of the source where arithmetic can wrap; \<open>CAmount\<close> is an integer whose
  mixed operations with unsigned types are written out. An exception, failed assertion or failed read
  is \<^const>\<open>None\<close> or the left part of a sum with an error type that lists the returns of the code; operations that an
  exception leaves after writing return the new state with an optional result. Pointers into the block
  index are hashes. Each operation is one step, as the locks of the code make it.

  \<^bold>\<open>Bounds and fuel.\<close> Loops over bytes, outputs and coins are structural or have termination proofs. The
  walks over predecessor links in \<open>Chain\<close> have fuel taken from the height of the entry they start at; links
  of an index built by adding headers strictly lower the height, and the theorems on \<open>FindFork\<close>, \<open>SetTip\<close>,
  \<open>GetLocator\<close> and the last common ancestor show that the walks return. The replay of blocks in \<open>RepairTicketDB\<close> is
  shown to end in the same way. \<open>GetAncestor\<close> terminates on every store. The fee passes of the
  builder are the four of the source.

  \<^bold>\<open>Parameters.\<close> Hash functions, zstd (\<open>zstd_laws\<close>), the curve library (\<open>recovers\<close>), the decoder of addresses, the signer,
  the verdict of the memory pool, the verification of scripts, and the reading and rules of the single
  ticket classes are arguments or fields of environment records. Where a theorem needs a law of them it is a
  hypothesis, and its witness instantiates it.

  \<^bold>\<open>Not modelled.\<close> Input and output, threads and the network (\<open>net.cpp\<close>, \<open>netmsg/\<close>, \<open>httpserver.cpp\<close>, \<open>init.cpp\<close>, \<open>zmq/\<close>, \<open>amqp/\<close>), which have no
  result apart from effects outside the program; the RPC commands, which translate JSON; the wallet's
  files and keys, identities and signatures (\<open>wallet/\<close>, \<open>key.cpp\<close>, \<open>pastelid/\<close>), the script interpreter and the shielded
  protocol (\<open>script/interpreter.cpp\<close>, \<open>zcash/\<close>, \<open>snark/\<close>), which rest on cryptographic libraries; proof of work and mining; \<open>CheckBlock\<close>, the block
  files, the choice of the best chain and the commitment trees, of which \<open>block_ok\<close> states what connecting a
  block needs (different transactions with different ids among it, as the hash has no collisions); the memory pool's own rules and fee estimates; the rules of the single ticket classes, whose
  content is JSON; the masternode lists, payments and votes, which are signed messages of peers; the
  bundled libraries (\<open>leveldb/\<close>, \<open>msgpack/\<close>, \<open>secp256k1/\<close>, \<open>univalue/\<close>) and the tests.
\<close>

end
